(* ===== verification/Rust_Prelude.thy ===== *)
theory Rust_Prelude
  imports "HOL-Library.Word" "HOL-Library.Monad_Syntax" "HOL-Library.AList"
begin

unbundle bit_operations_syntax

section \<open>The fragment of Rust the models are written in\<close>

text \<open>
  Shared vocabulary of the development.

  \<^item> Machine integers: \<open>u8\<close>, \<open>u16\<close> and \<open>u32\<close> are words. A \<open>usize\<close> is a \<open>nat\<close> whose
    arithmetic is checked against \<open>2 ^ 64\<close> by \<open>uadd\<close>, \<open>usub\<close> and \<open>umul\<close>.
  \<^item> Panics: a computation that may panic (arithmetic overflow, a failed \<open>assert!\<close>, an
    \<open>expect\<close>, a slice index out of range) has type \<open>'a run\<close>, an option in which \<open>None\<close> is the
    panic. Overflow is a panic, as in a build with overflow checks; where a theorem shows the
    result is \<open>Some\<close>, the build without the checks computes the same value.
  \<^item> \<open>poll\<close> and \<open>result\<close> are the types \<open>Poll\<close> and \<open>Result\<close> of the standard library.
  \<^item> Wakers are task numbers; waking a task appends its number to a log.
  \<^item> Time is a number of nanoseconds; every reading of the clock is an argument.
\<close>

named_theorems run_simps \<open>evaluation of checked arithmetic and of the panic monad\<close>
named_theorems unat_simps \<open>unsigned readings of checked word arithmetic\<close>

type_synonym u8 = "8 word"
type_synonym u16 = "16 word"
type_synonym u32 = "32 word"
type_synonym usize = nat
type_synonym bytes = "u8 list"
type_synonym 'a run = "'a option"
type_synonym waker = nat
type_synonym instant = nat
type_synonym duration = nat

datatype 'a poll = Pending | Ready 'a

datatype ('a, 'e) result = Ok 'a | Err 'e

text \<open>The kinds of \<open>std::io::Error\<close> the code builds, and whatever a transport returns.\<close>

datatype io_error = WriteZero | UnexpectedEof | InvalidWriteCount | SinkPoisoned | Transport nat

abbreviation usize_max :: usize where
  "usize_max \<equiv> 2 ^ 64 - 1"

abbreviation u32_max :: u32 where
  "u32_max \<equiv> - 1"

subsection \<open>Time\<close>

text \<open>
  A \<open>Duration\<close> has 64 bits for its seconds and its multiplication panics on overflow. Two readings of
  a clock are less than \<open>2 ^ 63\<close> seconds apart (an \<open>Instant\<close> has signed seconds), and \<open>elapsed\<close>
  saturates at zero.
\<close>

definition DURATION_MAX :: duration where
  "DURATION_MAX = 2 ^ 64 * 1000000000 - 1"

definition INSTANT_RANGE :: duration where
  "INSTANT_RANGE = 2 ^ 63 * 1000000000 - 1"

definition dmul :: "duration \<Rightarrow> nat \<Rightarrow> duration run" where
  "dmul d n = (if d * n \<le> DURATION_MAX then Some (d * n) else None)"

definition elapsed :: "instant \<Rightarrow> instant \<Rightarrow> duration" where
  "elapsed now t = min (now - t) INSTANT_RANGE"

text \<open>A round-trip time that can be doubled; every measured one can.\<close>

definition rtt_ok :: "duration option \<Rightarrow> bool" where
  "rtt_ok rtt \<longleftrightarrow> (case rtt of None \<Rightarrow> True | Some d \<Rightarrow> d * 2 \<le> DURATION_MAX)"

lemma rtt_ok_simps [simp]: "rtt_ok None" "rtt_ok (Some (elapsed now t))"
  by (simp_all add: rtt_ok_def elapsed_def DURATION_MAX_def INSTANT_RANGE_def)

subsection \<open>Arithmetic\<close>

definition uadd :: "usize \<Rightarrow> usize \<Rightarrow> usize run" where
  "uadd a b = (if a + b < 2 ^ 64 then Some (a + b) else None)"

definition usub :: "usize \<Rightarrow> usize \<Rightarrow> usize run" where
  "usub a b = (if b \<le> a then Some (a - b) else None)"

definition umul :: "usize \<Rightarrow> usize \<Rightarrow> usize run" where
  "umul a b = (if a * b < 2 ^ 64 then Some (a * b) else None)"

definition checked_add :: "'a::len word \<Rightarrow> 'a word \<Rightarrow> 'a word option" where
  "checked_add a b = (if unat a + unat b < 2 ^ LENGTH('a) then Some (a + b) else None)"

definition checked_sub :: "'a::len word \<Rightarrow> 'a word \<Rightarrow> 'a word option" where
  "checked_sub a b = (if b \<le> a then Some (a - b) else None)"

definition saturating_sub :: "'a::len word \<Rightarrow> 'a word \<Rightarrow> 'a word" where
  "saturating_sub a b = (if b \<le> a then a - b else 0)"

definition saturating_mul :: "'a::len word \<Rightarrow> 'a word \<Rightarrow> 'a word" where
  "saturating_mul a b = (if unat a * unat b < 2 ^ LENGTH('a) then a * b else - 1)"

text \<open>\<open>usize::try_into::<u32>\<close>, and its use with \<open>unwrap_or(u32::MAX)\<close>.\<close>

definition u32_try_from :: "usize \<Rightarrow> u32 option" where
  "u32_try_from n = (if n < 2 ^ 32 then Some (of_nat n) else None)"

definition u32_of_usize_or_max :: "usize \<Rightarrow> u32" where
  "u32_of_usize_or_max n = (case u32_try_from n of Some x \<Rightarrow> x | None \<Rightarrow> u32_max)"

text \<open>\<open>assert!\<close>\<close>

definition assert_that :: "bool \<Rightarrow> unit run" where
  "assert_that b = (if b then Some () else None)"

definition ok_or :: "'e \<Rightarrow> 'a option \<Rightarrow> ('a, 'e) result" where
  "ok_or e x = (case x of Some v \<Rightarrow> Ok v | None \<Rightarrow> Err e)"

definition is_ready :: "'a poll \<Rightarrow> bool" where
  "is_ready p = (case p of Ready _ \<Rightarrow> True | Pending \<Rightarrow> False)"

text \<open>\<open>if let Some(w) = slot.take() { w.wake() }\<close>: the log with the woken task appended.\<close>

definition wake :: "waker option \<Rightarrow> waker list \<Rightarrow> waker list" where
  "wake slot log = (case slot of Some w \<Rightarrow> log @ [w] | None \<Rightarrow> log)"

subsection \<open>Big-endian bytes\<close>

definition u16_to_be_bytes :: "u16 \<Rightarrow> bytes" where
  "u16_to_be_bytes x = [ucast (drop_bit 8 x), ucast x]"

definition u16_from_be_bytes :: "u8 \<Rightarrow> u8 \<Rightarrow> u16" where
  "u16_from_be_bytes a b = push_bit 8 (ucast a) OR ucast b"

definition u32_to_be_bytes :: "u32 \<Rightarrow> bytes" where
  "u32_to_be_bytes x =
     [ucast (drop_bit 24 x), ucast (drop_bit 16 x), ucast (drop_bit 8 x), ucast x]"

definition u32_from_be_bytes :: "u8 \<Rightarrow> u8 \<Rightarrow> u8 \<Rightarrow> u8 \<Rightarrow> u32" where
  "u32_from_be_bytes a b c d =
     push_bit 24 (ucast a) OR push_bit 16 (ucast b) OR push_bit 8 (ucast c) OR ucast d"

subsection \<open>Lemmas on arithmetic\<close>

lemma uadd_Some_iff [run_simps]: "uadd a b = Some c \<longleftrightarrow> a + b < 2 ^ 64 \<and> c = a + b"
  by (auto simp: uadd_def)

lemma usub_Some_iff [run_simps]: "usub a b = Some c \<longleftrightarrow> b \<le> a \<and> c = a - b"
  by (auto simp: usub_def)

lemma umul_Some_iff [run_simps]: "umul a b = Some c \<longleftrightarrow> a * b < 2 ^ 64 \<and> c = a * b"
  by (auto simp: umul_def)

lemma assert_that_Some_iff [run_simps]: "assert_that b = Some u \<longleftrightarrow> b"
  by (auto simp: assert_that_def)

lemma assert_that_True [simp]: "assert_that True = Some ()"
  by (simp add: assert_that_def)

lemma checked_add_Some_iff [unat_simps]:
  "checked_add a b = Some c \<longleftrightarrow> unat c = unat a + unat b"
  for a b c :: "'a::len word"
proof
  assume "checked_add a b = Some c"
  then show "unat c = unat a + unat b"
    by (auto simp: checked_add_def unat_word_ariths split: if_splits)
next
  assume c: "unat c = unat a + unat b"
  then have "unat a + unat b < 2 ^ LENGTH('a)"
    using unsigned_less [of c, where 'a = nat] by simp
  moreover have "a + b = c"
    using c by (metis of_nat_add of_nat_unat ucast_id)
  ultimately show "checked_add a b = Some c"
    by (simp add: checked_add_def)
qed

lemma checked_add_None_iff [unat_simps]:
  "checked_add a b = None \<longleftrightarrow> 2 ^ LENGTH('a) \<le> unat a + unat b" for a b :: "'a::len word"
  by (auto simp: checked_add_def)

lemma checked_sub_Some_iff [unat_simps]:
  "checked_sub a b = Some c \<longleftrightarrow> unat b \<le> unat a \<and> unat c = unat a - unat b"
  for a b c :: "'a::len word"
  by (auto simp: checked_sub_def word_le_nat_alt unat_sub intro: word_unat_eq_iff [THEN iffD2])

lemma checked_sub_None_iff [unat_simps]:
  "checked_sub a b = None \<longleftrightarrow> unat a < unat b" for a b :: "'a::len word"
  by (auto simp: checked_sub_def word_le_nat_alt)

lemma unat_all_ones [unat_simps]: "unat (- 1 :: 'a::len word) = 2 ^ LENGTH('a) - 1"
  by (simp add: unsigned_minus_1_eq_mask mask_eq_exp_minus_1)

lemma unat_saturating_sub [unat_simps]: "unat (saturating_sub a b) = unat a - unat b"
  for a b :: "'a::len word"
  by (auto simp: saturating_sub_def word_le_nat_alt unat_sub)

lemma unat_saturating_mul [unat_simps]:
  "unat (saturating_mul a b) = min (unat a * unat b) (2 ^ LENGTH('a) - 1)"
  for a b :: "'a::len word"
proof (cases "unat a * unat b < 2 ^ LENGTH('a)")
  case True
  then show ?thesis
    by (simp add: saturating_mul_def unat_word_ariths min_def) arith
next
  case False
  then have "2 ^ LENGTH('a) - 1 \<le> unat a * unat b"
    by linarith
  with False show ?thesis
    by (simp add: saturating_mul_def unat_all_ones min_absorb2)
qed

lemma unat_u32_of_usize_or_max [unat_simps]:
  "unat (u32_of_usize_or_max n) = min n (2 ^ 32 - 1)"
  by (auto simp: u32_of_usize_or_max_def u32_try_from_def unat_of_nat unat_all_ones min_def take_bit_nat_eq_self)

lemma unat_u32_bound: "unat (x :: u32) < 2 ^ 32"
  using unsigned_less [of x] by simp

subsection \<open>Lemmas on byte order\<close>

lemma u32_be_roundtrip [simp]:
  "u32_from_be_bytes (ucast (drop_bit 24 x)) (ucast (drop_bit 16 x)) (ucast (drop_bit 8 x))
     (ucast x) = x" for x :: u32
proof (rule bit_word_eqI)
  fix n
  assume "n < LENGTH(32)"
  then consider "n < 8" | "8 \<le> n" "n < 16" | "16 \<le> n" "n < 24" | "24 \<le> n" "n < 32"
    by fastforce
  then show "bit (u32_from_be_bytes (ucast (drop_bit 24 x)) (ucast (drop_bit 16 x))
      (ucast (drop_bit 8 x)) (ucast x)) n = bit x n"
    by cases (auto simp: u32_from_be_bytes_def bit_simps)
qed

lemma u16_to_be_from_be [simp]: "u16_to_be_bytes (u16_from_be_bytes a b) = [a, b]"
  by (auto simp: u16_to_be_bytes_def u16_from_be_bytes_def intro!: bit_word_eqI)
    (auto simp: bit_simps dest: bit_imp_le_length)

lemma u32_to_be_from_be [simp]: "u32_to_be_bytes (u32_from_be_bytes a b c d) = [a, b, c, d]"
  by (auto simp: u32_to_be_bytes_def u32_from_be_bytes_def intro!: bit_word_eqI)
    (auto simp: bit_simps dest: bit_imp_le_length)


lemma u16_be_roundtrip [simp]:
  "u16_from_be_bytes (ucast (drop_bit 8 x)) (ucast x) = x" for x :: u16
  by (rule bit_word_eqI) (auto simp: u16_from_be_bytes_def bit_simps)

subsection \<open>Lemmas on lists\<close>

lemma take_drop_append [simp]: "take n (drop k xs) @ drop (k + n) xs = drop k xs"
  by (metis add.commute append_take_drop_id drop_drop)

lemma take_drop_append_left [simp]: "take n (drop k xs) @ drop (k + n) xs @ ys = drop k xs @ ys"
  by (metis append_assoc take_drop_append)

subsection \<open>Loops\<close>

text \<open>
  Every \<open>loop\<close> of the source is a body that either returns or goes round again. \<open>run_loop\<close> runs
  it; its result is \<open>None\<close> when the body panics or the loop never returns, so a theorem that the
  result is \<open>Some\<close> shows both that nothing panics and that the loop ends.
\<close>

datatype ('r, 's) flow = Return 'r 's | Continue 's

partial_function (option) run_loop ::
    "('s \<Rightarrow> ('r, 's) flow run) \<Rightarrow> 's \<Rightarrow> ('r \<times> 's) run" where
  "run_loop body s =
     Option.bind (body s)
       (\<lambda>x. case x of Return r s' \<Rightarrow> Some (r, s') | Continue s' \<Rightarrow> run_loop body s')"

lemma run_loop_Return: "body s = Some (Return r s') \<Longrightarrow> run_loop body s = Some (r, s')"
  by (simp add: run_loop.simps)

lemma run_loop_Continue: "body s = Some (Continue s') \<Longrightarrow> run_loop body s = run_loop body s'"
  by (simp add: run_loop.simps [of body s])

text \<open>Partial correctness: an invariant of the body, and what it gives on return.\<close>

lemma run_loop_rule:
  assumes "run_loop body s = Some (r, s')" and "I s"
    and cont: "\<And>s t. I s \<Longrightarrow> body s = Some (Continue t) \<Longrightarrow> I t"
    and ret: "\<And>s r t. I s \<Longrightarrow> body s = Some (Return r t) \<Longrightarrow> Q r t"
  shows "Q r s'"
proof -
  have "b = body \<longrightarrow> I s \<longrightarrow> (case x of (r, s') \<Rightarrow> Q r s')" if "run_loop b s = Some x" for b s x
  proof (rule run_loop.raw_induct
      [where P = "\<lambda>b s x. b = body \<longrightarrow> I s \<longrightarrow> (case x of (r, s') \<Rightarrow> Q r s')", OF _ that])
    fix f b s x
    assume IH: "\<And>b s x. f b s = Some x \<Longrightarrow> b = body \<longrightarrow> I s \<longrightarrow> (case x of (r, s') \<Rightarrow> Q r s')"
      and eq: "Option.bind (b s)
          (\<lambda>x. case x of Return r s' \<Rightarrow> Some (r, s') | Continue s' \<Rightarrow> f b s') = Some x"
    show "b = body \<longrightarrow> I s \<longrightarrow> (case x of (r, s') \<Rightarrow> Q r s')"
    proof (intro impI)
      assume b: "b = body" and I: "I s"
      from eq b obtain y where y: "body s = Some y"
        and x: "(case y of Return r s' \<Rightarrow> Some (r, s') | Continue s' \<Rightarrow> f b s') = Some x"
        by (auto simp: bind_eq_Some_conv)
      show "case x of (r, s') \<Rightarrow> Q r s'"
      proof (cases y)
        case (Return r t)
        with x y ret [OF I] show ?thesis by auto
      next
        case (Continue t)
        with x y cont [OF I] IH [of b t x] b show ?thesis by auto
      qed
    qed
  qed
  with assms(1,2) show ?thesis by auto
qed

text \<open>Total correctness: the body never panics under the invariant and a measure decreases.\<close>

lemma run_loop_total:
  assumes "I s"
    and total: "\<And>s. I s \<Longrightarrow> \<exists>x. body s = Some x"
    and cont: "\<And>s t. I s \<Longrightarrow> body s = Some (Continue t) \<Longrightarrow> I t \<and> m t < (m s :: nat)"
    and ret: "\<And>s r t. I s \<Longrightarrow> body s = Some (Return r t) \<Longrightarrow> Q r t"
  shows "\<exists>r s'. run_loop body s = Some (r, s') \<and> Q r s'"
  using assms(1)
proof (induction "m s" arbitrary: s rule: less_induct)
  case less
  obtain x where x: "body s = Some x"
    using total [OF less.prems] by blast
  show ?case
  proof (cases x)
    case (Return r t)
    then show ?thesis
      using x ret [OF less.prems] by (auto simp: run_loop_Return)
  next
    case (Continue t)
    with x cont [OF less.prems] less.hyps show ?thesis
      by (auto simp: run_loop_Continue)
  qed
qed

subsection \<open>Fixed-width codecs\<close>

text \<open>
  What the reader of a byte stream relies on: every value has an encoding of one width, decoding
  inverts it, and only encodings of proper values decode. Then encodings can be concatenated and
  taken apart again in one way only.
\<close>

locale fixed_codec =
  fixes enc :: "'a \<Rightarrow> bytes"
    and dec :: "bytes \<Rightarrow> ('a, 'e) result"
    and proper :: "'a \<Rightarrow> bool"
    and width :: nat
  assumes length_enc: "length (enc x) = width"
    and dec_enc: "proper x \<Longrightarrow> dec (enc x) = Ok x"
    and enc_dec: "length b = width \<Longrightarrow> dec b = Ok x \<Longrightarrow> enc x = b \<and> proper x"
begin

lemma enc_inject: "proper x \<Longrightarrow> proper y \<Longrightarrow> enc x = enc y \<longleftrightarrow> x = y"
  by (metis dec_enc result.inject(1))

lemma enc_append_cancel:
  assumes "proper x" and "proper y" and "enc x @ u = enc y @ v"
  shows "x = y \<and> u = v"
proof -
  from assms(3) have "enc x = enc y" and "u = v"
    by (auto simp: append_eq_append_conv length_enc)
  with assms(1,2) show ?thesis by (simp add: enc_inject)
qed

end

end
