(* ===== verification/Chunk_Buffer.thy ===== *)
theory Chunk_Buffer
  imports Rust_Prelude
begin

text \<open>
  The receive buffer of a stream (\<^verbatim>\<open>yamux/src/chunks.rs\<close>): a queue of byte vectors of which the
  first may be partly consumed, and the loop of \<open>Stream::poll_read\<close> that copies out of it. The
  abstract view is the list of bytes yet to be read; the locale \<open>byte_queue\<close> states what the
  stream relies on and is interpreted on this implementation.
\<close>

text \<open>\<open>io::Cursor<Vec<u8>>\<close>: the vector and the position.\<close>

record chunk =
  chunk_vec :: bytes
  chunk_pos :: usize

record chunks =
  chunks_seq :: "chunk list"
  chunks_total :: usize

subsection \<open>Chunk\<close>

definition chunk_offset :: "chunk \<Rightarrow> usize" where
  "chunk_offset c = chunk_pos c"

definition chunk_len :: "chunk \<Rightarrow> usize run" where
  "chunk_len c = usub (length (chunk_vec c)) (chunk_offset c)"

definition chunk_is_empty :: "chunk \<Rightarrow> bool run" where
  "chunk_is_empty c = do { n \<leftarrow> chunk_len c; Some (n = 0) }"

definition chunk_advance :: "usize \<Rightarrow> chunk \<Rightarrow> chunk run" where
  "chunk_advance amount c = do {
     _ \<leftarrow> assert_that (case uadd (chunk_offset c) amount of
            Some pos \<Rightarrow> pos \<le> length (chunk_vec c) | None \<Rightarrow> False);
     pos \<leftarrow> uadd (chunk_pos c) amount;
     Some (c\<lparr>chunk_pos := pos\<rparr>) }"

definition chunk_into_vec :: "chunk \<Rightarrow> bytes" where
  "chunk_into_vec c = chunk_vec c"

definition chunk_as_ref :: "chunk \<Rightarrow> bytes run" where
  "chunk_as_ref c = do {
     _ \<leftarrow> assert_that (chunk_offset c \<le> length (chunk_vec c));
     Some (drop (chunk_offset c) (chunk_vec c)) }"

subsection \<open>Chunks\<close>

definition chunks_new :: chunks where
  "chunks_new = \<lparr>chunks_seq = [], chunks_total = 0\<rparr>"

definition chunks_len :: "chunks \<Rightarrow> usize run" where
  "chunks_len cs =
     usub (chunks_total cs) (case chunks_seq cs of c # _ \<Rightarrow> chunk_offset c | [] \<Rightarrow> 0)"

definition chunks_push :: "bytes \<Rightarrow> chunks \<Rightarrow> chunks run" where
  "chunks_push x cs = do {
     n \<leftarrow> uadd (chunks_total cs) (length x);
     Some (cs\<lparr>chunks_total := n,
       chunks_seq := (if x \<noteq> [] then chunks_seq cs @ [\<lparr>chunk_vec = x, chunk_pos = 0\<rparr>]
         else chunks_seq cs)\<rparr>) }"

definition chunks_pop :: "chunks \<Rightarrow> (chunk option \<times> chunks) run" where
  "chunks_pop cs =
     (case chunks_seq cs of
        [] \<Rightarrow> do { n \<leftarrow> usub (chunks_total cs) 0; Some (None, cs\<lparr>chunks_total := n\<rparr>) }
      | c # rest \<Rightarrow> do {
          l \<leftarrow> chunk_len c;
          k \<leftarrow> uadd l (chunk_offset c);
          n \<leftarrow> usub (chunks_total cs) k;
          Some (Some c, cs\<lparr>chunks_seq := rest, chunks_total := n\<rparr>) })"

text \<open>\<open>front_mut\<close> lends the first chunk; \<open>chunks_set_front\<close> is the write through that reference.\<close>

definition chunks_front :: "chunks \<Rightarrow> chunk option" where
  "chunks_front cs = (case chunks_seq cs of c # _ \<Rightarrow> Some c | [] \<Rightarrow> None)"

definition chunks_set_front :: "chunk \<Rightarrow> chunks \<Rightarrow> chunks" where
  "chunks_set_front c cs = cs\<lparr>chunks_seq := c # tl (chunks_seq cs)\<rparr>"

text \<open>
  One round of the \<open>while let\<close> loop of \<open>poll_read\<close> with a buffer of \<open>m\<close> bytes. The state is the
  bytes copied so far (whose number is the loop's \<open>n\<close>) and the buffer.
\<close>

definition copy_step ::
    "usize \<Rightarrow> bytes \<times> chunks \<Rightarrow> (unit, bytes \<times> chunks) flow run" where
  "copy_step m st =
     (case st of (got, cs) \<Rightarrow>
       (case chunks_front cs of
          None \<Rightarrow> Some (Return () (got, cs))
        | Some c \<Rightarrow> do {
            e \<leftarrow> chunk_is_empty c;
            if e then do {
              (_, cs) \<leftarrow> chunks_pop cs;
              Some (Continue (got, cs)) }
            else do {
              l \<leftarrow> chunk_len c;
              room \<leftarrow> usub m (length got);
              let k = min l room;
              bs \<leftarrow> chunk_as_ref c;
              c \<leftarrow> chunk_advance k c;
              let got = got @ take k bs;
              let cs = chunks_set_front c cs;
              Some (if length got = m then Return () (got, cs) else Continue (got, cs)) } }))"

definition chunks_copy :: "usize \<Rightarrow> chunks \<Rightarrow> (bytes \<times> chunks) run" where
  "chunks_copy m cs = do { (_, st) \<leftarrow> run_loop (copy_step m) ([], cs); Some st }"

subsection \<open>Invariant and abstraction\<close>

definition chunk_rest :: "chunk \<Rightarrow> bytes" where
  "chunk_rest c = drop (chunk_pos c) (chunk_vec c)"

definition chunks_bytes :: "chunks \<Rightarrow> bytes" where
  "chunks_bytes cs = concat (map chunk_rest (chunks_seq cs))"

text \<open>
  Only the first chunk may be consumed in part, no vector is empty, and the counter is the sum of
  the vectors' lengths.
\<close>

definition chunks_ok :: "chunks \<Rightarrow> bool" where
  "chunks_ok cs \<longleftrightarrow>
     (\<forall>c \<in> set (chunks_seq cs). chunk_vec c \<noteq> [] \<and> chunk_pos c \<le> length (chunk_vec c)
        \<and> length (chunk_vec c) < 2 ^ 32)
     \<and> (\<forall>c \<in> set (tl (chunks_seq cs)). chunk_pos c = 0)
     \<and> chunks_total cs = sum_list (map (length \<circ> chunk_vec) (chunks_seq cs))"

text \<open>What a stream relies on.\<close>

locale byte_queue =
  fixes new :: 'q
    and len :: "'q \<Rightarrow> usize run"
    and push :: "bytes \<Rightarrow> 'q \<Rightarrow> 'q run"
    and pop :: "'q \<Rightarrow> ('c option \<times> 'q) run"
    and copy :: "usize \<Rightarrow> 'q \<Rightarrow> (bytes \<times> 'q) run"
    and content :: "'q \<Rightarrow> bytes"
    and rest :: "'c \<Rightarrow> bytes"
    and invar :: "'q \<Rightarrow> bool"
  assumes new: "invar new \<and> content new = []"
    and len: "invar q \<Longrightarrow> len q = Some (length (content q))"
    and push: "invar q \<Longrightarrow> length x < 2 ^ 32 \<Longrightarrow> length (content q) < 2 ^ 63 \<Longrightarrow>
      \<exists>q'. push x q = Some q' \<and> invar q' \<and> content q' = content q @ x"
    and pop: "invar q \<Longrightarrow> \<exists>c q'. pop q = Some (c, q') \<and> invar q' \<and>
      content q = (case c of Some c \<Rightarrow> rest c | None \<Rightarrow> []) @ content q' \<and>
      (c = None \<longrightarrow> content q = [])"
    and copy: "invar q \<Longrightarrow> m < 2 ^ 64 \<Longrightarrow>
      \<exists>q'. copy m q = Some (take m (content q), q') \<and> invar q' \<and> content q' = drop m (content q)"
begin

text \<open>Pushing a list of bodies, then reading in pieces: the pieces are the bodies' bytes in order.\<close>

primrec push_all :: "bytes list \<Rightarrow> 'q \<Rightarrow> 'q run" where
  "push_all [] q = Some q"
| "push_all (x # xs) q = do { q' \<leftarrow> push x q; push_all xs q' }"

primrec copy_all :: "usize list \<Rightarrow> 'q \<Rightarrow> (bytes \<times> 'q) run" where
  "copy_all [] q = Some ([], q)"
| "copy_all (m # ms) q = do {
     (bs, q) \<leftarrow> copy m q;
     (cs, q) \<leftarrow> copy_all ms q;
     Some (bs @ cs, q) }"

lemma push_all_content:
  assumes "invar q" and "\<forall>x \<in> set xs. length x < 2 ^ 32"
    and "length (content q) + length (concat xs) < 2 ^ 63"
  shows "\<exists>q'. push_all xs q = Some q' \<and> invar q' \<and> content q' = content q @ concat xs"
  using assms
proof (induction xs arbitrary: q)
  case Nil
  then show ?case by simp
next
  case (Cons x xs)
  then obtain q' where q': "push x q = Some q'" "invar q'" "content q' = content q @ x"
    using push [of q x] by auto
  with Cons.IH [of q'] Cons.prems show ?case
    by auto
qed

lemma copy_all_content:
  assumes "invar q" and "\<forall>m \<in> set ms. m < 2 ^ 64"
  shows "\<exists>q'. copy_all ms q = Some (take (sum_list ms) (content q), q') \<and> invar q'
    \<and> content q' = drop (sum_list ms) (content q)"
  using assms
proof (induction ms arbitrary: q)
  case Nil
  then show ?case by simp
next
  case (Cons m ms)
  then obtain q' where q': "copy m q = Some (take m (content q), q')" "invar q'"
    "content q' = drop m (content q)"
    using copy [of q m] by auto
  with Cons.IH [of q'] Cons.prems obtain q''
    where "copy_all ms q' = Some (take (sum_list ms) (content q'), q'')" "invar q''"
      "content q'' = drop (sum_list ms) (content q')"
    by auto
  with q' show ?case
    by (auto simp: take_add add.commute)
qed

end

subsection \<open>The implementation\<close>

lemma chunk_len_ok: "chunk_pos c \<le> length (chunk_vec c) \<Longrightarrow> chunk_len c = Some (length (chunk_rest c))"
  by (simp add: chunk_len_def chunk_offset_def chunk_rest_def usub_def)

lemma set_tlD: "x \<in> set (tl xs) \<Longrightarrow> x \<in> set xs"
  by (cases xs) auto

lemma chunks_new_ok: "chunks_ok chunks_new \<and> chunks_bytes chunks_new = []"
  by (simp add: chunks_new_def chunks_ok_def chunks_bytes_def)

lemma chunks_rest_fresh:
  "\<forall>c \<in> set cs. chunk_pos c = 0 \<Longrightarrow>
     length (concat (map chunk_rest cs)) = sum_list (map (length \<circ> chunk_vec) cs)"
  by (induction cs) (auto simp: chunk_rest_def)

lemma chunks_total_eq:
  assumes "chunks_ok cs"
  shows "chunks_total cs = length (chunks_bytes cs)
    + (case chunks_seq cs of [] \<Rightarrow> 0 | c # _ \<Rightarrow> chunk_pos c)"
proof (cases "chunks_seq cs")
  case Nil
  with assms show ?thesis by (simp add: chunks_ok_def chunks_bytes_def)
next
  case (Cons c rest)
  with assms have "length (concat (map chunk_rest rest)) = sum_list (map (length \<circ> chunk_vec) rest)"
    by (intro chunks_rest_fresh) (simp add: chunks_ok_def)
  with Cons assms show ?thesis
    by (auto simp: chunks_ok_def chunks_bytes_def chunk_rest_def)
qed

lemma chunks_len_ok: "chunks_ok cs \<Longrightarrow> chunks_len cs = Some (length (chunks_bytes cs))"
  using chunks_total_eq [of cs]
  by (auto simp: chunks_len_def usub_def chunk_offset_def split: list.splits)

lemma chunks_push_ok:
  assumes "chunks_ok cs" and "length x < 2 ^ 32" and "length (chunks_bytes cs) < 2 ^ 63"
  shows "\<exists>cs'. chunks_push x cs = Some cs' \<and> chunks_ok cs' \<and> chunks_bytes cs' = chunks_bytes cs @ x"
proof -
  have "chunks_total cs < 2 ^ 63 + 2 ^ 32"
    using assms chunks_total_eq [of cs] by (fastforce simp: chunks_ok_def split: list.splits)
  with assms(2) have "chunks_total cs + length x < 2 ^ 64"
    by simp
  then show ?thesis
    using assms(1,2)
    by (cases "chunks_seq cs")
      (auto simp: chunks_push_def uadd_def chunks_ok_def chunks_bytes_def chunk_rest_def)
qed

lemma chunks_pop_ok:
  assumes "chunks_ok cs"
  shows "\<exists>c cs'. chunks_pop cs = Some (c, cs') \<and> chunks_ok cs' \<and>
    chunks_bytes cs = (case c of Some c \<Rightarrow> chunk_rest c | None \<Rightarrow> []) @ chunks_bytes cs' \<and>
    (c = None \<longrightarrow> chunks_bytes cs = []) \<and> chunks_seq cs' = tl (chunks_seq cs)"
proof (cases "chunks_seq cs")
  case Nil
  with assms show ?thesis
    by (simp add: chunks_pop_def usub_def chunks_bytes_def)
next
  case (Cons c rest)
  with assms have "chunk_pos c \<le> length (chunk_vec c)" "length (chunk_vec c) < 2 ^ 32"
    by (auto simp: chunks_ok_def)
  with Cons assms show ?thesis
    by (auto simp: chunks_pop_def chunk_len_def usub_def uadd_def chunk_offset_def chunks_ok_def
        chunks_bytes_def dest: set_tlD)
qed

text \<open>The copy loop: what was copied and what is left always make up the original content.\<close>

definition copy_inv :: "usize \<Rightarrow> bytes \<Rightarrow> bytes \<times> chunks \<Rightarrow> bool" where
  "copy_inv m bs0 st \<longleftrightarrow>
     chunks_ok (snd st) \<and> fst st @ chunks_bytes (snd st) = bs0 \<and> length (fst st) \<le> m"

definition copy_work :: "bytes \<times> chunks \<Rightarrow> nat" where
  "copy_work st = length (chunks_seq (snd st)) + length (chunks_bytes (snd st))"

lemma chunks_advance_front:
  assumes "chunks_ok cs" and "chunks_seq cs = c # rest" and "k \<le> length (chunk_rest c)"
  shows "\<exists>c'. chunk_advance k c = Some c' \<and> chunks_ok (chunks_set_front c' cs)
    \<and> chunks_bytes (chunks_set_front c' cs) = drop k (chunks_bytes cs)
    \<and> chunks_seq (chunks_set_front c' cs) = c' # rest"
  using assms
  by (auto simp: chunk_advance_def chunk_offset_def uadd_def chunk_rest_def chunks_ok_def
      chunks_set_front_def chunks_bytes_def add.commute assert_that_def)

lemma copy_step_ok:
  assumes "copy_inv m bs0 (got, cs)" and "m < 2 ^ 64"
  shows "\<exists>x. copy_step m (got, cs) = Some x \<and>
    (case x of
       Return _ (g, q) \<Rightarrow> g = take m bs0 \<and> chunks_ok q \<and> chunks_bytes q = drop m bs0
     | Continue st \<Rightarrow> copy_inv m bs0 st \<and> copy_work st < copy_work (got, cs))"
proof (cases "chunks_seq cs")
  case Nil
  with assms show ?thesis
    by (auto simp: copy_step_def chunks_front_def copy_inv_def chunks_bytes_def)
next
  case (Cons c rest)
  with assms(1) have ok: "chunks_ok cs" and pos: "chunk_pos c \<le> length (chunk_vec c)"
    and eq: "got @ chunks_bytes cs = bs0" and room: "length got \<le> m"
    by (auto simp: copy_inv_def chunks_ok_def)
  show ?thesis
  proof (cases "chunk_rest c = []")
    case True
    with pos have "chunk_is_empty c = Some True"
      by (simp add: chunk_is_empty_def chunk_len_ok)
    with True Cons eq room chunks_pop_ok [OF ok] show ?thesis
      by (auto simp: copy_step_def chunks_front_def copy_inv_def copy_work_def chunks_bytes_def)
  next
    case False
    define k where "k = min (length (chunk_rest c)) (m - length got)"
    have bytes: "chunks_bytes cs = chunk_rest c @ concat (map chunk_rest rest)"
      using Cons by (simp add: chunks_bytes_def)
    then have tk: "take k (chunk_rest c) = take k (chunks_bytes cs)" and kb: "k \<le> length (chunks_bytes cs)"
      by (simp_all add: k_def)
    have km: "min (length (chunks_bytes cs)) k = k" "min (length (chunk_rest c)) k = k"
      using kb by (simp_all add: k_def)
    obtain c' where adv: "chunk_advance k c = Some c'" and ok': "chunks_ok (chunks_set_front c' cs)"
      and b: "chunks_bytes (chunks_set_front c' cs) = drop k (chunks_bytes cs)"
      and sq: "chunks_seq (chunks_set_front c' cs) = c' # rest"
      using chunks_advance_front [OF ok Cons, of k] by (auto simp: k_def)
    let ?st = "(got @ take k (chunks_bytes cs), chunks_set_front c' cs)"
    have "chunk_is_empty c = Some False" "chunk_as_ref c = Some (chunk_rest c)"
      using pos False
      by (simp_all add: chunk_is_empty_def chunk_len_ok chunk_as_ref_def chunk_offset_def chunk_rest_def)
    with Cons pos room adv tk km have step: "copy_step m (got, cs)
        = Some (if length (fst ?st) = m then Return () ?st else Continue ?st)"
      by (simp add: copy_step_def chunks_front_def chunk_len_ok usub_def Let_def flip: k_def)
    have len: "length (fst ?st) = length got + k" "length got + k \<le> m"
      using room km(1) by (simp, simp add: k_def)
    have whole: "fst ?st @ chunks_bytes (snd ?st) = bs0"
      using eq b by simp
    show ?thesis
    proof (cases "length (fst ?st) = m")
      case True
      then have "fst ?st = take m bs0" "chunks_bytes (snd ?st) = drop m bs0"
        using whole by (metis append_eq_conv_conj)+
      with True step ok' show ?thesis
        by simp
    next
      case False
      with len have "0 < k"
        using \<open>chunk_rest c \<noteq> []\<close> by (auto simp: k_def min_def split: if_splits)
      with sq b Cons kb have "copy_work ?st < copy_work (got, cs)"
        by (simp add: copy_work_def)
      moreover have "copy_inv m bs0 ?st"
        using ok' whole len by (simp add: copy_inv_def)
      ultimately show ?thesis
        using step False by simp
    qed
  qed
qed

lemma chunks_copy_ok:
  assumes "chunks_ok cs" and "m < 2 ^ 64"
  shows "\<exists>q. chunks_copy m cs = Some (take m (chunks_bytes cs), q) \<and> chunks_ok q
    \<and> chunks_bytes q = drop m (chunks_bytes cs)"
proof -
  have "\<exists>r st. run_loop (copy_step m) ([], cs) = Some (r, st) \<and>
      (case st of (g, q) \<Rightarrow> g = take m (chunks_bytes cs) \<and> chunks_ok q
        \<and> chunks_bytes q = drop m (chunks_bytes cs))"
  proof (rule run_loop_total [where I = "copy_inv m (chunks_bytes cs)" and m = copy_work])
    show "copy_inv m (chunks_bytes cs) ([], cs)"
      using assms by (simp add: copy_inv_def)
  qed (use copy_step_ok [of m "chunks_bytes cs"] assms(2) in fastforce)+
  then show ?thesis
    by (auto simp: chunks_copy_def)
qed

interpretation rx_buffer: byte_queue chunks_new chunks_len chunks_push chunks_pop chunks_copy
    chunks_bytes chunk_rest chunks_ok
  by unfold_locales
    (use chunks_new_ok chunks_len_ok chunks_push_ok chunks_pop_ok chunks_copy_ok in blast)+

text \<open>
  C27: The chunk buffer is a first-in first-out queue of bytes. Pushing any bodies onto an empty
  buffer succeeds and makes its length their total length, and reading them back through buffers
  of any sizes neither panics nor loops and yields exactly their bytes in order, as many as asked
  for.
\<close>

theorem chunks_fifo:
  assumes "\<forall>x \<in> set xs. length x < 2 ^ 32" and "length (concat xs) < 2 ^ 63"
    and "\<forall>m \<in> set ms. m < 2 ^ 64"
  shows "\<exists>q q'. rx_buffer.push_all xs chunks_new = Some q
    \<and> chunks_len q = Some (length (concat xs))
    \<and> rx_buffer.copy_all ms q = Some (take (sum_list ms) (concat xs), q')
    \<and> chunks_len q' = Some (length (concat xs) - sum_list ms)"
proof -
  obtain q where q: "rx_buffer.push_all xs chunks_new = Some q" "chunks_ok q"
    "chunks_bytes q = concat xs"
    using rx_buffer.push_all_content [of chunks_new xs] assms(1,2) rx_buffer.new by auto
  moreover obtain q' where "rx_buffer.copy_all ms q = Some (take (sum_list ms) (concat xs), q')"
    "chunks_ok q'" "chunks_bytes q' = drop (sum_list ms) (concat xs)"
    using rx_buffer.copy_all_content [OF q(2) assms(3)] q(3) by auto
  ultimately show ?thesis
    by (auto simp: rx_buffer.len)
qed

theorem chunks_fifo_witness:
  "\<exists>q q'. rx_buffer.push_all [[1, 2, 3], [], [4, 5]] chunks_new = Some q
    \<and> chunks_len q = Some (length [1, 2, 3, 4, 5 :: u8])
    \<and> rx_buffer.copy_all [2, 2] q = Some ([1, 2, 3, 4], q') \<and> chunks_len q' = Some 1"
  using chunks_fifo [of "[[1, 2, 3], [], [4, 5]]" "[2, 2]"] by simp

end
