(* ===== verification/Conf.thy ===== *)
theory Conf
  imports Rust_Prelude
begin

text \<open>
  Constants and the \<open>Config\<close> of \<^verbatim>\<open>yamux/src/lib.rs\<close>. The setters assert that every stream can
  be given the default window within the connection's limit; \<open>config_ok\<close> is what they establish
  and what the flow controller relies on.
\<close>

definition KIB :: usize where
  "KIB = 1024"

definition MIB :: usize where
  "MIB = KIB * 1024"

definition GIB :: usize where
  "GIB = MIB * 1024"

definition DEFAULT_CREDIT :: u32 where
  "DEFAULT_CREDIT = 256 * of_nat KIB"

definition MAX_ACK_BACKLOG :: usize where
  "MAX_ACK_BACKLOG = 256"

definition DEFAULT_SPLIT_SEND_SIZE :: usize where
  "DEFAULT_SPLIT_SEND_SIZE = 16 * KIB"

record config =
  max_connection_receive_window :: "usize option"
  max_num_streams :: usize
  read_after_close :: bool
  split_send_size :: usize

definition default_config :: config where
  "default_config =
     \<lparr>max_connection_receive_window = Some GIB, max_num_streams = 512,
      read_after_close = True, split_send_size = DEFAULT_SPLIT_SEND_SIZE\<rparr>"

text \<open>\<open>max_connection_receive_window.unwrap_or(usize::MAX)\<close>\<close>

definition window_limit :: "config \<Rightarrow> usize" where
  "window_limit c = (case max_connection_receive_window c of Some n \<Rightarrow> n | None \<Rightarrow> usize_max)"

definition assert_window_limit :: "config \<Rightarrow> config run" where
  "assert_window_limit c = do {
     need \<leftarrow> umul (max_num_streams c) (unat DEFAULT_CREDIT);
     _ \<leftarrow> assert_that (need \<le> window_limit c);
     Some c }"

definition set_max_connection_receive_window :: "usize option \<Rightarrow> config \<Rightarrow> config run" where
  "set_max_connection_receive_window n c =
     assert_window_limit (c\<lparr>max_connection_receive_window := n\<rparr>)"

definition set_max_num_streams :: "usize \<Rightarrow> config \<Rightarrow> config run" where
  "set_max_num_streams n c = assert_window_limit (c\<lparr>max_num_streams := n\<rparr>)"

definition set_read_after_close :: "bool \<Rightarrow> config \<Rightarrow> config" where
  "set_read_after_close b c = c\<lparr>read_after_close := b\<rparr>"

definition set_split_send_size :: "usize \<Rightarrow> config \<Rightarrow> config" where
  "set_split_send_size n c = c\<lparr>split_send_size := n\<rparr>"

text \<open>
  The configurations a program can build: the default one, and whatever the setters return without
  panicking. A limit given to a setter is a \<open>usize\<close>.
\<close>

inductive built_config :: "config \<Rightarrow> bool" where
  default: "built_config default_config"
| conn_window: "built_config c \<Longrightarrow> (\<And>m. n = Some m \<Longrightarrow> m \<le> usize_max) \<Longrightarrow>
    set_max_connection_receive_window n c = Some c' \<Longrightarrow> built_config c'"
| num_streams: "built_config c \<Longrightarrow> set_max_num_streams k c = Some c' \<Longrightarrow> built_config c'"
| read_after: "built_config c \<Longrightarrow> built_config (set_read_after_close b c)"
| split_size: "built_config c \<Longrightarrow> built_config (set_split_send_size k c)"

definition config_ok :: "config \<Rightarrow> bool" where
  "config_ok c \<longleftrightarrow>
     max_num_streams c * unat DEFAULT_CREDIT \<le> window_limit c \<and> window_limit c \<le> usize_max"

lemma unat_DEFAULT_CREDIT [simp]: "unat DEFAULT_CREDIT = 262144"
  by (simp add: DEFAULT_CREDIT_def KIB_def)

lemma DEFAULT_CREDIT_eq: "DEFAULT_CREDIT = 262144"
  by (simp add: DEFAULT_CREDIT_def KIB_def)

lemmas size_defs = KIB_def MIB_def GIB_def MAX_ACK_BACKLOG_def DEFAULT_SPLIT_SEND_SIZE_def

lemma config_ok_default: "config_ok default_config"
  by (simp add: config_ok_def default_config_def window_limit_def size_defs)

lemma assert_window_limit_Some:
  "assert_window_limit c = Some c' \<longleftrightarrow>
     c' = c \<and> max_num_streams c * 262144 < 2 ^ 64 \<and> max_num_streams c * 262144 \<le> window_limit c"
  by (auto simp: assert_window_limit_def run_simps bind_eq_Some_conv)

lemma config_ok_readonly_fields [simp]:
  "config_ok (c\<lparr>read_after_close := b\<rparr>) = config_ok c"
  "config_ok (c\<lparr>split_send_size := k\<rparr>) = config_ok c"
  by (simp_all add: config_ok_def window_limit_def)

lemma config_ok_built:
  assumes "built_config c"
  shows "config_ok c"
  using assms
proof (induction rule: built_config.induct)
  case default
  show ?case by (rule config_ok_default)
next
  case (conn_window c n c')
  then show ?case
    by (cases n)
      (auto simp: set_max_connection_receive_window_def assert_window_limit_Some config_ok_def
        window_limit_def)
next
  case (num_streams c k c')
  then show ?case
    by (auto simp: set_max_num_streams_def assert_window_limit_Some config_ok_def
        window_limit_def split: option.splits)
qed (simp_all add: set_read_after_close_def set_split_send_size_def)

end
