(* ===== verification/Frame_Header.thy ===== *)
theory Frame_Header
  imports Rust_Prelude
begin

unbundle bit_operations_syntax

text \<open>
  The frame header of \<^verbatim>\<open>yamux/src/frame/header.rs\<close>: its fields, flags, constructors and the
  12-byte encoding. The phantom message type of \<open>Header<T>\<close> is erased; the two places where the
  code checks it at run time (\<open>into_data\<close> and its siblings) check the tag here.
\<close>

datatype tag = Data | WindowUpdate | Ping | GoAway

text \<open>\<open>hdr.tag as u8\<close>\<close>

primrec tag_code :: "tag \<Rightarrow> u8" where
  "tag_code Data = 0"
| "tag_code WindowUpdate = 1"
| "tag_code Ping = 2"
| "tag_code GoAway = 3"

record header =
  hdr_version :: u8
  hdr_tag :: tag
  hdr_flags :: u16
  hdr_stream_id :: u32
  hdr_length :: u32

datatype header_decode_error = Version u8 | Type u8

definition SYN :: u16 where
  "SYN = 1"

definition ACK :: u16 where
  "ACK = 2"

definition FIN :: u16 where
  "FIN = 4"

definition RST :: u16 where
  "RST = 8"

definition HEADER_SIZE :: usize where
  "HEADER_SIZE = 12"

definition CONNECTION_ID :: u32 where
  "CONNECTION_ID = 0"

subsection \<open>Operations\<close>

definition flags_contains :: "u16 \<Rightarrow> u16 \<Rightarrow> bool" where
  "flags_contains f other \<longleftrightarrow> f AND other = other"

definition is_server :: "u32 \<Rightarrow> bool" where
  "is_server sid \<longleftrightarrow> sid mod 2 = 0"

definition is_client :: "u32 \<Rightarrow> bool" where
  "is_client sid \<longleftrightarrow> \<not> is_server sid"

definition is_session :: "u32 \<Rightarrow> bool" where
  "is_session sid \<longleftrightarrow> sid = CONNECTION_ID"

definition hdr_syn :: "header \<Rightarrow> header" where
  "hdr_syn h = h\<lparr>hdr_flags := hdr_flags h OR SYN\<rparr>"

definition hdr_ack :: "header \<Rightarrow> header" where
  "hdr_ack h = h\<lparr>hdr_flags := hdr_flags h OR ACK\<rparr>"

definition hdr_fin :: "header \<Rightarrow> header" where
  "hdr_fin h = h\<lparr>hdr_flags := hdr_flags h OR FIN\<rparr>"

definition hdr_rst :: "header \<Rightarrow> header" where
  "hdr_rst h = h\<lparr>hdr_flags := hdr_flags h OR RST\<rparr>"

definition header_data :: "u32 \<Rightarrow> u32 \<Rightarrow> header" where
  "header_data sid len =
     \<lparr>hdr_version = 0, hdr_tag = Data, hdr_flags = 0, hdr_stream_id = sid, hdr_length = len\<rparr>"

definition header_window_update :: "u32 \<Rightarrow> u32 \<Rightarrow> header" where
  "header_window_update sid credit =
     \<lparr>hdr_version = 0, hdr_tag = WindowUpdate, hdr_flags = 0, hdr_stream_id = sid,
      hdr_length = credit\<rparr>"

definition hdr_credit :: "header \<Rightarrow> u32" where
  "hdr_credit h = hdr_length h"

definition header_ping :: "u32 \<Rightarrow> header" where
  "header_ping pid =
     \<lparr>hdr_version = 0, hdr_tag = Ping, hdr_flags = 0, hdr_stream_id = 0, hdr_length = pid\<rparr>"

definition hdr_ping_id :: "header \<Rightarrow> u32" where
  "hdr_ping_id h = hdr_length h"

definition header_go_away :: "u32 \<Rightarrow> header" where
  "header_go_away code =
     \<lparr>hdr_version = 0, hdr_tag = GoAway, hdr_flags = 0, hdr_stream_id = 0, hdr_length = code\<rparr>"

definition header_term :: header where
  "header_term = header_go_away 0"

definition header_protocol_error :: header where
  "header_protocol_error = header_go_away 1"

definition header_internal_error :: header where
  "header_internal_error = header_go_away 2"

text \<open>\<open>debug_assert_eq!(self.tag, ...)\<close> before the cast.\<close>

definition hdr_into_data :: "header \<Rightarrow> header run" where
  "hdr_into_data h = do { _ \<leftarrow> assert_that (hdr_tag h = Data); Some h }"

definition hdr_into_window_update :: "header \<Rightarrow> header run" where
  "hdr_into_window_update h = do { _ \<leftarrow> assert_that (hdr_tag h = WindowUpdate); Some h }"

definition hdr_into_ping :: "header \<Rightarrow> header run" where
  "hdr_into_ping h = do { _ \<leftarrow> assert_that (hdr_tag h = Ping); Some h }"

definition encode :: "header \<Rightarrow> bytes" where
  "encode h =
     [hdr_version h, tag_code (hdr_tag h)] @ u16_to_be_bytes (hdr_flags h)
     @ u32_to_be_bytes (hdr_stream_id h) @ u32_to_be_bytes (hdr_length h)"

text \<open>The argument of \<open>decode\<close> is an array of 12 bytes.\<close>

definition decode :: "bytes \<Rightarrow> (header, header_decode_error) result" where
  "decode buf =
     (if buf ! 0 \<noteq> 0 then Err (Version (buf ! 0))
      else
        let mk = (\<lambda>t. Ok \<lparr>hdr_version = buf ! 0, hdr_tag = t,
               hdr_flags = u16_from_be_bytes (buf ! 2) (buf ! 3),
               hdr_stream_id = u32_from_be_bytes (buf ! 4) (buf ! 5) (buf ! 6) (buf ! 7),
               hdr_length = u32_from_be_bytes (buf ! 8) (buf ! 9) (buf ! 10) (buf ! 11)\<rparr>)
        in if buf ! 1 = 0 then mk Data
           else if buf ! 1 = 1 then mk WindowUpdate
           else if buf ! 1 = 2 then mk Ping
           else if buf ! 1 = 3 then mk GoAway
           else Err (Type (buf ! 1)))"

subsection \<open>Flags\<close>

lemmas flag_defs = SYN_def ACK_def FIN_def RST_def

lemma flags_contains_exp: "k < 16 \<Longrightarrow> flags_contains f (push_bit k 1) = bit f k"
  unfolding flags_contains_def by (subst bit_eq_iff) (auto simp: bit_simps)

lemma flags_contains_SYN: "flags_contains f SYN = bit f 0"
  using flags_contains_exp [of 0 f] by (simp add: SYN_def)

lemma flags_contains_ACK: "flags_contains f ACK = bit f 1"
  using flags_contains_exp [of 1 f] by (simp add: ACK_def)

lemma flags_contains_FIN: "flags_contains f FIN = bit f 2"
  using flags_contains_exp [of 2 f] by (simp add: FIN_def push_bit_eq_mult)

lemma flags_contains_RST: "flags_contains f RST = bit f 3"
  using flags_contains_exp [of 3 f] by (simp add: RST_def push_bit_eq_mult)

lemmas flags_contains_bit =
  flags_contains_SYN flags_contains_ACK flags_contains_FIN flags_contains_RST

lemma bit_flag_constants [simp]:
  "bit SYN n \<longleftrightarrow> n = 0" "bit ACK n \<longleftrightarrow> n = 1" "bit FIN n \<longleftrightarrow> n = 2" "bit RST n \<longleftrightarrow> n = 3"
proof -
  have "bit (push_bit k (1::u16)) n \<longleftrightarrow> n = k" if "k < 16" for k
    using that by (auto simp: bit_simps)
  from this [of 0] this [of 1] this [of 2] this [of 3]
  show "bit SYN n \<longleftrightarrow> n = 0" "bit ACK n \<longleftrightarrow> n = 1" "bit FIN n \<longleftrightarrow> n = 2" "bit RST n \<longleftrightarrow> n = 3"
    by (simp_all add: flag_defs push_bit_eq_mult)
qed

lemma contains_flag_or:
  "f \<in> {SYN, ACK, FIN, RST} \<Longrightarrow> g \<in> {SYN, ACK, FIN, RST} \<Longrightarrow>
     flags_contains (x OR f) g \<longleftrightarrow> g = f \<or> flags_contains x g"
  by (auto simp: flags_contains_bit bit_or_iff)

lemma contains_zero: "g \<in> {SYN, ACK, FIN, RST} \<Longrightarrow> \<not> flags_contains 0 g"
  by (auto simp: flags_contains_bit)

subsection \<open>The encoding\<close>

lemma length_encode [simp]: "length (encode h) = 12"
  by (simp add: encode_def u16_to_be_bytes_def u32_to_be_bytes_def)

lemma encode_nth:
  "encode h ! 0 = hdr_version h" "encode h ! 1 = tag_code (hdr_tag h)"
  by (simp_all add: encode_def)

lemma tag_byte_bound:
  assumes "t \<noteq> 0" "t \<noteq> 1" "t \<noteq> 2" "t \<noteq> 3"
  shows "3 < (t :: u8)"
proof (rule ccontr)
  assume "\<not> 3 < t"
  then have "unat t \<le> 3"
    by (simp add: word_less_nat_alt)
  then have "unat t = 0 \<or> unat t = 1 \<or> unat t = 2 \<or> unat t = 3"
    by linarith
  with assms show False
    by (auto simp: word_unat_eq_iff)
qed

lemma length_12_cases:
  assumes "length buf = 12"
  obtains b0 b1 b2 b3 b4 b5 b6 b7 b8 b9 b10 b11
    where "buf = [b0, b1, b2, b3, b4, b5, b6, b7, b8, b9, b10, b11]"
  using assms by (auto simp: length_Suc_conv numeral_eq_Suc)

interpretation hdr: fixed_codec encode decode "\<lambda>h. hdr_version h = 0" 12
proof unfold_locales
  fix h :: header
  show "length (encode h) = 12" by simp
  show "decode (encode h) = Ok h" if "hdr_version h = 0"
    using that
    by (cases "hdr_tag h")
      (simp_all add: decode_def encode_def u16_to_be_bytes_def u32_to_be_bytes_def)
  show "encode h = b \<and> hdr_version h = 0" if "length b = 12" and "decode b = Ok h" for b
    using that(1)
    by (rule length_12_cases)
      (use that(2) in \<open>auto simp: decode_def encode_def Let_def split: if_splits\<close>)
qed

text \<open>
  C24: \<open>decode\<close> accepts exactly the 12-byte arrays whose version byte is 0 and whose type byte is a
  known tag, rejects the others with the offending byte, and what it accepts encodes back to the
  same bytes: no two byte strings decode to one header.
\<close>

theorem decode_exact:
  assumes "length buf = 12"
  shows "case decode buf of
      Ok h \<Rightarrow> encode h = buf \<and> hdr_version h = 0
    | Err (Version v) \<Rightarrow> v = buf ! 0 \<and> v \<noteq> 0
    | Err (Type t) \<Rightarrow> buf ! 0 = 0 \<and> t = buf ! 1 \<and> 3 < t"
proof (cases "decode buf")
  case (Ok h)
  with hdr.enc_dec [OF assms] show ?thesis by simp
next
  case (Err e)
  then show ?thesis
    by (auto simp: decode_def Let_def tag_byte_bound split: if_splits)
qed

theorem decode_exact_witness:
  "length (replicate 12 (0::u8)) = 12
   \<and> (case decode (replicate 12 0) of Ok h \<Rightarrow> encode h = replicate 12 0 | Err _ \<Rightarrow> False)"
proof -
  have l: "length (replicate 12 (0::u8)) = 12" by simp
  have "decode (replicate 12 0) \<noteq> Err e" for e
    by (simp add: decode_def)
  with l decode_exact [OF l] show ?thesis
    by (simp split: result.splits)
qed

end
