(* ===== verification/Frames.thy ===== *)
theory Frames
  imports Conf Frame_Header
begin

unbundle bit_operations_syntax

text \<open>
  Frames (\<^verbatim>\<open>yamux/src/frame.rs\<close>): a header and a body, with the constructors for every message
  the code sends; and the error types of \<^verbatim>\<open>frame/io.rs\<close> and \<^verbatim>\<open>error.rs\<close>.
\<close>

record frame =
  fr_header :: header
  fr_body :: bytes

datatype frame_decode_error = Io io_error | Header header_decode_error | FrameTooLarge usize

datatype connection_error =
  ConnIo io_error
| Decode frame_decode_error
| NoMoreStreamIds
| Closed_Error
| TooManyStreams
| InvalidWindowUpdate

definition frame_new :: "header \<Rightarrow> frame" where
  "frame_new h = \<lparr>fr_header = h, fr_body = []\<rparr>"

definition frame_into_data :: "frame \<Rightarrow> frame run" where
  "frame_into_data f = do { h \<leftarrow> hdr_into_data (fr_header f); Some (f\<lparr>fr_header := h\<rparr>) }"

definition frame_into_window_update :: "frame \<Rightarrow> frame run" where
  "frame_into_window_update f =
     do { h \<leftarrow> hdr_into_window_update (fr_header f); Some (f\<lparr>fr_header := h\<rparr>) }"

definition frame_into_ping :: "frame \<Rightarrow> frame run" where
  "frame_into_ping f = do { h \<leftarrow> hdr_into_ping (fr_header f); Some (f\<lparr>fr_header := h\<rparr>) }"

text \<open>\<open>Frame::data\<close>: \<open>None\<close> is the error \<open>TryFromIntError\<close>.\<close>

definition frame_data :: "u32 \<Rightarrow> bytes \<Rightarrow> frame option" where
  "frame_data sid b =
     (case u32_try_from (length b) of
        Some n \<Rightarrow> Some \<lparr>fr_header = header_data sid n, fr_body = b\<rparr>
      | None \<Rightarrow> None)"

definition frame_close_stream :: "u32 \<Rightarrow> bool \<Rightarrow> frame" where
  "frame_close_stream sid ack =
     (let h = hdr_fin (header_data sid 0) in frame_new (if ack then hdr_ack h else h))"

text \<open>\<open>self.body().len() as u32\<close> truncates.\<close>

definition frame_body_len :: "frame \<Rightarrow> u32" where
  "frame_body_len f = of_nat (length (fr_body f))"

definition frame_window_update :: "u32 \<Rightarrow> u32 \<Rightarrow> frame" where
  "frame_window_update sid credit = frame_new (header_window_update sid credit)"

definition frame_ping :: "u32 \<Rightarrow> frame" where
  "frame_ping pid = frame_new (hdr_syn (header_ping pid))"

definition frame_ping_id :: "frame \<Rightarrow> u32" where
  "frame_ping_id f = hdr_ping_id (fr_header f)"

definition frame_term :: frame where
  "frame_term = frame_new header_term"

definition frame_protocol_error :: frame where
  "frame_protocol_error = frame_new header_protocol_error"

definition frame_internal_error :: frame where
  "frame_internal_error = frame_new header_internal_error"

text \<open>
  Frames that can be on the wire: the version is 0, and the length field of a data frame is the
  length of its body while other frames have none.
\<close>

definition frame_ok :: "frame \<Rightarrow> bool" where
  "frame_ok f \<longleftrightarrow> hdr_version (fr_header f) = 0 \<and>
     (if hdr_tag (fr_header f) = Data
      then length (fr_body f) = unat (hdr_length (fr_header f)) else fr_body f = [])"

lemmas header_ctor_defs =
  header_data_def header_window_update_def header_ping_def header_go_away_def header_term_def
  header_protocol_error_def header_internal_error_def
  hdr_syn_def hdr_ack_def hdr_fin_def hdr_rst_def

lemmas frame_ctor_defs =
  frame_new_def frame_close_stream_def frame_window_update_def frame_ping_def frame_term_def
  frame_protocol_error_def frame_internal_error_def

lemma hdr_flag_setters [simp]:
  "hdr_version (hdr_syn h) = hdr_version h" "hdr_tag (hdr_syn h) = hdr_tag h"
  "hdr_stream_id (hdr_syn h) = hdr_stream_id h" "hdr_length (hdr_syn h) = hdr_length h"
  "hdr_version (hdr_ack h) = hdr_version h" "hdr_tag (hdr_ack h) = hdr_tag h"
  "hdr_stream_id (hdr_ack h) = hdr_stream_id h" "hdr_length (hdr_ack h) = hdr_length h"
  "hdr_version (hdr_fin h) = hdr_version h" "hdr_tag (hdr_fin h) = hdr_tag h"
  "hdr_stream_id (hdr_fin h) = hdr_stream_id h" "hdr_length (hdr_fin h) = hdr_length h"
  "hdr_version (hdr_rst h) = hdr_version h" "hdr_tag (hdr_rst h) = hdr_tag h"
  "hdr_stream_id (hdr_rst h) = hdr_stream_id h" "hdr_length (hdr_rst h) = hdr_length h"
  by (simp_all add: hdr_syn_def hdr_ack_def hdr_fin_def hdr_rst_def)

lemma frame_into_simps [simp]:
  "hdr_tag (fr_header f) = Data \<Longrightarrow> frame_into_data f = Some f"
  "hdr_tag (fr_header f) = WindowUpdate \<Longrightarrow> frame_into_window_update f = Some f"
  "hdr_tag (fr_header f) = Ping \<Longrightarrow> frame_into_ping f = Some f"
  by (simp_all add: frame_into_data_def frame_into_window_update_def frame_into_ping_def
      hdr_into_data_def hdr_into_window_update_def hdr_into_ping_def)

lemma frame_data_Some:
  "length b < 2 ^ 32 \<Longrightarrow>
     frame_data sid b = Some \<lparr>fr_header = header_data sid (of_nat (length b)), fr_body = b\<rparr>"
  by (simp add: frame_data_def u32_try_from_def)

lemma unat_frame_body_len: "length (fr_body f) < 2 ^ 32 \<Longrightarrow> unat (frame_body_len f) = length (fr_body f)"
  by (simp add: frame_body_len_def unat_of_nat take_bit_nat_eq_self)

lemma frame_ok_ctors:
  "frame_ok (frame_close_stream sid ack)" "frame_ok (frame_window_update sid credit)"
  "frame_ok (frame_ping pid)" "frame_ok frame_term" "frame_ok frame_protocol_error"
  "frame_ok frame_internal_error"
  "frame_data sid b = Some f \<Longrightarrow> frame_ok f"
  by (auto simp: frame_ok_def frame_ctor_defs header_ctor_defs Let_def frame_data_def
      u32_try_from_def unat_of_nat take_bit_nat_eq_self split: if_splits)

text \<open>
  C25: Every frame the constructors build is well formed, so its length field describes its body;
  in particular \<open>Frame::data\<close> either reports a body beyond \<open>u32::MAX\<close> or builds a header whose
  length is exactly the body's.
\<close>

theorem frame_constructors_ok:
  "frame_ok (frame_close_stream sid ack) \<and> frame_ok (frame_window_update sid credit)
   \<and> frame_ok (frame_ping pid) \<and> frame_ok frame_term \<and> frame_ok frame_protocol_error
   \<and> frame_ok frame_internal_error
   \<and> (case frame_data sid b of
        None \<Rightarrow> 2 ^ 32 \<le> length b
      | Some f \<Rightarrow> frame_ok f \<and> fr_body f = b \<and> unat (frame_body_len f) = length b
          \<and> hdr_stream_id (fr_header f) = sid \<and> hdr_flags (fr_header f) = 0)"
proof -
  have "case frame_data sid b of
        None \<Rightarrow> 2 ^ 32 \<le> length b
      | Some f \<Rightarrow> frame_ok f \<and> fr_body f = b \<and> unat (frame_body_len f) = length b
          \<and> hdr_stream_id (fr_header f) = sid \<and> hdr_flags (fr_header f) = 0"
  proof (cases "length b < 2 ^ 32")
    case True
    then show ?thesis
      using frame_ok_ctors(7) [OF frame_data_Some [OF True]]
      by (simp add: frame_data_Some unat_frame_body_len header_data_def)
  next
    case False
    then show ?thesis by (simp add: frame_data_def u32_try_from_def)
  qed
  then show ?thesis by (simp add: frame_ok_ctors)
qed

end
