(* ===== verification/Rtt_Meter.thy ===== *)
theory Rtt_Meter
  imports Frames
begin

text \<open>
  Round-trip time measurement (\<^verbatim>\<open>yamux/src/connection/rtt.rs\<close>). \<open>Rtt\<close> is a handle to a shared
  cell; the model is the cell's content, threaded through the operations. The arguments \<open>t1\<close> and
  \<open>t2\<close> are the successive readings of the clock that the operation makes.
\<close>

text \<open>
  \<open>Action\<close> of \<^verbatim>\<open>connection.rs\<close>, what handling a frame asks for; \<open>'s\<close> is the type of streams.
\<close>

datatype 's action =
  ActNone
| ActNew 's
| ActPing frame
| ActTerminate frame

datatype rtt_state =
  AwaitingPong (sent_at: instant) (ping_id: u32)
| Waiting (next_at: instant)

record rtt =
  rtt_state :: rtt_state
  rtt_value :: "duration option"
  rtt_next_id :: u32

definition PING_INTERVAL :: duration where
  "PING_INTERVAL = 10 * 1000000000"

definition rtt_new :: "instant \<Rightarrow> rtt" where
  "rtt_new now = \<lparr>rtt_state = Waiting now, rtt_value = None, rtt_next_id = 0\<rparr>"

text \<open>\<open>fetch_add\<close> returns the old value and wraps around.\<close>

definition next_ping :: "instant \<Rightarrow> instant \<Rightarrow> rtt \<Rightarrow> frame option \<times> rtt" where
  "next_ping t1 t2 r =
     (let due = (case rtt_state r of AwaitingPong _ _ \<Rightarrow> False | Waiting next \<Rightarrow> \<not> t1 < next)
      in if \<not> due then (None, r)
         else let pid = rtt_next_id r
              in (Some (frame_ping pid),
                  r\<lparr>rtt_next_id := pid + 1, rtt_state := AwaitingPong t2 pid\<rparr>))"

definition handle_pong :: "instant \<Rightarrow> instant \<Rightarrow> u32 \<Rightarrow> rtt \<Rightarrow> 's action \<times> rtt" where
  "handle_pong t1 t2 received_id r =
     (case rtt_state r of
        Waiting _ \<Rightarrow> (ActTerminate frame_protocol_error, r)
      | AwaitingPong sent expected_id \<Rightarrow>
          if received_id \<noteq> expected_id then (ActTerminate frame_protocol_error, r)
          else (ActNone, r\<lparr>rtt_value := Some (elapsed t1 sent), rtt_state := Waiting (t2 + PING_INTERVAL)\<rparr>))"

definition rtt_get :: "rtt \<Rightarrow> duration option" where
  "rtt_get r = rtt_value r"

subsection \<open>Runs\<close>

text \<open>
  The two ways the connection touches the cell: it asks for a ping to send, or hands in a received
  pong. A run yields the ids of the pings sent and the ids of the pongs accepted, in order.
\<close>

datatype rtt_event = AskPing instant instant | GotPong instant instant u32

fun rtt_run :: "rtt_event list \<Rightarrow> rtt \<Rightarrow> u32 list \<times> u32 list \<times> rtt" where
  "rtt_run [] r = ([], [], r)"
| "rtt_run (AskPing t1 t2 # es) r =
     (case next_ping t1 t2 r of (p, r) \<Rightarrow>
        (case rtt_run es r of (ps, qs, r) \<Rightarrow>
           ((case p of None \<Rightarrow> ps | Some f \<Rightarrow> frame_ping_id f # ps), qs, r)))"
| "rtt_run (GotPong t1 t2 pid # es) r =
     (case (handle_pong t1 t2 pid r :: unit action \<times> rtt) of (a, r) \<Rightarrow>
        (case rtt_run es r of (ps, qs, r) \<Rightarrow>
           (ps, (case a of ActNone \<Rightarrow> pid # qs | _ \<Rightarrow> qs), r)))"

text \<open>The id of the ping in flight, if any.\<close>

definition in_flight :: "rtt \<Rightarrow> u32 list" where
  "in_flight r = (case rtt_state r of AwaitingPong _ i \<Rightarrow> [i] | Waiting _ \<Rightarrow> [])"

lemma frame_ping_id_ping [simp]: "frame_ping_id (frame_ping i) = i"
  by (simp add: frame_ping_id_def frame_ping_def frame_new_def hdr_ping_id_def header_ping_def)

lemma next_ping_cases:
  obtains "next_ping t1 t2 r = (None, r)"
  | n where "rtt_state r = Waiting n" "n \<le> t1"
      "next_ping t1 t2 r = (Some (frame_ping (rtt_next_id r)),
         r\<lparr>rtt_next_id := rtt_next_id r + 1, rtt_state := AwaitingPong t2 (rtt_next_id r)\<rparr>)"
  by (cases "rtt_state r"; cases "t1 < next_at (rtt_state r)") (auto simp: next_ping_def Let_def)

lemma handle_pong_cases:
  obtains s where "rtt_state r = AwaitingPong s i"
      "(handle_pong t1 t2 i r :: 's action \<times> rtt)
         = (ActNone, r\<lparr>rtt_value := Some (elapsed t1 s), rtt_state := Waiting (t2 + PING_INTERVAL)\<rparr>)"
  | "(handle_pong t1 t2 i r :: 's action \<times> rtt) = (ActTerminate frame_protocol_error, r)"
  by (cases "rtt_state r"; cases "i = ping_id (rtt_state r)") (auto simp: handle_pong_def)

lemma rtt_run_conserves:
  assumes "rtt_run es r = (ps, qs, r')"
  shows "in_flight r @ ps = qs @ in_flight r'
    \<and> ps = map (\<lambda>i. rtt_next_id r + of_nat i) [0..<length ps]"
  using assms
proof (induction es arbitrary: r ps qs r')
  case Nil
  then show ?case by simp
next
  case (Cons e es)
  show ?case
  proof (cases e)
    case (AskPing t1 t2)
    show ?thesis
    proof (cases rule: next_ping_cases [of t1 t2 r])
      case 1
      with Cons AskPing show ?thesis by (auto split: prod.splits)
    next
      case (2 n)
      let ?r = "r\<lparr>rtt_next_id := rtt_next_id r + 1, rtt_state := AwaitingPong t2 (rtt_next_id r)\<rparr>"
      obtain ps1 qs1 where run: "rtt_run es ?r = (ps1, qs1, r')" "ps = rtt_next_id r # ps1" "qs = qs1"
        using Cons.prems AskPing 2 by (auto split: prod.splits)
      from Cons.IH [OF run(1)] have fl: "rtt_next_id r # ps1 = qs1 @ in_flight r'"
        and ids: "ps1 = map (\<lambda>i. rtt_next_id r + of_nat (Suc i)) [0..<length ps1]"
        by (simp_all add: in_flight_def add.assoc)
      have "rtt_next_id r # ps1
          = map (\<lambda>i. rtt_next_id r + of_nat i) [0..<length (rtt_next_id r # ps1)]"
        by (subst ids) (simp add: map_upt_Suc del: upt_Suc of_nat_Suc)
      then show ?thesis
        using run(2,3) 2(1) fl by (simp add: in_flight_def del: upt_Suc)
    qed
  next
    case (GotPong t1 t2 i)
    show ?thesis
    proof (cases rule: handle_pong_cases [where 's = unit, of r i t1 t2])
      case (1 s)
      let ?r = "r\<lparr>rtt_value := Some (elapsed t1 s), rtt_state := Waiting (t2 + PING_INTERVAL)\<rparr>"
      from 1 obtain qs1 where run: "rtt_run es ?r = (ps, qs1, r')" "qs = i # qs1"
        using Cons.prems GotPong by (auto split: prod.splits)
      from Cons.IH [OF run(1)] run(2) 1(1) show ?thesis
        by (auto simp: in_flight_def)
    next
      case 2
      then show ?thesis
        using Cons GotPong by (auto split: prod.splits)
    qed
  qed
qed

text \<open>
  C28: In every run of the meter from its initial state, whatever pongs the remote sends, the pings
  go out with the consecutive ids 0, 1, 2, \<open>\<dots>\<close> (modulo \<open>2 ^ 32\<close>), the pongs accepted answer
  exactly these pings in order, and at most one ping is unanswered at any time.
\<close>

theorem rtt_ping_pong:
  assumes "rtt_run es (rtt_new now) = (ps, qs, r)"
  shows "ps = map of_nat [0..<length ps] \<and> ps = qs @ in_flight r \<and> length ps \<le> length qs + 1"
proof -
  from rtt_run_conserves [OF assms] have "ps = map of_nat [0..<length ps]" "ps = qs @ in_flight r"
    by (auto simp: rtt_new_def in_flight_def)
  moreover have "length (in_flight r) \<le> 1"
    by (simp add: in_flight_def split: rtt_state.splits)
  ultimately show ?thesis
    by (metis add_le_mono length_append order_refl)
qed

theorem rtt_ping_pong_witness:
  "let es = [AskPing 5 6, GotPong 7 8 3, GotPong 9 10 0, AskPing 11 12, AskPing 20000000000 20000000001]
   in \<exists>r. rtt_run es (rtt_new 0) = ([0, 1], [0], r) \<and> [0, 1] = [0] @ in_flight r"
proof -
  let ?es = "[AskPing 5 6, GotPong 7 8 3, GotPong 9 10 0, AskPing 11 12,
    AskPing 20000000000 20000000001]"
  obtain r where "rtt_run ?es (rtt_new 0) = ([0, 1], [0], r)"
    by (simp add: rtt_new_def next_ping_def handle_pong_def PING_INTERVAL_def Let_def)
  then show ?thesis
    using rtt_ping_pong [of ?es 0 "[0, 1]" "[0]" r] by (simp add: Let_def)
qed

end
