(* ===== verification/Flow_Control.thy ===== *)
theory Flow_Control
  imports Rtt_Meter
begin

text \<open>
  Per-stream flow control (\<^verbatim>\<open>yamux/src/connection/stream/flow_control.rs\<close>). The cells a
  \<open>FlowController\<close> shares with the connection are passed in and out: \<open>acc\<close> is the content of
  \<open>accumulated_max_stream_windows\<close> and \<open>rtt\<close> what \<open>Rtt::get\<close> returns. \<open>t1\<close> and \<open>t2\<close> are the two
  readings of the clock that matter (\<open>elapsed\<close> in the condition, \<open>Instant::now\<close> at the end); the
  ones in log lines are left out. Debug assertions are on.
\<close>

record flow_controller =
  fc_config :: config
  fc_last_window_update :: instant
  fc_receive_window :: u32
  fc_max_receive_window :: u32
  fc_send_window :: u32

definition fc_new :: "u32 \<Rightarrow> u32 \<Rightarrow> config \<Rightarrow> instant \<Rightarrow> flow_controller" where
  "fc_new receive_window send_window cfg now =
     \<lparr>fc_config = cfg, fc_last_window_update = now, fc_receive_window = receive_window,
      fc_max_receive_window = DEFAULT_CREDIT, fc_send_window = send_window\<rparr>"

text \<open>\<open>unwrap_or(usize::MAX) - max_num_streams * DEFAULT_CREDIT\<close>\<close>

definition spare_window :: "config \<Rightarrow> usize run" where
  "spare_window cfg = do {
     need \<leftarrow> umul (max_num_streams cfg) (unat DEFAULT_CREDIT);
     usub (window_limit cfg) need }"

definition assert_invariants ::
    "usize \<Rightarrow> duration option \<Rightarrow> usize \<Rightarrow> flow_controller \<Rightarrow> unit run" where
  "assert_invariants buffer_len rtt acc fc = do {
     _ \<leftarrow> assert_that (buffer_len \<le> unat (fc_max_receive_window fc));
     _ \<leftarrow> assert_that (fc_receive_window fc \<le> fc_max_receive_window fc);
     extra \<leftarrow> checked_sub (fc_max_receive_window fc) DEFAULT_CREDIT;
     room \<leftarrow> spare_window (fc_config fc);
     _ \<leftarrow> assert_that (unat extra \<le> room);
     _ \<leftarrow> assert_that (unat extra \<le> acc);
     assert_that (rtt = None \<longrightarrow> fc_max_receive_window fc = DEFAULT_CREDIT) }"

text \<open>The bytes received and read so far that have not been granted again.\<close>

definition window_deficit :: "u32 \<Rightarrow> u32 \<Rightarrow> usize \<Rightarrow> u32 run" where
  "window_deficit max_rw rw buffer_len = do {
     bytes_received \<leftarrow> checked_sub max_rw rw;
     Some (saturating_sub bytes_received (u32_of_usize_or_max buffer_len)) }"

text \<open>Auto-tuning: the new maximum and the new content of the connection's counter.\<close>

definition grow_window :: "usize \<Rightarrow> flow_controller \<Rightarrow> (u32 \<times> usize) run" where
  "grow_window acc fc = do {
     let new_max = saturating_mul (fc_max_receive_window fc) 2;
     room \<leftarrow> spare_window (fc_config fc);
     free \<leftarrow> usub room acc;
     connection_limit \<leftarrow> uadd (unat (fc_max_receive_window fc)) free;
     let new_max = min new_max (u32_of_usize_or_max connection_limit);
     growth \<leftarrow> checked_sub new_max (fc_max_receive_window fc);
     acc \<leftarrow> uadd acc (unat growth);
     Some (new_max, acc) }"

definition within_two_rtt :: "instant \<Rightarrow> duration option \<Rightarrow> flow_controller \<Rightarrow> bool run" where
  "within_two_rtt t1 rtt fc =
     (case rtt of
        Some d \<Rightarrow> do { two \<leftarrow> dmul d 2; Some (elapsed t1 (fc_last_window_update fc) < two) }
      | None \<Rightarrow> Some False)"

definition fc_next_window_update ::
    "instant \<Rightarrow> instant \<Rightarrow> duration option \<Rightarrow> usize \<Rightarrow> usize \<Rightarrow> flow_controller \<Rightarrow>
       (u32 option \<times> usize \<times> flow_controller) run" where
  "fc_next_window_update t1 t2 rtt acc buffer_len fc = do {
     _ \<leftarrow> assert_invariants buffer_len rtt acc fc;
     nwu \<leftarrow> window_deficit (fc_max_receive_window fc) (fc_receive_window fc) buffer_len;
     if nwu < fc_max_receive_window fc div 2 then Some (None, acc, fc)
     else do {
       fast \<leftarrow> within_two_rtt t1 rtt fc;
       (nwu, acc, fc) \<leftarrow>
         (if fast then do {
            (new_max, acc) \<leftarrow> grow_window acc fc;
            nwu \<leftarrow> window_deficit new_max (fc_receive_window fc) buffer_len;
            Some (nwu, acc, fc\<lparr>fc_max_receive_window := new_max\<rparr>) }
          else Some (nwu, acc, fc));
       rw \<leftarrow> checked_add (fc_receive_window fc) nwu;
       let fc = fc\<lparr>fc_last_window_update := t2, fc_receive_window := rw\<rparr>;
       _ \<leftarrow> assert_invariants buffer_len rtt acc fc;
       Some (Some nwu, acc, fc) } }"

text \<open>On an error the controller is unchanged.\<close>

definition fc_consume_send_window ::
    "u32 \<Rightarrow> flow_controller \<Rightarrow> (flow_controller, connection_error) result" where
  "fc_consume_send_window i fc =
     (case checked_sub (fc_send_window fc) i of
        Some w \<Rightarrow> Ok (fc\<lparr>fc_send_window := w\<rparr>) | None \<Rightarrow> Err InvalidWindowUpdate)"

definition fc_increase_send_window_by ::
    "u32 \<Rightarrow> flow_controller \<Rightarrow> (flow_controller, connection_error) result" where
  "fc_increase_send_window_by i fc =
     (case checked_add (fc_send_window fc) i of
        Some w \<Rightarrow> Ok (fc\<lparr>fc_send_window := w\<rparr>) | None \<Rightarrow> Err InvalidWindowUpdate)"

definition fc_consume_receive_window ::
    "u32 \<Rightarrow> flow_controller \<Rightarrow> (flow_controller, connection_error) result" where
  "fc_consume_receive_window i fc =
     (case checked_sub (fc_receive_window fc) i of
        Some w \<Rightarrow> Ok (fc\<lparr>fc_receive_window := w\<rparr>) | None \<Rightarrow> Err InvalidWindowUpdate)"

text \<open>\<open>Drop\<close>: gives what was accounted for this stream back to the connection.\<close>

definition fc_drop :: "flow_controller \<Rightarrow> usize \<Rightarrow> usize run" where
  "fc_drop fc acc = do {
     extra \<leftarrow> checked_sub (fc_max_receive_window fc) DEFAULT_CREDIT;
     _ \<leftarrow> assert_that (unat extra \<le> acc);
     usub acc (unat extra) }"

subsection \<open>Invariant\<close>

text \<open>The window of this stream beyond the default, as counted in \<open>acc\<close>.\<close>

definition fc_extra :: "flow_controller \<Rightarrow> nat" where
  "fc_extra fc = unat (fc_max_receive_window fc) - unat DEFAULT_CREDIT"

text \<open>
  The connection's side: the configuration is sound, streams are allowed at all, and the counter
  leaves the default window of every stream untouched.
\<close>

definition acc_ok :: "config \<Rightarrow> usize \<Rightarrow> bool" where
  "acc_ok cfg acc \<longleftrightarrow> config_ok cfg \<and> 0 < max_num_streams cfg
     \<and> max_num_streams cfg * unat DEFAULT_CREDIT + acc \<le> window_limit cfg"

text \<open>The stream's side: what may still arrive and what is buffered fit the maximum window.\<close>

definition fc_ok :: "duration option \<Rightarrow> nat \<Rightarrow> flow_controller \<Rightarrow> bool" where
  "fc_ok rtt buffer_len fc \<longleftrightarrow>
     unat (fc_receive_window fc) + buffer_len \<le> unat (fc_max_receive_window fc)
     \<and> unat DEFAULT_CREDIT \<le> unat (fc_max_receive_window fc)
     \<and> (rtt = None \<longrightarrow> fc_max_receive_window fc = DEFAULT_CREDIT)"

lemma spare_window_ok:
  "config_ok cfg \<Longrightarrow> spare_window cfg = Some (window_limit cfg - max_num_streams cfg * 262144)"
  by (auto simp: spare_window_def config_ok_def umul_def usub_def)

lemma assert_invariants_ok:
  assumes "acc_ok (fc_config fc) acc" and "fc_ok rtt n fc" and "fc_extra fc \<le> acc"
  shows "assert_invariants n rtt acc fc = Some ()"
proof -
  obtain extra where x: "checked_sub (fc_max_receive_window fc) DEFAULT_CREDIT = Some extra"
    using assms(2) by (cases "checked_sub (fc_max_receive_window fc) DEFAULT_CREDIT")
      (auto simp: fc_ok_def unat_simps)
  then have "unat extra = fc_extra fc"
    by (simp add: unat_simps fc_extra_def)
  with x assms show ?thesis
    by (auto simp: assert_invariants_def assert_that_def acc_ok_def spare_window_ok fc_ok_def
        word_le_nat_alt)
qed

lemma window_deficit_ok:
  assumes "unat rw + n \<le> unat max_rw"
  shows "\<exists>d. window_deficit max_rw rw n = Some d \<and> unat d = unat max_rw - unat rw - n"
proof -
  have "n < 2 ^ 32" "unat rw \<le> unat max_rw"
    using assms unat_u32_bound [of max_rw] by linarith+
  then obtain b where "checked_sub max_rw rw = Some b" "unat b = unat max_rw - unat rw"
    by (cases "checked_sub max_rw rw") (auto simp: unat_simps)
  with \<open>n < 2 ^ 32\<close> show ?thesis
    by (simp add: window_deficit_def unat_saturating_sub unat_u32_of_usize_or_max min_def)
qed

lemma grow_window_ok:
  assumes "acc_ok (fc_config fc) acc" and "unat DEFAULT_CREDIT \<le> unat (fc_max_receive_window fc)"
    and "fc_extra fc \<le> acc"
  shows "\<exists>m acc'. grow_window acc fc = Some (m, acc')
    \<and> unat (fc_max_receive_window fc) \<le> unat m \<and> unat m \<le> 2 * unat (fc_max_receive_window fc)
    \<and> acc' = acc + (unat m - unat (fc_max_receive_window fc)) \<and> acc_ok (fc_config fc) acc'"
proof -
  let ?m = "fc_max_receive_window fc"
  let ?need = "max_num_streams (fc_config fc) * 262144"
  define room where "room = window_limit (fc_config fc) - ?need"
  define free where "free = room - acc"
  define m where "m = min (saturating_mul ?m 2) (u32_of_usize_or_max (unat ?m + free))"
  have cfg: "config_ok (fc_config fc)" "1 \<le> max_num_streams (fc_config fc)"
    and room: "?need + room = window_limit (fc_config fc)" "acc + free = room"
    and lim: "window_limit (fc_config fc) < 2 ^ 64"
    using assms(1) by (auto simp: acc_ok_def config_ok_def room_def free_def)
  have "unat ?m \<le> ?need + acc"
    using assms(2,3) cfg(2) by (simp add: fc_extra_def)
  then have sum: "unat ?m + free < 2 ^ 64"
    using room lim by linarith
  have um: "unat m = min (min (unat ?m * 2) (2 ^ 32 - 1)) (min (unat ?m + free) (2 ^ 32 - 1))"
    by (simp add: m_def min_def word_le_nat_alt unat_simps)
  have bounds: "unat ?m \<le> unat m" "unat m \<le> 2 * unat ?m" "unat m - unat ?m \<le> free"
    using um unat_u32_bound [of ?m] by (auto simp: min_def)
  then obtain g where g: "checked_sub m ?m = Some g" "unat g = unat m - unat ?m"
    by (cases "checked_sub m ?m") (auto simp: unat_simps)
  have "spare_window (fc_config fc) = Some room" "usub room acc = Some free"
    "uadd (unat ?m) free = Some (unat ?m + free)" "uadd acc (unat g) = Some (acc + unat g)"
    using cfg(1) room sum g(2) bounds(3) lim
    by (auto simp: spare_window_ok room_def usub_def uadd_def)
  with g(1) have "grow_window acc fc = Some (m, acc + unat g)"
    by (simp add: grow_window_def flip: m_def)
  moreover have "acc_ok (fc_config fc) (acc + unat g)"
    using assms(1) room g(2) bounds(3) by (simp add: acc_ok_def)
  ultimately show ?thesis
    using g(2) bounds by auto
qed

text \<open>What one call of \<open>next_window_update\<close> may do.\<close>

definition window_update_ok ::
    "nat \<Rightarrow> usize \<Rightarrow> flow_controller \<Rightarrow> u32 option \<Rightarrow> usize \<Rightarrow> flow_controller \<Rightarrow> bool" where
  "window_update_ok n acc fc upd acc' fc' \<longleftrightarrow>
     fc_config fc' = fc_config fc \<and> fc_send_window fc' = fc_send_window fc
     \<and> acc' + fc_extra fc = acc + fc_extra fc'
     \<and> unat (fc_max_receive_window fc) \<le> unat (fc_max_receive_window fc')
     \<and> unat (fc_max_receive_window fc') \<le> 2 * unat (fc_max_receive_window fc)
     \<and> (case upd of
          None \<Rightarrow> fc' = fc \<and> acc' = acc \<and>
            unat (fc_max_receive_window fc) - unat (fc_receive_window fc) - n
              < unat (fc_max_receive_window fc) div 2
        | Some c \<Rightarrow>
            unat (fc_receive_window fc') = unat (fc_receive_window fc) + unat c
            \<and> unat (fc_receive_window fc') + n = unat (fc_max_receive_window fc')
            \<and> unat (fc_max_receive_window fc) div 2 \<le> unat c)"

lemma within_two_rtt_ok:
  assumes "rtt_ok rtt"
  shows "\<exists>b. within_two_rtt t1 rtt fc = Some b \<and> (b \<longrightarrow> rtt \<noteq> None)"
  using assms by (cases rtt) (auto simp: within_two_rtt_def rtt_ok_def dmul_def)

lemma fc_next_window_update_grant:
  assumes "acc_ok (fc_config fc) acc" and "fc_ok rtt n fc" and "fc_extra fc \<le> acc"
    and fast: "within_two_rtt t1 rtt fc = Some fast" "fast \<longrightarrow> rtt \<noteq> None"
    and d: "unat (fc_max_receive_window fc) div 2
      \<le> unat (fc_max_receive_window fc) - unat (fc_receive_window fc) - n"
    and tuned: "(if fast then grow_window acc fc
      else Some (fc_max_receive_window fc, acc)) = Some (m, acc')"
  shows "\<exists>c fc'. fc_next_window_update t1 t2 rtt acc n fc = Some (Some c, acc', fc')
    \<and> window_update_ok n acc fc (Some c) acc' fc' \<and> fc_ok rtt n fc'
    \<and> acc_ok (fc_config fc') acc' \<and> fc_extra fc' \<le> acc'"
proof -
  let ?m = "fc_max_receive_window fc" and ?rw = "fc_receive_window fc"
  have len: "unat ?rw + n \<le> unat ?m" and low: "262144 \<le> unat ?m"
    using assms(2) by (auto simp: fc_ok_def)
  have m: "unat ?m \<le> unat m" "unat m \<le> 2 * unat ?m" "acc' = acc + (unat m - unat ?m)"
    "acc_ok (fc_config fc) acc'"
    using tuned assms(1,3) grow_window_ok [OF assms(1) _ assms(3)] low by (auto split: if_splits)
  obtain d0 where d0: "window_deficit ?m ?rw n = Some d0" "unat d0 = unat ?m - unat ?rw - n"
    using window_deficit_ok [OF len] by blast
  have "unat ?rw + n \<le> unat m"
    using len m(1) by simp
  then obtain c where c: "window_deficit m ?rw n = Some c" "unat c = unat m - unat ?rw - n"
    using window_deficit_ok by blast
  obtain rw' where rw': "checked_add ?rw c = Some rw'" "unat rw' = unat ?rw + unat c"
    using c(2) m(1) len unat_u32_bound [of m]
    by (cases "checked_add ?rw c") (auto simp: unat_simps)
  let ?fc' = "fc\<lparr>fc_max_receive_window := m, fc_last_window_update := t2, fc_receive_window := rw'\<rparr>"
  have "\<not> d0 < ?m div 2"
    using d d0(2) by (simp add: word_less_nat_alt unat_div)
  moreover have tune: "(if fast then do {
            (new_max, acc) \<leftarrow> grow_window acc fc;
            nwu \<leftarrow> window_deficit new_max ?rw n;
            Some (nwu, acc, fc\<lparr>fc_max_receive_window := new_max\<rparr>) }
          else Some (d0, acc, fc)) = Some (c, acc', fc\<lparr>fc_max_receive_window := m\<rparr>)"
    using tuned c(1) d0(1) by (auto split: if_splits)
  have ok': "fc_ok rtt n ?fc'" "fc_extra ?fc' \<le> acc'" "acc_ok (fc_config ?fc') acc'"
    "acc' + fc_extra fc = acc + fc_extra ?fc'"
    using assms(2,3) m rw'(2) c(2) len low tuned fast(2)
    by (auto simp: fc_ok_def fc_extra_def split: if_splits)
  ultimately have "fc_next_window_update t1 t2 rtt acc n fc = Some (Some c, acc', ?fc')"
    using d0(1) rw'(1) assert_invariants_ok [OF assms(1-3)] assert_invariants_ok [OF ok'(3,1,2)]
    by (simp add: fc_next_window_update_def fast(1) tune)
  moreover have "window_update_ok n acc fc (Some c) acc' ?fc'"
    using ok'(4) m rw'(2) c(2) d len by (simp add: window_update_ok_def)
  ultimately show ?thesis
    using ok' by blast
qed

lemma fc_next_window_update_ok:
  assumes "acc_ok (fc_config fc) acc" and "fc_ok rtt n fc" and "fc_extra fc \<le> acc" and "rtt_ok rtt"
  shows "\<exists>upd acc' fc'. fc_next_window_update t1 t2 rtt acc n fc = Some (upd, acc', fc')
    \<and> window_update_ok n acc fc upd acc' fc' \<and> fc_ok rtt n fc'
    \<and> acc_ok (fc_config fc') acc' \<and> fc_extra fc' \<le> acc'"
proof (cases "unat (fc_max_receive_window fc) div 2
    \<le> unat (fc_max_receive_window fc) - unat (fc_receive_window fc) - n")
  case True
  obtain fast where fast: "within_two_rtt t1 rtt fc = Some fast" "fast \<longrightarrow> rtt \<noteq> None"
    using within_two_rtt_ok [OF assms(4)] by blast
  obtain m acc' where "(if fast then grow_window acc fc
      else Some (fc_max_receive_window fc, acc)) = Some (m, acc')"
    using grow_window_ok [OF assms(1) _ assms(3)] assms(2) by (fastforce simp: fc_ok_def)
  from fc_next_window_update_grant [OF assms(1-3) fast True this] show ?thesis
    by blast
next
  case False
  have "unat (fc_receive_window fc) + n \<le> unat (fc_max_receive_window fc)"
    using assms(2) by (simp add: fc_ok_def)
  then obtain d where d: "window_deficit (fc_max_receive_window fc) (fc_receive_window fc) n = Some d"
    "unat d = unat (fc_max_receive_window fc) - unat (fc_receive_window fc) - n"
    using window_deficit_ok by blast
  with False have "d < fc_max_receive_window fc div 2"
    by (simp add: word_less_nat_alt unat_div)
  with d assert_invariants_ok [OF assms(1-3)] have
    "fc_next_window_update t1 t2 rtt acc n fc = Some (None, acc, fc)"
    by (simp add: fc_next_window_update_def)
  with False assms show ?thesis
    by (simp add: window_update_ok_def)
qed

subsection \<open>Windows as credit\<close>

text \<open>
  A window is a credit that consuming lowers by the amount consumed, or refuses to lower below
  zero. Both windows of a stream are one.
\<close>

locale credit_window =
  fixes available :: "'s \<Rightarrow> u32"
    and consume :: "u32 \<Rightarrow> 's \<Rightarrow> ('s, 'e) result"
  assumes consume_Ok: "consume i s = Ok s' \<Longrightarrow>
      unat i \<le> unat (available s) \<and> unat (available s') = unat (available s) - unat i"
    and consume_Err: "consume i s = Err e \<Longrightarrow> unat (available s) < unat i"
begin

fun consume_all :: "u32 list \<Rightarrow> 's \<Rightarrow> ('s, 'e) result" where
  "consume_all [] s = Ok s"
| "consume_all (i # is) s = (case consume i s of Ok s' \<Rightarrow> consume_all is s' | Err e \<Rightarrow> Err e)"

lemma consume_all_Ok:
  "consume_all is s = Ok s' \<Longrightarrow> sum_list (map unat is) \<le> unat (available s)
     \<and> unat (available s') = unat (available s) - sum_list (map unat is)"
proof (induction "is" arbitrary: s)
  case Nil
  then show ?case by simp
next
  case (Cons i "is")
  then obtain t where "consume i s = Ok t" "consume_all is t = Ok s'"
    by (auto split: result.splits)
  with Cons.IH [of t] consume_Ok [of i s t] show ?case by auto
qed

lemma consume_all_Err:
  "consume_all is s = Err e \<Longrightarrow> unat (available s) < sum_list (map unat is)"
proof (induction "is" arbitrary: s)
  case Nil
  then show ?case by simp
next
  case (Cons i "is")
  show ?case
  proof (cases "consume i s")
    case (Ok t)
    with Cons consume_Ok [OF Ok] show ?thesis by fastforce
  next
    case (Err e')
    with consume_Err [OF Err] show ?thesis by simp
  qed
qed

end

interpretation tx_window: credit_window fc_send_window fc_consume_send_window
  by unfold_locales
    (auto simp: fc_consume_send_window_def unat_simps split: option.splits)

interpretation rx_window: credit_window fc_receive_window fc_consume_receive_window
  by unfold_locales
    (auto simp: fc_consume_receive_window_def unat_simps split: option.splits)

lemma fc_increase_send_window_by_cases:
  "case fc_increase_send_window_by i fc of
     Ok fc' \<Rightarrow> unat (fc_send_window fc') = unat (fc_send_window fc) + unat i
       \<and> fc' = fc\<lparr>fc_send_window := fc_send_window fc'\<rparr>
   | Err e \<Rightarrow> e = InvalidWindowUpdate \<and> 2 ^ 32 \<le> unat (fc_send_window fc) + unat i"
  by (auto simp: fc_increase_send_window_by_def unat_simps split: option.splits)

lemma fc_consume_receive_window_cases:
  "case fc_consume_receive_window i fc of
     Ok fc' \<Rightarrow> unat i \<le> unat (fc_receive_window fc)
       \<and> unat (fc_receive_window fc') = unat (fc_receive_window fc) - unat i
       \<and> fc' = fc\<lparr>fc_receive_window := fc_receive_window fc'\<rparr>
   | Err e \<Rightarrow> e = InvalidWindowUpdate \<and> unat (fc_receive_window fc) < unat i"
  by (auto simp: fc_consume_receive_window_def unat_simps split: option.splits)

lemma fc_consume_send_window_cases:
  "case fc_consume_send_window i fc of
     Ok fc' \<Rightarrow> unat i \<le> unat (fc_send_window fc)
       \<and> unat (fc_send_window fc') = unat (fc_send_window fc) - unat i
       \<and> fc' = fc\<lparr>fc_send_window := fc_send_window fc'\<rparr>
   | Err e \<Rightarrow> e = InvalidWindowUpdate \<and> unat (fc_send_window fc) < unat i"
  by (auto simp: fc_consume_send_window_def unat_simps split: option.splits)

lemma fc_drop_ok:
  assumes "unat DEFAULT_CREDIT \<le> unat (fc_max_receive_window fc)" and "fc_extra fc \<le> acc"
  shows "fc_drop fc acc = Some (acc - fc_extra fc)"
proof -
  obtain x where "checked_sub (fc_max_receive_window fc) DEFAULT_CREDIT = Some x" "unat x = fc_extra fc"
    using assms(1) by (cases "checked_sub (fc_max_receive_window fc) DEFAULT_CREDIT")
      (auto simp: unat_simps fc_extra_def)
  with assms(2) show ?thesis
    by (simp add: fc_drop_def usub_def)
qed

lemma fc_new_ok: "fc_ok rtt 0 (fc_new DEFAULT_CREDIT sw cfg now) \<and> fc_extra (fc_new rw sw cfg now) = 0"
  by (simp add: fc_ok_def fc_new_def fc_extra_def)

subsection \<open>Properties\<close>

text \<open>
  C17: With a sound configuration and a round-trip time that can be doubled (every measured one can),
  \<open>next_window_update\<close> never panics: nothing in it
  over- or underflows and none of its debug assertions fails. It grants nothing while less than
  half of the maximum window has been consumed and read; otherwise it grants at least half, so that
  what may still arrive plus what is buffered is again exactly the maximum. The maximum at most
  doubles, and the connection's counter grows by exactly what the maximum grows and stays within
  the configured limit.
\<close>

theorem next_window_update_safe:
  assumes "acc_ok (fc_config fc) acc" and "fc_ok rtt n fc" and "fc_extra fc \<le> acc" and "rtt_ok rtt"
  shows "\<exists>upd acc' fc'. fc_next_window_update t1 t2 rtt acc n fc = Some (upd, acc', fc')
    \<and> window_update_ok n acc fc upd acc' fc' \<and> fc_ok rtt n fc'
    \<and> acc_ok (fc_config fc') acc' \<and> fc_extra fc' \<le> acc'"
  using assms by (rule fc_next_window_update_ok)

theorem next_window_update_safe_witness:
  "let fc = (fc_new 100000 5 default_config 0)
   in acc_ok (fc_config fc) 0 \<and> fc_ok (Some 1000) 10 fc \<and>
      (\<exists>upd acc' fc'. fc_next_window_update 1500 1501 (Some 1000) 0 10 fc = Some (upd, acc', fc')
         \<and> window_update_ok 10 0 fc upd acc' fc')"
proof -
  let ?fc = "fc_new 100000 5 default_config 0"
  have a: "acc_ok (fc_config ?fc) 0"
    by (simp add: acc_ok_def fc_new_def config_ok_default)
      (simp add: default_config_def window_limit_def size_defs)
  have f: "fc_ok (Some 1000) 10 ?fc" and e: "fc_extra ?fc \<le> 0"
    by (simp_all add: fc_ok_def fc_new_def fc_extra_def)
  have r: "rtt_ok (Some 1000)"
    by (simp add: rtt_ok_def DURATION_MAX_def)
  from next_window_update_safe [OF a f e r, of 1500 1501] a f show ?thesis
    by (auto simp: Let_def)
qed

text \<open>
  C29: The windows are exact credit: a sequence of data frames is accepted on a receive window, and
  a sequence of writes on a send window, if and only if their total fits the window, which they
  lower by exactly that total; one that does not fit is refused with \<open>InvalidWindowUpdate\<close>, so a
  window is never exceeded and never wraps around.
\<close>

theorem windows_are_credit:
  "(case rx_window.consume_all is fc of
      Ok fc' \<Rightarrow> sum_list (map unat is) \<le> unat (fc_receive_window fc)
        \<and> unat (fc_receive_window fc') = unat (fc_receive_window fc) - sum_list (map unat is)
    | Err e \<Rightarrow> unat (fc_receive_window fc) < sum_list (map unat is))
   \<and> (case tx_window.consume_all is fc of
      Ok fc' \<Rightarrow> sum_list (map unat is) \<le> unat (fc_send_window fc)
        \<and> unat (fc_send_window fc') = unat (fc_send_window fc) - sum_list (map unat is)
    | Err e \<Rightarrow> unat (fc_send_window fc) < sum_list (map unat is))
   \<and> (case fc_increase_send_window_by i fc of
      Ok fc' \<Rightarrow> unat (fc_send_window fc') = unat (fc_send_window fc) + unat i
    | Err e \<Rightarrow> e = InvalidWindowUpdate \<and> 2 ^ 32 \<le> unat (fc_send_window fc) + unat i)"
  using fc_increase_send_window_by_cases [where i = i and fc = fc]
  by (auto split: result.splits
      dest: rx_window.consume_all_Ok rx_window.consume_all_Err
        tx_window.consume_all_Ok tx_window.consume_all_Err)

end
