(* ===== verification/Stream_State.thy ===== *)
theory Stream_State
  imports Chunk_Buffer Flow_Control
begin

text \<open>
  The state of a stream and the part of it that the connection and the stream's handle share
  (\<open>State\<close>, \<open>Flag\<close> and \<open>Shared\<close> of \<^verbatim>\<open>yamux/src/connection/stream.rs\<close>).
\<close>

datatype stream_state =
  Open (acknowledged: bool)
| SendClosed
| RecvClosed
| Closed

datatype flag = NoFlag | Syn | Ack

definition can_read :: "stream_state \<Rightarrow> bool" where
  "can_read s = (case s of RecvClosed \<Rightarrow> False | Closed \<Rightarrow> False | _ \<Rightarrow> True)"

definition can_write :: "stream_state \<Rightarrow> bool" where
  "can_write s = (case s of SendClosed \<Rightarrow> False | Closed \<Rightarrow> False | _ \<Rightarrow> True)"

text \<open>The table of \<open>update_state\<close>: from the current and the requested state to the new one.\<close>

fun next_state :: "stream_state \<Rightarrow> stream_state \<Rightarrow> stream_state" where
  "next_state Closed _ = Closed"
| "next_state (Open _) next = next"
| "next_state RecvClosed Closed = Closed"
| "next_state RecvClosed (Open _) = RecvClosed"
| "next_state RecvClosed RecvClosed = RecvClosed"
| "next_state RecvClosed SendClosed = Closed"
| "next_state SendClosed Closed = Closed"
| "next_state SendClosed (Open _) = SendClosed"
| "next_state SendClosed RecvClosed = Closed"
| "next_state SendClosed SendClosed = SendClosed"

record shared =
  sh_state :: stream_state
  sh_flow :: flow_controller
  sh_buffer :: chunks
  sh_reader :: "waker option"
  sh_writer :: "waker option"

definition shared_new :: "u32 \<Rightarrow> u32 \<Rightarrow> config \<Rightarrow> instant \<Rightarrow> shared" where
  "shared_new receive_window send_window cfg now =
     \<lparr>sh_state = Open False, sh_flow = fc_new receive_window send_window cfg now,
      sh_buffer = chunks_new, sh_reader = None, sh_writer = None\<rparr>"

text \<open>\<open>update_state\<close> returns the state before the update.\<close>

definition update_state :: "stream_state \<Rightarrow> shared \<Rightarrow> stream_state \<times> shared" where
  "update_state next sh = (sh_state sh, sh\<lparr>sh_state := next_state (sh_state sh) next\<rparr>)"

definition shared_next_window_update ::
    "instant \<Rightarrow> instant \<Rightarrow> duration option \<Rightarrow> usize \<Rightarrow> shared \<Rightarrow>
       (u32 option \<times> usize \<times> shared) run" where
  "shared_next_window_update t1 t2 rtt acc sh = do {
     n \<leftarrow> chunks_len (sh_buffer sh);
     (upd, acc, fc) \<leftarrow> fc_next_window_update t1 t2 rtt acc n (sh_flow sh);
     Some (upd, acc, sh\<lparr>sh_flow := fc\<rparr>) }"

definition is_pending_ack :: "shared \<Rightarrow> bool" where
  "is_pending_ack sh = (case sh_state sh of Open a \<Rightarrow> \<not> a | _ \<Rightarrow> False)"

definition send_window :: "shared \<Rightarrow> u32" where
  "send_window sh = fc_send_window (sh_flow sh)"

definition consume_send_window :: "u32 \<Rightarrow> shared \<Rightarrow> (shared, connection_error) result" where
  "consume_send_window i sh =
     (case fc_consume_send_window i (sh_flow sh) of
        Ok fc \<Rightarrow> Ok (sh\<lparr>sh_flow := fc\<rparr>) | Err e \<Rightarrow> Err e)"

definition increase_send_window_by :: "u32 \<Rightarrow> shared \<Rightarrow> (shared, connection_error) result" where
  "increase_send_window_by i sh =
     (case fc_increase_send_window_by i (sh_flow sh) of
        Ok fc \<Rightarrow> Ok (sh\<lparr>sh_flow := fc\<rparr>) | Err e \<Rightarrow> Err e)"

definition consume_receive_window :: "u32 \<Rightarrow> shared \<Rightarrow> (shared, connection_error) result" where
  "consume_receive_window i sh =
     (case fc_consume_receive_window i (sh_flow sh) of
        Ok fc \<Rightarrow> Ok (sh\<lparr>sh_flow := fc\<rparr>) | Err e \<Rightarrow> Err e)"

subsection \<open>The states as a lattice\<close>

text \<open>
  A stream is unacknowledged, then acknowledged, then closed in one direction, then closed: the
  order in which the code may move it. The two half-closed states are incomparable.
\<close>

instantiation stream_state :: "{semilattice_sup, order_bot}"
begin

fun less_eq_stream_state :: "stream_state \<Rightarrow> stream_state \<Rightarrow> bool" where
  "Open a \<le> Open b \<longleftrightarrow> (a \<longrightarrow> b)"
| "Open _ \<le> _ \<longleftrightarrow> True"
| "SendClosed \<le> t \<longleftrightarrow> t = SendClosed \<or> t = Closed"
| "RecvClosed \<le> t \<longleftrightarrow> t = RecvClosed \<or> t = Closed"
| "Closed \<le> t \<longleftrightarrow> t = Closed"

definition less_stream_state :: "stream_state \<Rightarrow> stream_state \<Rightarrow> bool" where
  "s < (t :: stream_state) \<longleftrightarrow> s \<le> t \<and> \<not> t \<le> s"

definition sup_stream_state :: "stream_state \<Rightarrow> stream_state \<Rightarrow> stream_state" where
  "sup s t = (if s \<le> t then t else if t \<le> s then s else Closed)"

definition bot_stream_state :: stream_state where
  "bot = Open False"

instance
proof
  fix x y z :: stream_state
  show "x < y \<longleftrightarrow> x \<le> y \<and> \<not> y \<le> x"
    by (simp add: less_stream_state_def)
  show "x \<le> x"
    by (cases x) auto
  show "x \<le> z" if "x \<le> y" "y \<le> z"
    using that by (cases x; cases y; cases z) auto
  show "x = y" if "x \<le> y" "y \<le> x"
    using that by (cases x; cases y) auto
  show "x \<le> sup x y" "y \<le> sup x y"
    by (cases x; cases y; simp add: sup_stream_state_def)+
  show "sup y z \<le> x" if "y \<le> x" "z \<le> x"
    using that by (cases x; cases y; cases z) (auto simp: sup_stream_state_def)
  show "bot \<le> x"
    by (cases x) (auto simp: bot_stream_state_def)
qed

end

lemma next_state_sup: "next \<noteq> Open False \<Longrightarrow> next_state s next = sup s next"
  by (cases s; cases "next") (auto simp: sup_stream_state_def)

lemma can_read_next_state: "can_read (next_state s t) \<longleftrightarrow> can_read s \<and> can_read t"
  by (cases s; cases t) (auto simp: can_read_def)

lemma can_write_next_state: "can_write (next_state s t) \<longleftrightarrow> can_write s \<and> can_write t"
  by (cases s; cases t) (auto simp: can_write_def)

lemma state_Closed_iff: "s = Closed \<longleftrightarrow> \<not> can_read s \<and> \<not> can_write s"
  by (cases s) (auto simp: can_read_def can_write_def)

text \<open>A sequence of \<open>update_state\<close> calls, by whichever side.\<close>

abbreviation update_states :: "stream_state list \<Rightarrow> shared \<Rightarrow> shared" where
  "update_states ns sh \<equiv> fold (\<lambda>n sh. snd (update_state n sh)) ns sh"

lemma sh_state_update_states: "sh_state (update_states ns sh) = fold (\<lambda>n s. next_state s n) ns (sh_state sh)"
  by (induction ns arbitrary: sh) (simp_all add: update_state_def)

lemma can_read_fold: "can_read (fold (\<lambda>n s. next_state s n) ns s) \<longleftrightarrow> can_read s \<and> (\<forall>n \<in> set ns. can_read n)"
  by (induction ns arbitrary: s) (auto simp: can_read_next_state)

lemma can_write_fold: "can_write (fold (\<lambda>n s. next_state s n) ns s) \<longleftrightarrow> can_write s \<and> (\<forall>n \<in> set ns. can_write n)"
  by (induction ns arbitrary: s) (auto simp: can_write_next_state)

lemma fold_next_state_sup:
  "Open False \<notin> set ns \<Longrightarrow> fold (\<lambda>n s. next_state s n) ns s = fold sup ns s"
proof (induction ns arbitrary: s)
  case (Cons n ns)
  then have "n \<noteq> Open False" by auto
  with Cons show ?case by (simp add: next_state_sup sup.commute)
qed simp

text \<open>
  C30: The state of a stream is the join of everything requested of it. Whatever the order and the
  repetition of the connection's and the handle's updates (acknowledge, half-close on either side,
  close), the result is the least upper bound of the starting state and the requested ones; a
  direction is open exactly if it was and no update closed it, and \<open>Closed\<close> is never left.
\<close>

theorem state_updates_are_joins:
  "(Open False \<notin> set ns \<longrightarrow>
      sh_state (update_states ns sh) = Sup_fin (set (sh_state sh # ns)))
   \<and> (can_read (sh_state (update_states ns sh)) \<longleftrightarrow>
        can_read (sh_state sh) \<and> (\<forall>n \<in> set ns. can_read n))
   \<and> (can_write (sh_state (update_states ns sh)) \<longleftrightarrow>
        can_write (sh_state sh) \<and> (\<forall>n \<in> set ns. can_write n))
   \<and> (sh_state sh = Closed \<longrightarrow> sh_state (update_states ns sh) = Closed)"
proof -
  have "sh_state (update_states ns sh) = Sup_fin (set (sh_state sh # ns))" if "Open False \<notin> set ns"
    unfolding sh_state_update_states fold_next_state_sup [OF that] Sup_fin.set_eq_fold ..
  moreover have "sh_state (update_states ns sh) = Closed" if "sh_state sh = Closed"
    using that
    by (simp add: state_Closed_iff sh_state_update_states can_read_fold can_write_fold)
  ultimately show ?thesis
    by (simp add: sh_state_update_states can_read_fold can_write_fold)
qed

theorem state_updates_are_joins_witness:
  "sh_state (update_states [Open True, RecvClosed, RecvClosed, SendClosed]
     (shared_new 1 2 default_config 0)) = Closed
   \<and> Sup_fin (set [Open False, Open True, RecvClosed, RecvClosed, SendClosed]) = Closed"
proof -
  let ?sh = "shared_new 1 2 default_config 0"
  let ?ns = "[Open True, RecvClosed, RecvClosed, SendClosed]"
  have "Open False \<notin> set ?ns" and s: "sh_state ?sh = Open False"
    by (simp_all add: shared_new_def)
  then have "sh_state (update_states ?ns ?sh) = Sup_fin (set (sh_state ?sh # ?ns))"
    using state_updates_are_joins [of ?ns ?sh] by blast
  moreover have "sh_state (update_states ?ns ?sh) = Closed"
    by (simp add: update_state_def shared_new_def)
  ultimately show ?thesis
    by (simp only: s)
qed

subsection \<open>Well-formed shared state\<close>

definition shared_ok :: "duration option \<Rightarrow> shared \<Rightarrow> bool" where
  "shared_ok rtt sh \<longleftrightarrow> chunks_ok (sh_buffer sh)
     \<and> fc_ok rtt (length (chunks_bytes (sh_buffer sh))) (sh_flow sh)"

text \<open>What this stream contributes to the connection's counter.\<close>

abbreviation sh_extra :: "shared \<Rightarrow> nat" where
  "sh_extra sh \<equiv> fc_extra (sh_flow sh)"

lemma shared_new_ok:
  "shared_ok rtt (shared_new DEFAULT_CREDIT sw cfg now)" "sh_extra (shared_new rw sw cfg now) = 0"
  "fc_config (sh_flow (shared_new rw sw cfg now)) = cfg"
  by (simp_all add: shared_ok_def shared_new_def fc_new_ok rx_buffer.new)
    (simp add: fc_new_def)

lemma shared_ok_simps [simp]:
  "shared_ok rtt (sh\<lparr>sh_state := s\<rparr>) = shared_ok rtt sh"
  "shared_ok rtt (sh\<lparr>sh_reader := w\<rparr>) = shared_ok rtt sh"
  "shared_ok rtt (sh\<lparr>sh_writer := w\<rparr>) = shared_ok rtt sh"
  by (simp_all add: shared_ok_def)

lemma buffer_bound: "shared_ok rtt sh \<Longrightarrow> length (chunks_bytes (sh_buffer sh)) < 2 ^ 32"
  using unat_u32_bound [of "fc_max_receive_window (sh_flow sh)"]
  by (auto simp: shared_ok_def fc_ok_def)

lemma fc_ok_rtt_mono: "fc_ok rtt n fc \<Longrightarrow> fc_ok (Some d) n fc"
  by (simp add: fc_ok_def)

lemma shared_ok_rtt_mono: "shared_ok rtt sh \<Longrightarrow> shared_ok (Some d) sh"
  by (auto simp: shared_ok_def intro: fc_ok_rtt_mono)

lemma shared_next_window_update_ok:
  assumes "acc_ok (fc_config (sh_flow sh)) acc" and "shared_ok rtt sh" and "sh_extra sh \<le> acc" and "rtt_ok rtt"
  shows "\<exists>upd acc' sh'. shared_next_window_update t1 t2 rtt acc sh = Some (upd, acc', sh')
    \<and> window_update_ok (length (chunks_bytes (sh_buffer sh))) acc (sh_flow sh) upd acc' (sh_flow sh')
    \<and> sh' = sh\<lparr>sh_flow := sh_flow sh'\<rparr> \<and> shared_ok rtt sh'
    \<and> acc_ok (fc_config (sh_flow sh')) acc' \<and> sh_extra sh' \<le> acc'"
proof -
  let ?n = "length (chunks_bytes (sh_buffer sh))"
  have b: "chunks_ok (sh_buffer sh)" and f: "fc_ok rtt ?n (sh_flow sh)"
    using assms(2) by (simp_all add: shared_ok_def)
  obtain upd acc' fc' where
    "fc_next_window_update t1 t2 rtt acc ?n (sh_flow sh) = Some (upd, acc', fc')"
    "window_update_ok ?n acc (sh_flow sh) upd acc' fc'" "fc_ok rtt ?n fc'"
    "acc_ok (fc_config fc') acc'" "fc_extra fc' \<le> acc'"
    using fc_next_window_update_ok [OF assms(1) f assms(3,4)] by blast
  with b show ?thesis
    by (intro exI [of _ upd] exI [of _ acc'] exI [of _ "sh\<lparr>sh_flow := fc'\<rparr>"])
      (simp add: shared_next_window_update_def rx_buffer.len shared_ok_def)
qed

end
