(* ===== verification/Stream_Handle.thy ===== *)
theory Stream_Handle
  imports Stream_State
begin

text \<open>
  The user's handle to a stream (\<open>Stream\<close> of \<^verbatim>\<open>yamux/src/connection/stream.rs\<close>): window updates,
  reading, writing, flushing and closing. The command channel to the connection is an
  \<open>mpsc\<close> channel of the \<open>futures\<close> crate, which is not part of the repository: it is the parameter
  \<open>'ch chan_ops\<close>, the operations on the state \<open>'ch\<close> of all channels of a connection, in which a
  \<open>sender\<close> names one sending handle.

  An operation runs on an \<open>'ch sctx\<close>: the handle, the shared state behind its mutex, the
  connection's window counter and the channels. \<open>cx\<close> is the waker of the polling task, \<open>rtt\<close> what
  \<open>Rtt::get\<close> returns, \<open>t1\<close> and \<open>t2\<close> the clock readings of \<open>next_window_update\<close>.
\<close>

datatype stream_command = SendFrame frame | CloseStream bool

type_synonym sender = nat

record 'ch chan_ops =
  ch_poll_ready :: "sender \<Rightarrow> waker \<Rightarrow> 'ch \<Rightarrow> (unit, unit) result poll \<times> 'ch"
  ch_start_send :: "sender \<Rightarrow> stream_command \<Rightarrow> 'ch \<Rightarrow> (unit, unit) result \<times> 'ch"
  ch_is_closed :: "sender \<Rightarrow> 'ch \<Rightarrow> bool"
  ch_poll_flush :: "sender \<Rightarrow> waker \<Rightarrow> 'ch \<Rightarrow> (unit, unit) result poll \<times> 'ch"

record stream =
  stm_id :: u32
  stm_config :: config
  stm_sender :: sender
  stm_window_update_sender :: sender
  stm_flag :: flag
  stm_shared :: nat

text \<open>\<open>stm_shared\<close> is the address of the \<open>Arc<Mutex<Shared>>\<close>.\<close>

record 'ch sctx =
  cx_stream :: stream
  cx_shared :: shared
  cx_acc :: usize
  cx_chan :: 'ch

definition add_flag :: "flag \<Rightarrow> frame \<Rightarrow> flag \<times> frame" where
  "add_flag fl f =
     (case fl of
        NoFlag \<Rightarrow> (NoFlag, f)
      | Syn \<Rightarrow> (NoFlag, f\<lparr>fr_header := hdr_syn (fr_header f)\<rparr>)
      | Ack \<Rightarrow> (NoFlag, f\<lparr>fr_header := hdr_ack (fr_header f)\<rparr>))"

definition is_write_closed :: "shared \<Rightarrow> bool" where
  "is_write_closed sh \<longleftrightarrow> sh_state sh = SendClosed"

definition is_closed :: "shared \<Rightarrow> bool" where
  "is_closed sh \<longleftrightarrow> sh_state sh = Closed"

text \<open>\<open>start_send\<close> of a command, its failure mapped to \<open>write_zero_err\<close>.\<close>

definition send_command ::
    "('ch, 'z) chan_ops_scheme \<Rightarrow> sender \<Rightarrow> stream_command \<Rightarrow> 'ch sctx \<Rightarrow> (unit, io_error) result \<times> 'ch sctx" where
  "send_command ops tx cmd s =
     (case ch_start_send ops tx cmd (cx_chan s) of
        (Ok _, ch) \<Rightarrow> (Ok (), s\<lparr>cx_chan := ch\<rparr>)
      | (Err _, ch) \<Rightarrow> (Err WriteZero, s\<lparr>cx_chan := ch\<rparr>))"

definition send_window_update ::
    "('ch, 'z) chan_ops_scheme \<Rightarrow> waker \<Rightarrow> instant \<Rightarrow> instant \<Rightarrow> duration option \<Rightarrow> 'ch sctx \<Rightarrow>
       ((unit, io_error) result poll \<times> 'ch sctx) run" where
  "send_window_update ops cx t1 t2 rtt s =
     (if \<not> can_read (sh_state (cx_shared s)) then Some (Ready (Ok ()), s)
      else
        case ch_poll_ready ops (stm_window_update_sender (cx_stream s)) cx (cx_chan s) of
          (Ready (Err _), ch) \<Rightarrow> Some (Ready (Err WriteZero), s\<lparr>cx_chan := ch\<rparr>)
        | (Pending, ch) \<Rightarrow> Some (Pending, s\<lparr>cx_chan := ch\<rparr>)
        | (Ready (Ok _), ch) \<Rightarrow> do {
            (credit, acc, sh) \<leftarrow> shared_next_window_update t1 t2 rtt (cx_acc s) (cx_shared s);
            let s = s\<lparr>cx_chan := ch, cx_acc := acc, cx_shared := sh\<rparr>;
            (case credit of
               None \<Rightarrow> Some (Ready (Ok ()), s)
             | Some credit \<Rightarrow>
                 (let (fl, f) = add_flag (stm_flag (cx_stream s))
                        (frame_window_update (stm_id (cx_stream s)) credit);
                      s = s\<lparr>cx_stream := (cx_stream s)\<lparr>stm_flag := fl\<rparr>\<rparr>;
                      (r, s) = send_command ops (stm_window_update_sender (cx_stream s)) (SendFrame f) s
                  in Some (Ready r, s))) })"

text \<open>\<open>!self.config.read_after_close && self.sender.is_closed()\<close>\<close>

definition no_read_after_close :: "('ch, 'z) chan_ops_scheme \<Rightarrow> 'ch sctx \<Rightarrow> bool" where
  "no_read_after_close ops s \<longleftrightarrow>
     \<not> read_after_close (stm_config (cx_stream s)) \<and> ch_is_closed ops (stm_sender (cx_stream s)) (cx_chan s)"

text \<open>\<open>futures::stream::Stream::poll_next\<close>: chunks as they arrived.\<close>

definition stream_poll_next ::
    "('ch, 'z) chan_ops_scheme \<Rightarrow> waker \<Rightarrow> instant \<Rightarrow> instant \<Rightarrow> duration option \<Rightarrow> 'ch sctx \<Rightarrow>
       ((bytes, io_error) result option poll \<times> 'ch sctx) run" where
  "stream_poll_next ops cx t1 t2 rtt s =
     (if no_read_after_close ops s then Some (Ready None, s)
      else do {
        (r, s) \<leftarrow> send_window_update ops cx t1 t2 rtt s;
        (case r of
           Ready (Err e) \<Rightarrow> Some (Ready (Some (Err e)), s)
         | _ \<Rightarrow> do {
             (c, buf) \<leftarrow> chunks_pop (sh_buffer (cx_shared s));
             let s = s\<lparr>cx_shared := (cx_shared s)\<lparr>sh_buffer := buf\<rparr>\<rparr>;
             (case c of
                Some c \<Rightarrow> do {
                  let off = chunk_offset c;
                  let vec = chunk_into_vec c;
                  _ \<leftarrow> assert_that (off \<le> length vec);
                  Some (Ready (Some (Ok (if off \<noteq> 0 then drop off vec else vec))), s) }
              | None \<Rightarrow>
                  if \<not> can_read (sh_state (cx_shared s)) then Some (Ready None, s)
                  else Some (Pending, s\<lparr>cx_shared := (cx_shared s)\<lparr>sh_reader := Some cx\<rparr>\<rparr>)) }) })"

text \<open>\<open>AsyncRead::poll_read\<close> with a buffer of \<open>m\<close> bytes: the bytes read.\<close>

definition stream_poll_read ::
    "('ch, 'z) chan_ops_scheme \<Rightarrow> waker \<Rightarrow> instant \<Rightarrow> instant \<Rightarrow> duration option \<Rightarrow> usize \<Rightarrow> 'ch sctx \<Rightarrow>
       ((bytes, io_error) result poll \<times> 'ch sctx) run" where
  "stream_poll_read ops cx t1 t2 rtt m s =
     (if no_read_after_close ops s then Some (Ready (Ok []), s)
      else do {
        (r, s) \<leftarrow> send_window_update ops cx t1 t2 rtt s;
        (case r of
           Ready (Err e) \<Rightarrow> Some (Ready (Err e), s)
         | _ \<Rightarrow> do {
             (got, buf) \<leftarrow> chunks_copy m (sh_buffer (cx_shared s));
             let s = s\<lparr>cx_shared := (cx_shared s)\<lparr>sh_buffer := buf\<rparr>\<rparr>;
             (if got \<noteq> [] then Some (Ready (Ok got), s)
              else if \<not> can_read (sh_state (cx_shared s)) then Some (Ready (Ok []), s)
              else Some (Pending, s\<lparr>cx_shared := (cx_shared s)\<lparr>sh_reader := Some cx\<rparr>\<rparr>)) }) })"

text \<open>\<open>AsyncWrite::poll_write\<close>: the number of bytes taken.\<close>

definition stream_poll_write ::
    "('ch, 'z) chan_ops_scheme \<Rightarrow> waker \<Rightarrow> bytes \<Rightarrow> 'ch sctx \<Rightarrow>
       ((usize, io_error) result poll \<times> 'ch sctx) run" where
  "stream_poll_write ops cx buf s =
     (case ch_poll_ready ops (stm_sender (cx_stream s)) cx (cx_chan s) of
        (Ready (Err _), ch) \<Rightarrow> Some (Ready (Err WriteZero), s\<lparr>cx_chan := ch\<rparr>)
      | (Pending, ch) \<Rightarrow> Some (Pending, s\<lparr>cx_chan := ch\<rparr>)
      | (Ready (Ok _), ch) \<Rightarrow>
          let s = s\<lparr>cx_chan := ch\<rparr>; sh = cx_shared s in
          if \<not> can_write (sh_state sh) then Some (Ready (Err WriteZero), s)
          else if send_window sh = 0 then
            Some (Pending, s\<lparr>cx_shared := sh\<lparr>sh_writer := Some cx\<rparr>\<rparr>)
          else
            let k = min (unat (send_window sh)) (length buf);
                k = min k (split_send_size (stm_config (cx_stream s))) in
            (case consume_send_window (of_nat k) sh of
               Err _ \<Rightarrow> None
             | Ok sh \<Rightarrow> do {
                 let body = take k buf;
                 f \<leftarrow> frame_data (stm_id (cx_stream s)) body;
                 let (fl, f) = add_flag (stm_flag (cx_stream s)) f;
                 let sh = (if flags_contains (hdr_flags (fr_header f)) ACK
                           then snd (update_state (Open True) sh) else sh);
                 let s = s\<lparr>cx_shared := sh, cx_stream := (cx_stream s)\<lparr>stm_flag := fl\<rparr>\<rparr>;
                 (case send_command ops (stm_sender (cx_stream s)) (SendFrame f) s of
                    (Err e, s) \<Rightarrow> Some (Ready (Err e), s)
                  | (Ok _, s) \<Rightarrow> Some (Ready (Ok (length body)), s)) }))"

definition stream_poll_flush ::
    "('ch, 'z) chan_ops_scheme \<Rightarrow> waker \<Rightarrow> 'ch sctx \<Rightarrow> (unit, io_error) result poll \<times> 'ch sctx" where
  "stream_poll_flush ops cx s =
     (case ch_poll_flush ops (stm_sender (cx_stream s)) cx (cx_chan s) of
        (Ready (Err _), ch) \<Rightarrow> (Ready (Err WriteZero), s\<lparr>cx_chan := ch\<rparr>)
      | (Ready (Ok _), ch) \<Rightarrow> (Ready (Ok ()), s\<lparr>cx_chan := ch\<rparr>)
      | (Pending, ch) \<Rightarrow> (Pending, s\<lparr>cx_chan := ch\<rparr>))"

definition stream_poll_close ::
    "('ch, 'z) chan_ops_scheme \<Rightarrow> waker \<Rightarrow> 'ch sctx \<Rightarrow> (unit, io_error) result poll \<times> 'ch sctx" where
  "stream_poll_close ops cx s =
     (if is_closed (cx_shared s) then (Ready (Ok ()), s)
      else
        case ch_poll_ready ops (stm_sender (cx_stream s)) cx (cx_chan s) of
          (Ready (Err _), ch) \<Rightarrow> (Ready (Err WriteZero), s\<lparr>cx_chan := ch\<rparr>)
        | (Pending, ch) \<Rightarrow> (Pending, s\<lparr>cx_chan := ch\<rparr>)
        | (Ready (Ok _), ch) \<Rightarrow>
            let s = s\<lparr>cx_chan := ch\<rparr>;
                ack = (stm_flag (cx_stream s) = Ack);
                s = (if ack then s\<lparr>cx_stream := (cx_stream s)\<lparr>stm_flag := NoFlag\<rparr>\<rparr> else s) in
            (case send_command ops (stm_sender (cx_stream s)) (CloseStream ack) s of
               (Err e, s) \<Rightarrow> (Ready (Err e), s)
             | (Ok _, s) \<Rightarrow>
                 (Ready (Ok ()), s\<lparr>cx_shared := snd (update_state SendClosed (cx_shared s))\<rparr>)))"

subsection \<open>Invariant\<close>

abbreviation cx_content :: "'ch sctx \<Rightarrow> bytes" where
  "cx_content s \<equiv> chunks_bytes (sh_buffer (cx_shared s))"

abbreviation cx_state :: "'ch sctx \<Rightarrow> stream_state" where
  "cx_state s \<equiv> sh_state (cx_shared s)"

definition ctx_ok :: "duration option \<Rightarrow> 'ch sctx \<Rightarrow> bool" where
  "ctx_ok rtt s \<longleftrightarrow> acc_ok (fc_config (sh_flow (cx_shared s))) (cx_acc s)
     \<and> shared_ok rtt (cx_shared s) \<and> sh_extra (cx_shared s) \<le> cx_acc s \<and> rtt_ok rtt"

text \<open>
  What every operation of a handle does to its context: the invariant is kept, the counter moves
  with the stream's own window, the state only moves up, and identity and configuration stay.
\<close>

definition ctx_step :: "duration option \<Rightarrow> 'ch sctx \<Rightarrow> 'ch sctx \<Rightarrow> bool" where
  "ctx_step rtt s s' \<longleftrightarrow> ctx_ok rtt s'
     \<and> cx_acc s' + sh_extra (cx_shared s) = cx_acc s + sh_extra (cx_shared s')
     \<and> fc_config (sh_flow (cx_shared s')) = fc_config (sh_flow (cx_shared s))
     \<and> cx_state s \<le> cx_state s'
     \<and> (\<exists>fl. cx_stream s' = (cx_stream s)\<lparr>stm_flag := fl\<rparr>)"

lemma send_command_fields [simp]:
  "cx_stream (snd (send_command ops tx cmd s)) = cx_stream s"
  "cx_shared (snd (send_command ops tx cmd s)) = cx_shared s"
  "cx_acc (snd (send_command ops tx cmd s)) = cx_acc s"
  by (simp_all add: send_command_def split: prod.splits result.splits)

lemma send_command_cases:
  assumes "send_command ops tx cmd s = (r, s')"
  shows "cx_stream s' = cx_stream s \<and> cx_shared s' = cx_shared s \<and> cx_acc s' = cx_acc s
    \<and> cx_chan s' = snd (ch_start_send ops tx cmd (cx_chan s))
    \<and> (case r of Ok _ \<Rightarrow> \<exists>u. fst (ch_start_send ops tx cmd (cx_chan s)) = Ok u
        | Err e \<Rightarrow> e = WriteZero \<and> (\<exists>x. fst (ch_start_send ops tx cmd (cx_chan s)) = Err x))"
  using assms by (auto simp: send_command_def split: prod.splits result.splits)

lemma add_flag_simps [simp]:
  "fst (add_flag fl f) = NoFlag"
  "fr_body (snd (add_flag fl f)) = fr_body f"
  "hdr_tag (fr_header (snd (add_flag fl f))) = hdr_tag (fr_header f)"
  "hdr_stream_id (fr_header (snd (add_flag fl f))) = hdr_stream_id (fr_header f)"
  "hdr_length (fr_header (snd (add_flag fl f))) = hdr_length (fr_header f)"
  "frame_ok (snd (add_flag fl f)) = frame_ok f"
  by (simp_all add: add_flag_def frame_ok_def split: flag.splits)

lemma add_flag_contains:
  assumes "hdr_flags (fr_header f) = 0" and "g \<in> {SYN, ACK, FIN, RST}"
  shows "flags_contains (hdr_flags (fr_header (snd (add_flag fl f)))) g \<longleftrightarrow>
     fl = Syn \<and> g = SYN \<or> fl = Ack \<and> g = ACK"
  using assms contains_flag_or [of SYN g 0] contains_flag_or [of ACK g 0] contains_zero [of g]
  by (cases fl) (auto simp: add_flag_def hdr_syn_def hdr_ack_def)

lemma send_window_update_ok:
  assumes "ctx_ok rtt s"
  shows "\<exists>r s'. send_window_update ops cx t1 t2 rtt s = Some (r, s') \<and> ctx_step rtt s s'
    \<and> sh_buffer (cx_shared s') = sh_buffer (cx_shared s) \<and> cx_state s' = cx_state s
    \<and> (\<forall>e. r = Ready (Err e) \<longrightarrow> e = WriteZero)"
proof (cases "can_read (cx_state s)")
  case False
  with assms show ?thesis
    by (auto simp: send_window_update_def ctx_step_def intro: exI [of _ "stm_flag (cx_stream s)"])
next
  case True
  obtain p ch where rdy:
    "ch_poll_ready ops (stm_window_update_sender (cx_stream s)) cx (cx_chan s) = (p, ch)"
    by fastforce
  from assms obtain upd acc' sh' where
    upd: "shared_next_window_update t1 t2 rtt (cx_acc s) (cx_shared s) = Some (upd, acc', sh')"
    and w: "window_update_ok (length (cx_content s)) (cx_acc s) (sh_flow (cx_shared s)) upd acc'
          (sh_flow sh')" "sh' = (cx_shared s)\<lparr>sh_flow := sh_flow sh'\<rparr>"
    and ok: "shared_ok rtt sh'" "acc_ok (fc_config (sh_flow sh')) acc'" "sh_extra sh' \<le> acc'" "rtt_ok rtt"
    using shared_next_window_update_ok [of "cx_shared s" "cx_acc s" rtt t1 t2]
    unfolding ctx_ok_def by blast
  have sh': "sh_buffer sh' = sh_buffer (cx_shared s)" "sh_state sh' = cx_state s"
    using w(2) by (metis shared.select_convs shared.surjective shared.update_convs(2))+
  have frame: "acc' + sh_extra (cx_shared s) = cx_acc s + sh_extra sh'"
    "fc_config (sh_flow sh') = fc_config (sh_flow (cx_shared s))"
    using w(1) by (auto simp: window_update_ok_def)
  show ?thesis
  proof (cases "p = Ready (Ok ())")
    case p: True
    show ?thesis
    proof (cases upd)
      case None
      with True rdy p upd ok sh' frame show ?thesis
        by (auto simp: send_window_update_def ctx_step_def ctx_ok_def
            intro: exI [of _ "stm_flag (cx_stream s)"])
    next
      case (Some credit)
      obtain fl f where af: "add_flag (stm_flag (cx_stream s))
          (frame_window_update (stm_id (cx_stream s)) credit) = (fl, f)"
        by fastforce
      let ?s1 = "s\<lparr>cx_chan := ch, cx_acc := acc', cx_shared := sh',
        cx_stream := (cx_stream s)\<lparr>stm_flag := fl\<rparr>\<rparr>"
      obtain r s' where sc: "send_command ops (stm_window_update_sender (cx_stream s)) (SendFrame f) ?s1 = (r, s')"
        by fastforce
      from send_command_cases [OF sc] have "ctx_step rtt s s'" "cx_shared s' = sh'"
        "\<forall>e. r = Err e \<longrightarrow> e = WriteZero"
        using ok frame sh' by (auto simp: ctx_step_def ctx_ok_def split: result.splits)
      with True rdy p upd Some af sc sh' show ?thesis
        by (auto simp: send_window_update_def)
    qed
  next
    case False
    with True rdy assms show ?thesis
      by (cases p)
        (auto simp: send_window_update_def ctx_step_def ctx_ok_def split: result.splits
          intro: exI [of _ "stm_flag (cx_stream s)"])
  qed
qed

lemma ctx_step_refl: "ctx_ok rtt s \<Longrightarrow> ctx_step rtt s s"
  by (auto simp: ctx_step_def intro: exI [of _ "stm_flag (cx_stream s)"])

text \<open>Taking bytes off the buffer only makes room.\<close>

lemma ctx_step_buffer:
  assumes "ctx_step rtt s s1" and "chunks_ok buf" and "length (chunks_bytes buf) \<le> length (cx_content s1)"
  shows "ctx_step rtt s (s1\<lparr>cx_shared := (cx_shared s1)\<lparr>sh_buffer := buf\<rparr>\<rparr>)"
  using assms by (auto simp: ctx_step_def ctx_ok_def shared_ok_def fc_ok_def)

lemma ctx_step_reader:
  "ctx_step rtt s s1 \<Longrightarrow> ctx_step rtt s (s1\<lparr>cx_shared := (cx_shared s1)\<lparr>sh_reader := w\<rparr>\<rparr>)"
  by (auto simp: ctx_step_def ctx_ok_def)

definition read_ok :: "usize \<Rightarrow> waker \<Rightarrow> bool \<Rightarrow> 'ch sctx \<Rightarrow> (bytes, io_error) result poll \<Rightarrow> 'ch sctx \<Rightarrow> bool" where
  "read_ok m cx barred s r s' \<longleftrightarrow> cx_state s' = cx_state s \<and> (barred \<longrightarrow> r = Ready (Ok []) \<and> s' = s) \<and>
     (case r of
        Ready (Ok bs) \<Rightarrow> cx_content s = bs @ cx_content s' \<and>
          (\<not> barred \<longrightarrow> bs = take m (cx_content s) \<and> (bs = [] \<longrightarrow> \<not> can_read (cx_state s)))
      | Ready (Err e) \<Rightarrow> e = WriteZero \<and> cx_content s' = cx_content s
      | Pending \<Rightarrow> cx_content s' = cx_content s \<and> take m (cx_content s) = [] \<and> can_read (cx_state s)
          \<and> sh_reader (cx_shared s') = Some cx)"

lemma stream_poll_read_ok:
  assumes "ctx_ok rtt s" and "m < 2 ^ 64"
  shows "\<exists>r s'. stream_poll_read ops cx t1 t2 rtt m s = Some (r, s') \<and> ctx_step rtt s s'
    \<and> read_ok m cx (no_read_after_close ops s) s r s'"
proof (cases "no_read_after_close ops s")
  case True
  then show ?thesis
    using assms(1) by (simp add: stream_poll_read_def read_ok_def ctx_step_refl)
next
  case False
  from send_window_update_ok [OF assms(1), of ops cx t1 t2] obtain r s1
    where up: "send_window_update ops cx t1 t2 rtt s = Some (r, s1)" "ctx_step rtt s s1"
      "sh_buffer (cx_shared s1) = sh_buffer (cx_shared s)" "cx_state s1 = cx_state s"
      "\<forall>e. r = Ready (Err e) \<longrightarrow> e = WriteZero"
    by blast
  from assms(1) have "chunks_ok (sh_buffer (cx_shared s))"
    by (simp add: ctx_ok_def shared_ok_def)
  from rx_buffer.copy [OF this assms(2)] obtain q where q:
    "chunks_copy m (sh_buffer (cx_shared s)) = Some (take m (cx_content s), q)" "chunks_ok q"
    "chunks_bytes q = drop m (cx_content s)"
    by blast
  have step: "ctx_step rtt s (s1\<lparr>cx_shared := (cx_shared s1)\<lparr>sh_buffer := q\<rparr>\<rparr>)"
    using up(2,3) q(2,3) by (intro ctx_step_buffer) simp_all
  have empty: "drop m (cx_content s) = cx_content s" if "take m (cx_content s) = []"
    using that by (metis append_Nil append_take_drop_id)
  show ?thesis
  proof (cases "\<exists>e. r = Ready (Err e)")
    case True
    with False up show ?thesis
      by (auto simp: stream_poll_read_def read_ok_def)
  next
    case noerr: False
    then have cases: "(case r of Ready (Err e) \<Rightarrow> A e | _ \<Rightarrow> B) = B" for A and B :: "'z option"
      by (auto split: poll.splits result.splits)
    have "stream_poll_read ops cx t1 t2 rtt m s =
      (let s2 = s1\<lparr>cx_shared := (cx_shared s1)\<lparr>sh_buffer := q\<rparr>\<rparr> in
       if take m (cx_content s) \<noteq> [] then Some (Ready (Ok (take m (cx_content s))), s2)
       else if \<not> can_read (cx_state s) then Some (Ready (Ok []), s2)
       else Some (Pending, s2\<lparr>cx_shared := (cx_shared s2)\<lparr>sh_reader := Some cx\<rparr>\<rparr>))"
      using False up(1,3,4) q(1) by (simp add: stream_poll_read_def cases Let_def)
    then show ?thesis
      using False step ctx_step_reader [OF step, of "Some cx"] up(3,4) q(3) empty
      by (auto simp: Let_def read_ok_def)
  qed
qed


text \<open>A channel with room for everything, for the witnesses: it keeps what was sent, in order.\<close>

definition queue_ops :: "(sender \<times> stream_command) list chan_ops" where
  "queue_ops =
     \<lparr>ch_poll_ready = (\<lambda>_ _ q. (Ready (Ok ()), q)), ch_start_send = (\<lambda>tx c q. (Ok (), q @ [(tx, c)])),
      ch_is_closed = (\<lambda>_ _. False), ch_poll_flush = (\<lambda>_ _ q. (Ready (Ok ()), q))\<rparr>"

definition example_stream :: stream where
  "example_stream = \<lparr>stm_id = 1, stm_config = default_config, stm_sender = 0,
     stm_window_update_sender = 1, stm_flag = Syn, stm_shared = 0\<rparr>"

definition example_ctx :: "(sender \<times> stream_command) list sctx" where
  "example_ctx = \<lparr>cx_stream = example_stream,
     cx_shared = shared_new DEFAULT_CREDIT DEFAULT_CREDIT default_config 0, cx_acc = 0, cx_chan = []\<rparr>"

lemma example_ctx_ok: "rtt_ok rtt \<Longrightarrow> ctx_ok rtt example_ctx"
  by (simp add: ctx_ok_def example_ctx_def shared_new_ok acc_ok_def config_ok_default)
    (simp add: default_config_def window_limit_def size_defs)


end
