(* ===== verification/Stream_Trace.thy ===== *)
theory Stream_Trace
  imports Stream_Handle
begin

text \<open>
  Writing and closing through a stream's handle, and what a handle hands to the connection over
  its lifetime: one frame per successful write, and the \<open>SYN\<close> or \<open>ACK\<close> of the stream exactly once.
\<close>

subsection \<open>Writing\<close>

definition write_size :: "bytes \<Rightarrow> 'ch sctx \<Rightarrow> nat" where
  "write_size buf s = min (min (unat (send_window (cx_shared s))) (length buf))
     (split_send_size (stm_config (cx_stream s)))"

text \<open>The data frame for the first \<open>k\<close> bytes of \<open>buf\<close>, with the flag of the stream.\<close>

definition data_frame :: "nat \<Rightarrow> bytes \<Rightarrow> stream \<Rightarrow> frame" where
  "data_frame k buf st =
     snd (add_flag (stm_flag st)
       \<lparr>fr_header = header_data (stm_id st) (of_nat (length (take k buf))), fr_body = take k buf\<rparr>)"

text \<open>The handle's context once the frame has been built.\<close>

definition after_write :: "nat \<Rightarrow> 'ch sctx \<Rightarrow> 'ch sctx" where
  "after_write k s =
     (let sh = cx_shared s;
          sh = sh\<lparr>sh_flow := (sh_flow sh)\<lparr>fc_send_window := send_window sh - of_nat k\<rparr>\<rparr>;
          sh = (if stm_flag (cx_stream s) = Ack then sh\<lparr>sh_state := next_state (sh_state sh) (Open True)\<rparr>
                else sh)
      in s\<lparr>cx_shared := sh, cx_stream := (cx_stream s)\<lparr>stm_flag := NoFlag\<rparr>\<rparr>)"

lemma consume_send_window_le:
  assumes "k \<le> unat (send_window sh)"
  shows "consume_send_window (of_nat k) sh
    = Ok (sh\<lparr>sh_flow := (sh_flow sh)\<lparr>fc_send_window := send_window sh - of_nat k\<rparr>\<rparr>)"
proof -
  have "unat (of_nat k :: u32) = k"
    using assms unat_u32_bound [of "send_window sh"]
    by (simp add: unat_of_nat take_bit_nat_eq_self)
  then show ?thesis
    using assms
    by (simp add: consume_send_window_def fc_consume_send_window_def checked_sub_def send_window_def
        word_le_nat_alt)
qed

lemma unat_send_window_diff:
  "k \<le> unat (send_window sh) \<Longrightarrow> unat (send_window sh - of_nat k) = unat (send_window sh) - k"
  using unat_u32_bound [of "send_window sh"]
  by (simp add: unat_sub word_le_nat_alt unat_of_nat take_bit_nat_eq_self)

lemma data_frame_flags:
  "flags_contains (hdr_flags (fr_header (data_frame k buf st))) SYN \<longleftrightarrow> stm_flag st = Syn"
  "flags_contains (hdr_flags (fr_header (data_frame k buf st))) ACK \<longleftrightarrow> stm_flag st = Ack"
  unfolding data_frame_def
  by (subst add_flag_contains; simp add: header_data_def SYN_def ACK_def)+

lemma poll_write_sends:
  assumes "ch_poll_ready ops (stm_sender (cx_stream s)) cx (cx_chan s) = (Ready (Ok u), ch)"
    and "can_write (cx_state s)" and "send_window (cx_shared s) \<noteq> 0"
    and k_def: "k = write_size buf s"
  shows "stream_poll_write ops cx buf s =
    (case send_command ops (stm_sender (cx_stream s)) (SendFrame (data_frame k buf (cx_stream s)))
            (after_write k (s\<lparr>cx_chan := ch\<rparr>)) of
       (Err e, s') \<Rightarrow> Some (Ready (Err e), s')
     | (Ok _, s') \<Rightarrow> Some (Ready (Ok (length (take k buf))), s'))"
proof -
  let ?f = "\<lparr>fr_header = header_data (stm_id (cx_stream s)) (of_nat (length (take k buf))), fr_body = take k buf\<rparr>"
  have k: "k \<le> unat (send_window (cx_shared s))"
    by (simp add: k_def write_size_def)
  then have "length (take k buf) < 2 ^ 32"
    using unat_u32_bound [of "send_window (cx_shared s)"] by simp
  from frame_data_Some [OF this] have f: "frame_data (stm_id (cx_stream s)) (take k buf) = Some ?f" .
  have a: "add_flag (stm_flag (cx_stream s)) ?f = (NoFlag, data_frame k buf (cx_stream s))"
    by (simp add: data_frame_def prod_eq_iff)
  show ?thesis
    using assms(1-3) f a
    by (simp add: stream_poll_write_def Let_def consume_send_window_le [OF k] data_frame_flags
        after_write_def update_state_def
        flip: k_def [unfolded write_size_def])
qed

lemma data_frame_simps [simp]:
  "fr_body (data_frame k buf st) = take k buf"
  "hdr_stream_id (fr_header (data_frame k buf st)) = stm_id st"
  "hdr_tag (fr_header (data_frame k buf st)) = Data"
  by (simp_all add: data_frame_def header_data_def)

lemma frame_ok_data_frame: "length (take k buf) < 2 ^ 32 \<Longrightarrow> frame_ok (data_frame k buf st)"
  unfolding data_frame_def add_flag_simps by (rule frame_ok_ctors(7) [OF frame_data_Some])

text \<open>What a call of \<open>poll_write\<close> did, by its result.\<close>

definition write_ok ::
    "('ch, 'z) chan_ops_scheme \<Rightarrow> waker \<Rightarrow> bytes \<Rightarrow> (unit, unit) result poll \<Rightarrow> 'ch \<Rightarrow> 'ch sctx \<Rightarrow>
       (usize, io_error) result poll \<Rightarrow> 'ch sctx \<Rightarrow> bool" where
  "write_ok ops cx buf p ch s r s' \<longleftrightarrow>
     (case r of
        Ready (Ok n) \<Rightarrow> p = Ready (Ok ()) \<and> can_write (cx_state s) \<and> n = write_size buf s \<and>
          unat (send_window (cx_shared s')) + n = unat (send_window (cx_shared s)) \<and>
          stm_flag (cx_stream s') = NoFlag \<and>
          ch_start_send ops (stm_sender (cx_stream s)) (SendFrame (data_frame n buf (cx_stream s))) ch = (Ok (), cx_chan s')
      | Ready (Err e) \<Rightarrow> e = WriteZero \<and>
          (cx_chan s' = ch \<and> cx_stream s' = cx_stream s \<and> cx_shared s' = cx_shared s
           \<or> p = Ready (Ok ()) \<and> (\<exists>x. ch_start_send ops (stm_sender (cx_stream s))
                (SendFrame (data_frame (write_size buf s) buf (cx_stream s))) ch = (Err x, cx_chan s')))
      | Pending \<Rightarrow> cx_chan s' = ch \<and> cx_stream s' = cx_stream s \<and>
          (p = Pending \<and> cx_shared s' = cx_shared s \<or>
           p = Ready (Ok ()) \<and> send_window (cx_shared s) = 0 \<and> cx_shared s' = (cx_shared s)\<lparr>sh_writer := Some cx\<rparr>))"

lemma after_write_simps [simp]:
  "cx_stream (after_write k s) = (cx_stream s)\<lparr>stm_flag := NoFlag\<rparr>"
  "cx_chan (after_write k s) = cx_chan s"
  "cx_acc (after_write k s) = cx_acc s"
  "send_window (cx_shared (after_write k s)) = send_window (cx_shared s) - of_nat k"
  "sh_buffer (cx_shared (after_write k s)) = sh_buffer (cx_shared s)"
  by (simp_all add: after_write_def Let_def send_window_def)

lemma stream_poll_write_ok:
  assumes rdy: "ch_poll_ready ops (stm_sender (cx_stream s)) cx (cx_chan s) = (p, ch)"
  shows "\<exists>r s'. stream_poll_write ops cx buf s = Some (r, s') \<and> write_ok ops cx buf p ch s r s'
    \<and> sh_buffer (cx_shared s') = sh_buffer (cx_shared s)"
proof -
  let ?k = "write_size buf s"
  consider "p \<noteq> Ready (Ok ())" | "p = Ready (Ok ())" "\<not> can_write (cx_state s)"
    | "p = Ready (Ok ())" "can_write (cx_state s)" "send_window (cx_shared s) = 0"
    | (send) "p = Ready (Ok ())" "can_write (cx_state s)" "send_window (cx_shared s) \<noteq> 0"
    by blast
  then show ?thesis
  proof cases
    case 1
    with rdy show ?thesis
      by (cases p) (auto simp: stream_poll_write_def write_ok_def split: result.splits)
  next
    case send
    let ?f = "data_frame ?k buf (cx_stream s)"
    have k: "?k \<le> unat (send_window (cx_shared s))" "?k \<le> length buf"
      by (simp_all add: write_size_def)
    obtain r s' where sc: "send_command ops (stm_sender (cx_stream s)) (SendFrame ?f)
        (after_write ?k (s\<lparr>cx_chan := ch\<rparr>)) = (r, s')"
      by fastforce
    have w: "stream_poll_write ops cx buf s =
        (case r of Err e \<Rightarrow> Some (Ready (Err e), s') | Ok _ \<Rightarrow> Some (Ready (Ok ?k), s'))"
      using poll_write_sends [OF rdy [unfolded send(1)] send(2,3) refl, of buf] k(2)
      by (simp add: sc min_absorb2 split: result.splits)
    show ?thesis
    proof (cases r)
      case (Ok u)
      with send_command_cases [OF sc] have st: "ch_start_send ops (stm_sender (cx_stream s)) (SendFrame ?f) ch = (Ok (), cx_chan s')"
        "cx_shared s' = cx_shared (after_write ?k (s\<lparr>cx_chan := ch\<rparr>))"
        "stm_flag (cx_stream s') = NoFlag"
        by (auto simp: prod_eq_iff)
      have "write_ok ops cx buf p ch s (Ready (Ok ?k)) s'"
        unfolding write_ok_def poll.case result.case
        using st k(1) send(1,2) by (simp add: unat_send_window_diff)
      with w Ok st(2) show ?thesis by simp
    next
      case (Err e)
      with w send(1) send_command_cases [OF sc] show ?thesis
        by (auto simp: write_ok_def prod_eq_iff)
    qed
  qed (use rdy in \<open>auto simp: stream_poll_write_def write_ok_def Let_def\<close>)
qed

lemma stream_poll_write_returns:
  "\<exists>r s'. stream_poll_write ops cx buf s = Some (r, s') \<and> sh_buffer (cx_shared s') = sh_buffer (cx_shared s)"
  using stream_poll_write_ok [of ops s cx _ _ buf] by (metis prod.exhaust)

lemma data_frame_exact:
  assumes "n = write_size buf s"
  shows "frame_ok (data_frame n buf (cx_stream s))"
    and "flags_contains (hdr_flags (fr_header (data_frame n buf (cx_stream s)))) SYN \<longleftrightarrow> stm_flag (cx_stream s) = Syn"
    and "flags_contains (hdr_flags (fr_header (data_frame n buf (cx_stream s)))) ACK \<longleftrightarrow> stm_flag (cx_stream s) = Ack"
proof -
  have "length (take n buf) < 2 ^ 32"
    using unat_u32_bound [of "send_window (cx_shared s)"] by (simp add: assms write_size_def)
  then show "frame_ok (data_frame n buf (cx_stream s))"
    by (rule frame_ok_data_frame)
qed (simp_all add: data_frame_flags)

text \<open>
  C19: Writing to a stream never panics; it polls the writer's channel once, and \<open>ch\<close> is the channel
  after that. A successful write takes as many bytes as the send window, the split size and the
  caller's buffer allow, lowers the window by exactly that, and puts into \<open>ch\<close> exactly one command, a
  well-formed data frame of this stream with exactly those bytes, marked \<open>SYN\<close> or \<open>ACK\<close> if and only
  if the stream still owed the flag, which it then no longer does. A write that is pending has put
  nothing into \<open>ch\<close>: either the channel is full, or the window is exhausted and the caller's waker is
  registered. Every failure is \<open>WriteZero\<close>, and either nothing was put into \<open>ch\<close> and nothing changed, or the channel
  refused that one frame. The receive buffer is untouched.
\<close>

theorem stream_write_exact:
  "\<exists>p ch r s'. ch_poll_ready ops (stm_sender (cx_stream s)) cx (cx_chan s) = (p, ch)
    \<and> stream_poll_write ops cx buf s = Some (r, s')
    \<and> sh_buffer (cx_shared s') = sh_buffer (cx_shared s) \<and>
     (\<exists>f. frame_ok f \<and> hdr_tag (fr_header f) = Data \<and> fr_body f = take (write_size buf s) buf
        \<and> hdr_stream_id (fr_header f) = stm_id (cx_stream s)
        \<and> (flags_contains (hdr_flags (fr_header f)) SYN \<longleftrightarrow> stm_flag (cx_stream s) = Syn)
        \<and> (flags_contains (hdr_flags (fr_header f)) ACK \<longleftrightarrow> stm_flag (cx_stream s) = Ack) \<and>
     (case r of
        Ready (Ok n) \<Rightarrow> p = Ready (Ok ()) \<and> can_write (cx_state s) \<and> n = write_size buf s \<and>
          unat (send_window (cx_shared s')) + n = unat (send_window (cx_shared s)) \<and>
          stm_flag (cx_stream s') = NoFlag \<and>
          ch_start_send ops (stm_sender (cx_stream s)) (SendFrame f) ch = (Ok (), cx_chan s')
      | Ready (Err e) \<Rightarrow> e = WriteZero \<and>
          (cx_chan s' = ch \<and> cx_stream s' = cx_stream s \<and> cx_shared s' = cx_shared s
           \<or> p = Ready (Ok ()) \<and> (\<exists>x. ch_start_send ops (stm_sender (cx_stream s)) (SendFrame f) ch = (Err x, cx_chan s')))
      | Pending \<Rightarrow> cx_chan s' = ch \<and> cx_stream s' = cx_stream s \<and>
          (p = Pending \<and> cx_shared s' = cx_shared s \<or>
           p = Ready (Ok ()) \<and> send_window (cx_shared s) = 0 \<and> cx_shared s' = (cx_shared s)\<lparr>sh_writer := Some cx\<rparr>)))"
proof -
  obtain p ch where rdy: "ch_poll_ready ops (stm_sender (cx_stream s)) cx (cx_chan s) = (p, ch)"
    by (rule prod.exhaust)
  from stream_poll_write_ok [OF this, of buf] obtain r s' where
    w: "stream_poll_write ops cx buf s = Some (r, s')" "write_ok ops cx buf p ch s r s'"
      "sh_buffer (cx_shared s') = sh_buffer (cx_shared s)"
    by blast
  show ?thesis
    by (rule exI [of _ p], rule exI [of _ ch], rule exI [of _ r], rule exI [of _ s'],
        intro conjI rdy w exI [of _ "data_frame (write_size buf s) buf (cx_stream s)"] data_frame_exact refl)
      (use w(2) in \<open>auto simp: write_ok_def split: poll.splits result.splits\<close>)
qed

subsection \<open>Closing\<close>

lemma can_close_send: "can_read SendClosed" "\<not> can_write SendClosed"
  by (simp_all add: can_read_def can_write_def)

text \<open>
  C20: Closing. \<open>poll_close\<close> of a stream closed on both sides does nothing. Otherwise it polls the
  writer's channel once, and \<open>ch\<close> is the channel after that: a success puts exactly one command into
  \<open>ch\<close>, a \<open>CloseStream\<close> that acknowledges the stream if that was still owed (a \<open>SYN\<close> stays owed), and
  closes the writing side, after which every write fails; reading stays possible if it was. When
  pending it has put nothing into \<open>ch\<close> and changed nothing; a failure is \<open>WriteZero\<close>, and either nothing
  was put into \<open>ch\<close> or the channel refused that command. The windows and the receive buffer are untouched.
\<close>

theorem stream_close_exact:
  "\<exists>p ch r s'. ch_poll_ready ops (stm_sender (cx_stream s)) cx (cx_chan s) = (p, ch)
    \<and> stream_poll_close ops cx s = (r, s')
    \<and> sh_buffer (cx_shared s') = sh_buffer (cx_shared s) \<and> sh_flow (cx_shared s') = sh_flow (cx_shared s) \<and>
     (if cx_state s = Closed then r = Ready (Ok ()) \<and> s' = s
      else case r of
        Ready (Ok _) \<Rightarrow> p = Ready (Ok ()) \<and> \<not> can_write (cx_state s')
          \<and> (can_read (cx_state s') \<longleftrightarrow> can_read (cx_state s))
          \<and> stm_flag (cx_stream s') = (if stm_flag (cx_stream s) = Ack then NoFlag else stm_flag (cx_stream s))
          \<and> ch_start_send ops (stm_sender (cx_stream s)) (CloseStream (stm_flag (cx_stream s) = Ack)) ch = (Ok (), cx_chan s')
      | Ready (Err e) \<Rightarrow> e = WriteZero \<and> cx_shared s' = cx_shared s
          \<and> (cx_chan s' = ch \<and> cx_stream s' = cx_stream s
             \<or> p = Ready (Ok ()) \<and> (\<exists>x. ch_start_send ops (stm_sender (cx_stream s))
                 (CloseStream (stm_flag (cx_stream s) = Ack)) ch = (Err x, cx_chan s')))
      | Pending \<Rightarrow> p = Pending \<and> cx_chan s' = ch \<and> cx_shared s' = cx_shared s \<and> cx_stream s' = cx_stream s)"
proof -
  obtain p ch where rdy: "ch_poll_ready ops (stm_sender (cx_stream s)) cx (cx_chan s) = (p, ch)"
    by (rule prod.exhaust)
  consider (closed) "cx_state s = Closed" | (idle) "cx_state s \<noteq> Closed" "p \<noteq> Ready (Ok ())"
    | (send) "cx_state s \<noteq> Closed" "p = Ready (Ok ())"
    by blast
  then show ?thesis
  proof cases
    case closed
    with rdy show ?thesis
      by (simp add: stream_poll_close_def is_closed_def)
  next
    case idle
    with rdy show ?thesis
      by (cases p) (auto simp: stream_poll_close_def is_closed_def split: result.splits)
  next
    case send
    let ?ack = "stm_flag (cx_stream s) = Ack"
    let ?s1 = "if ?ack then s\<lparr>cx_chan := ch, cx_stream := (cx_stream s)\<lparr>stm_flag := NoFlag\<rparr>\<rparr>
      else s\<lparr>cx_chan := ch\<rparr>"
    obtain r s' where sc: "send_command ops (stm_sender (cx_stream s)) (CloseStream ?ack) ?s1 = (r, s')"
      by fastforce
    have "stream_poll_close ops cx s = (case r of Err e \<Rightarrow> (Ready (Err e), s')
        | Ok _ \<Rightarrow> (Ready (Ok ()), s'\<lparr>cx_shared := snd (update_state SendClosed (cx_shared s'))\<rparr>))"
      using send rdy sc
      by (auto simp: stream_poll_close_def is_closed_def Let_def split: result.splits)
    with send rdy send_command_cases [OF sc] show ?thesis
      by (cases r) (auto simp: update_state_def can_read_next_state can_write_next_state
          can_close_send split: if_splits intro!: prod_eqI)
  qed
qed

subsection \<open>What a handle sends over its lifetime\<close>

text \<open>A channel that also records every command handed to \<open>start_send\<close>.\<close>

definition log_ops :: "('ch, 'z) chan_ops_scheme \<Rightarrow> ('ch \<times> stream_command list) chan_ops" where
  "log_ops ops =
     \<lparr>ch_poll_ready = (\<lambda>tx cx (ch, l). case ch_poll_ready ops tx cx ch of (r, ch) \<Rightarrow> (r, ch, l)),
      ch_start_send = (\<lambda>tx c (ch, l). case ch_start_send ops tx c ch of (r, ch) \<Rightarrow> (r, ch, l @ [c])),
      ch_is_closed = (\<lambda>tx (ch, l). ch_is_closed ops tx ch),
      ch_poll_flush = (\<lambda>tx cx (ch, l). case ch_poll_flush ops tx cx ch of (r, ch) \<Rightarrow> (r, ch, l))\<rparr>"

datatype stream_call =
  CallNext waker instant instant
| CallRead waker instant instant usize
| CallWrite waker bytes
| CallFlush waker
| CallClose waker

fun run_call :: "('ch, 'z) chan_ops_scheme \<Rightarrow> duration option \<Rightarrow> stream_call \<Rightarrow> 'ch sctx \<Rightarrow> 'ch sctx run" where
  "run_call ops rtt (CallNext cx t1 t2) s = map_option snd (stream_poll_next ops cx t1 t2 rtt s)"
| "run_call ops rtt (CallRead cx t1 t2 m) s = map_option snd (stream_poll_read ops cx t1 t2 rtt m s)"
| "run_call ops rtt (CallWrite cx buf) s = map_option snd (stream_poll_write ops cx buf s)"
| "run_call ops rtt (CallFlush cx) s = Some (snd (stream_poll_flush ops cx s))"
| "run_call ops rtt (CallClose cx) s = Some (snd (stream_poll_close ops cx s))"

text \<open>The bytes a call takes from its caller and the bytes it gives to him.\<close>

fun call_written :: "('ch, 'z) chan_ops_scheme \<Rightarrow> stream_call \<Rightarrow> 'ch sctx \<Rightarrow> bytes" where
  "call_written ops (CallWrite cx buf) s =
     (case stream_poll_write ops cx buf s of Some (Ready (Ok n), _) \<Rightarrow> take n buf | _ \<Rightarrow> [])"
| "call_written ops _ s = []"

fun call_read :: "('ch, 'z) chan_ops_scheme \<Rightarrow> duration option \<Rightarrow> stream_call \<Rightarrow> 'ch sctx \<Rightarrow> bytes" where
  "call_read ops rtt (CallNext cx t1 t2) s =
     (case stream_poll_next ops cx t1 t2 rtt s of Some (Ready (Some (Ok bs)), _) \<Rightarrow> bs | _ \<Rightarrow> [])"
| "call_read ops rtt (CallRead cx t1 t2 m) s =
     (case stream_poll_read ops cx t1 t2 rtt m s of Some (Ready (Ok bs), _) \<Rightarrow> bs | _ \<Rightarrow> [])"
| "call_read ops rtt _ s = []"

lemma ctx_step_shared:
  assumes "ctx_ok rtt s" and "cx_stream s' = (cx_stream s)\<lparr>stm_flag := fl\<rparr>" and "cx_acc s' = cx_acc s"
    and "sh_buffer (cx_shared s') = sh_buffer (cx_shared s)" and "cx_state s \<le> cx_state s'"
    and "sh_flow (cx_shared s') = (sh_flow (cx_shared s))\<lparr>fc_send_window := w\<rparr>"
  shows "ctx_step rtt s s'"
  using assms by (auto simp: ctx_step_def ctx_ok_def shared_ok_def fc_ok_def fc_extra_def)

lemma ctx_step_unsent:
  assumes "ctx_ok rtt s" and "cx_stream s' = cx_stream s" and "cx_acc s' = cx_acc s"
    and "sh_buffer (cx_shared s') = sh_buffer (cx_shared s)" and "cx_state s' = cx_state s"
    and "sh_flow (cx_shared s') = sh_flow (cx_shared s)"
  shows "ctx_step rtt s s'"
  using assms
  by (intro ctx_step_shared [where fl = "stm_flag (cx_stream s)"
        and w = "fc_send_window (sh_flow (cx_shared s))"]) simp_all

lemma le_next_state: "t \<noteq> Open False \<Longrightarrow> s \<le> next_state s t"
  by (simp add: next_state_sup)

lemma ctx_step_write:
  assumes "ctx_ok rtt s" and "stream_poll_write ops cx buf s = Some (r, s')"
  shows "ctx_step rtt s s'"
proof -
  obtain p ch where rdy: "ch_poll_ready ops (stm_sender (cx_stream s)) cx (cx_chan s) = (p, ch)"
    by (rule prod.exhaust)
  show ?thesis
  proof (cases "p = Ready (Ok ()) \<and> can_write (cx_state s) \<and> send_window (cx_shared s) \<noteq> 0")
    case False
    with rdy assms show ?thesis
      by (cases p) (auto simp: stream_poll_write_def Let_def split: result.splits if_splits
          intro!: ctx_step_unsent)
  next
    case True
    let ?k = "write_size buf s"
    let ?s1 = "after_write ?k (s\<lparr>cx_chan := ch\<rparr>)"
    obtain q s1 where sc: "send_command ops (stm_sender (cx_stream s))
        (SendFrame (data_frame ?k buf (cx_stream s))) ?s1 = (q, s1)"
      by (rule prod.exhaust)
    with True rdy assms poll_write_sends [of ops s cx _ ch, OF _ _ _ refl, of _ buf] have "s' = s1"
      by (auto split: result.splits)
    with send_command_cases [OF sc] show ?thesis
      by (intro ctx_step_shared [OF assms(1), where fl = NoFlag
            and w = "send_window (cx_shared s) - of_nat ?k"])
        (auto simp: after_write_def Let_def le_next_state)
  qed
qed

lemma ctx_step_close:
  assumes "ctx_ok rtt s" and "stream_poll_close ops cx s = (r, s')"
  shows "ctx_step rtt s s'"
proof -
  have "sh_flow (cx_shared s') = sh_flow (cx_shared s) \<and> sh_buffer (cx_shared s') = sh_buffer (cx_shared s)
      \<and> cx_acc s' = cx_acc s \<and> cx_state s \<le> cx_state s'
      \<and> (\<exists>fl. cx_stream s' = (cx_stream s)\<lparr>stm_flag := fl\<rparr>)"
    using assms(2)
    by (auto simp: stream_poll_close_def Let_def update_state_def le_next_state
        split: if_splits prod.splits poll.splits result.splits dest!: send_command_cases
        intro: exI [of _ "stm_flag (cx_stream s)"])
  then show ?thesis
    by (auto intro!: ctx_step_shared [OF assms(1), where w = "fc_send_window (sh_flow (cx_shared s))"])
qed

lemma chunks_pop_offset:
  assumes "chunks_ok cs" and "chunks_pop cs = Some (Some d, q)"
  shows "chunk_offset d \<le> length (chunk_into_vec d)"
  using assms
  by (auto simp: chunks_pop_def chunks_ok_def chunk_offset_def chunk_into_vec_def bind_eq_Some_conv
      split: list.splits)

lemma ctx_step_next:
  assumes "ctx_ok rtt s"
  shows "\<exists>r s'. stream_poll_next ops cx t1 t2 rtt s = Some (r, s') \<and> ctx_step rtt s s'
    \<and> cx_content s = (case r of Ready (Some (Ok bs)) \<Rightarrow> bs | _ \<Rightarrow> []) @ cx_content s'"
proof (cases "no_read_after_close ops s")
  case True
  then show ?thesis
    using assms by (simp add: stream_poll_next_def ctx_step_refl)
next
  case False
  from send_window_update_ok [OF assms, of ops cx t1 t2] obtain p s1
    where up: "send_window_update ops cx t1 t2 rtt s = Some (p, s1)" "ctx_step rtt s s1"
      "sh_buffer (cx_shared s1) = sh_buffer (cx_shared s)"
    by blast
  have "chunks_ok (sh_buffer (cx_shared s))"
    using assms by (simp add: ctx_ok_def shared_ok_def)
  from rx_buffer.pop [OF this] up(3) obtain c q where
    pop: "chunks_pop (sh_buffer (cx_shared s1)) = Some (c, q)" "chunks_ok q"
      "cx_content s1 = (case c of Some c \<Rightarrow> chunk_rest c | None \<Rightarrow> []) @ chunks_bytes q"
    and off: "\<And>d. c = Some d \<Longrightarrow> chunk_offset d \<le> length (chunk_into_vec d)"
    using chunks_pop_offset [OF \<open>chunks_ok (sh_buffer (cx_shared s))\<close>] by auto
  let ?s2 = "s1\<lparr>cx_shared := (cx_shared s1)\<lparr>sh_buffer := q\<rparr>\<rparr>"
  have step: "ctx_step rtt s ?s2"
    using pop up(2) by (intro ctx_step_buffer) (simp_all add: pop(3))
  have content: "cx_content s = (case c of Some c \<Rightarrow> chunk_rest c | None \<Rightarrow> []) @ chunks_bytes q"
    using pop(3) up(3) by simp
  show ?thesis
  proof (cases "\<exists>e. p = Ready (Err e)")
    case True
    with False up show ?thesis by (auto simp: stream_poll_next_def)
  next
    case noerr: False
    then have cases: "(case p of Ready (Err e) \<Rightarrow> A e | _ \<Rightarrow> B) = B" for A and B :: "'z option"
      by (auto split: poll.splits result.splits)
    show ?thesis
      using False up(1) pop(1) step ctx_step_reader [OF step, of "Some cx"] off content
      by (cases c) (auto simp: stream_poll_next_def cases Let_def chunk_rest_def chunk_offset_def chunk_into_vec_def)
  qed
qed

text \<open>A call asks for at most \<open>usize::MAX\<close> bytes.\<close>

fun call_ok :: "stream_call \<Rightarrow> bool" where
  "call_ok (CallRead cx t1 t2 m) \<longleftrightarrow> m < 2 ^ 64"
| "call_ok _ \<longleftrightarrow> True"

lemma run_call_ok:
  assumes "ctx_ok rtt s" and "call_ok c"
  shows "\<exists>s'. run_call ops rtt c s = Some s' \<and> ctx_step rtt s s'"
proof (cases c)
  case (CallNext cx t1 t2)
  with ctx_step_next [OF assms(1), of ops cx t1 t2] show ?thesis by auto
next
  case (CallRead cx t1 t2 m)
  with stream_poll_read_ok [OF assms(1), of m ops cx t1 t2] assms(2) show ?thesis by auto
next
  case (CallWrite cx buf)
  with stream_poll_write_returns [of ops cx buf s] ctx_step_write [OF assms(1), of ops cx buf] show ?thesis
    by auto
next
  case (CallFlush cx)
  with assms(1) show ?thesis
    by (auto simp: stream_poll_flush_def split: prod.splits poll.splits result.splits
        intro!: ctx_step_unsent)
next
  case (CallClose cx)
  with ctx_step_close [OF assms(1), of ops cx] show ?thesis
    by (auto simp: prod_eq_iff)
qed

text \<open>What a call gives to its caller comes off the front of the receive buffer.\<close>

lemma call_reads:
  assumes "ctx_ok rtt s" and "call_ok c" and "run_call ops rtt c s = Some s'"
  shows "cx_content s = call_read ops rtt c s @ cx_content s'"
proof (cases c)
  case (CallNext cx t1 t2)
  from ctx_step_next [OF assms(1), of ops cx t1 t2] obtain r u where
    "stream_poll_next ops cx t1 t2 rtt s = Some (r, u)"
    "cx_content s = (case r of Ready (Some (Ok bs)) \<Rightarrow> bs | _ \<Rightarrow> []) @ cx_content u"
    by blast
  with CallNext assms(3) show ?thesis by simp
next
  case (CallRead cx t1 t2 m)
  with stream_poll_read_ok [OF assms(1), of m ops cx t1 t2] assms(2) obtain r u where
    "stream_poll_read ops cx t1 t2 rtt m s = Some (r, u)" "read_ok m cx (no_read_after_close ops s) s r u"
    by auto
  with CallRead assms(3) show ?thesis
    by (cases r) (auto simp: read_ok_def split: result.splits)
next
  case (CallWrite cx buf)
  with assms stream_poll_write_returns [of ops cx buf s] show ?thesis
    by auto
next
  case (CallFlush cx)
  with assms show ?thesis
    by (auto simp: stream_poll_flush_def split: prod.splits poll.splits result.splits)
next
  case (CallClose cx)
  then have "sh_buffer (cx_shared s') = sh_buffer (cx_shared s)"
    using assms(3)
    by (auto simp: stream_poll_close_def Let_def update_state_def
        split: if_splits prod.splits poll.splits result.splits dest!: send_command_cases)
  with CallClose show ?thesis by simp
qed

text \<open>
  A run of a handle: calls of its owner in any order, between which the connection changes the
  shared state, the counter and the channel as it likes.
\<close>

type_synonym 'ch logged = "('ch \<times> stream_command list) sctx"

inductive handle_run :: "('ch, 'z) chan_ops_scheme \<Rightarrow> 'ch logged \<Rightarrow> 'ch logged \<Rightarrow> bool" for ops where
  start: "handle_run ops s s"
| call: "handle_run ops s t \<Longrightarrow> run_call (log_ops ops) rtt c t = Some u \<Longrightarrow> handle_run ops s u"
| env: "handle_run ops s t \<Longrightarrow> cx_stream u = cx_stream t \<Longrightarrow> snd (cx_chan u) = snd (cx_chan t) \<Longrightarrow>
    handle_run ops s u"

definition has_syn :: "frame \<Rightarrow> bool" where
  "has_syn f \<longleftrightarrow> flags_contains (hdr_flags (fr_header f)) SYN"

fun gives_ack :: "stream_command \<Rightarrow> bool" where
  "gives_ack (SendFrame f) \<longleftrightarrow> flags_contains (hdr_flags (fr_header f)) ACK"
| "gives_ack (CloseStream ack) \<longleftrightarrow> ack"

fun gives_syn :: "stream_command \<Rightarrow> bool" where
  "gives_syn (SendFrame f) \<longleftrightarrow> has_syn f"
| "gives_syn (CloseStream _) \<longleftrightarrow> False"

fun is_close :: "stream_command \<Rightarrow> bool" where
  "is_close (SendFrame _) \<longleftrightarrow> False"
| "is_close (CloseStream _) \<longleftrightarrow> True"

text \<open>The frame the connection sends for a command of the stream \<open>sid\<close>.\<close>

fun command_frame :: "u32 \<Rightarrow> stream_command \<Rightarrow> frame" where
  "command_frame sid (SendFrame f) = f"
| "command_frame sid (CloseStream ack) = frame_close_stream sid ack"

definition has_ack :: "frame \<Rightarrow> bool" where
  "has_ack f \<longleftrightarrow> flags_contains (hdr_flags (fr_header f)) ACK"

lemma command_frame_flags: "has_syn (command_frame sid c) = gives_syn c" "has_ack (command_frame sid c) = gives_ack c"
  by (cases c; simp add: has_syn_def has_ack_def frame_close_stream_def Let_def frame_new_def hdr_fin_def hdr_ack_def
      header_data_def flags_contains_def SYN_def ACK_def FIN_def)+

text \<open>The commands from the first on that is not a close.\<close>

definition opened :: "stream_command list \<Rightarrow> stream_command list" where
  "opened l = dropWhile is_close l"

lemma opened_simps [simp]:
  "opened [] = []" "opened [c] = (if is_close c then [] else [c])" "opened (l @ [c]) = (if opened l = [] then if is_close c then [] else [c] else opened l @ [c])"
  by (auto simp: opened_def dropWhile_append dropWhile_eq_Nil_conv)

text \<open>\<open>True\<close> at the front and nowhere else.\<close>

definition first_only :: "bool list \<Rightarrow> bool" where
  "first_only bs \<longleftrightarrow> bs = [] \<or> hd bs \<and> True \<notin> set (tl bs)"

text \<open>
  One call polls the channel and hands over nothing, a flagged frame or a close. The bytes it
  takes from its caller are those of the frame, if the channel took it.
\<close>

definition idle_chan :: "('ch, 'z) chan_ops_scheme \<Rightarrow> 'ch \<Rightarrow> 'ch \<Rightarrow> bool" where
  "idle_chan ops ch ch' \<longleftrightarrow> ch' = ch \<or> (\<exists>tx cx. ch' = snd (ch_poll_ready ops tx cx ch))
     \<or> (\<exists>tx cx. ch' = snd (ch_poll_flush ops tx cx ch))"

inductive sends :: "('ch, 'z) chan_ops_scheme \<Rightarrow> bytes \<Rightarrow> 'ch sctx \<Rightarrow> 'ch sctx \<Rightarrow> bool" for ops bs s s' where
  idle: "idle_chan ops (cx_chan s) (cx_chan s') \<Longrightarrow> stm_flag (cx_stream s') = stm_flag (cx_stream s) \<Longrightarrow> bs = [] \<Longrightarrow>
    sends ops bs s s'"
| frame: "idle_chan ops (cx_chan s) ch \<Longrightarrow>
    tx \<in> {stm_sender (cx_stream s), stm_window_update_sender (cx_stream s)} \<Longrightarrow>
    hdr_flags (fr_header f) = 0 \<Longrightarrow> frame_ok f \<Longrightarrow> hdr_tag (fr_header f) \<in> {Data, WindowUpdate} \<Longrightarrow>
    hdr_stream_id (fr_header f) = stm_id (cx_stream s) \<Longrightarrow> stm_flag (cx_stream s') = NoFlag \<Longrightarrow>
    ch_start_send ops tx (SendFrame (snd (add_flag (stm_flag (cx_stream s)) f))) ch = (r, cx_chan s') \<Longrightarrow>
    bs = (if r = Ok () \<and> hdr_tag (fr_header f) = Data then fr_body f else []) \<Longrightarrow> sends ops bs s s'"
| close: "idle_chan ops (cx_chan s) ch \<Longrightarrow>
    tx \<in> {stm_sender (cx_stream s), stm_window_update_sender (cx_stream s)} \<Longrightarrow>
    stm_flag (cx_stream s') = (if stm_flag (cx_stream s) = Ack then NoFlag else stm_flag (cx_stream s)) \<Longrightarrow>
    ch_start_send ops tx (CloseStream (stm_flag (cx_stream s) = Ack)) ch = (r, cx_chan s') \<Longrightarrow> bs = [] \<Longrightarrow>
    sends ops bs s s'"

lemma idle_chan_simps:
  "idle_chan ops ch ch" "ch_poll_ready ops tx cx ch = (r, ch') \<Longrightarrow> idle_chan ops ch ch'"
  "ch_poll_flush ops tx cx ch = (r, ch') \<Longrightarrow> idle_chan ops ch ch'"
  unfolding idle_chan_def by (metis snd_conv)+

lemma sends_idle: "cx_stream s' = cx_stream s \<Longrightarrow> idle_chan ops (cx_chan s) (cx_chan s') \<Longrightarrow> sends ops [] s s'"
  by (auto intro: sends.idle)

lemma sends_trans:
  assumes "sends ops bs s t" and "cx_stream u = cx_stream t" and "cx_chan u = cx_chan t"
  shows "sends ops bs s u"
  using assms(1)
proof cases
  case idle
  then show ?thesis using assms(2,3) by (intro sends.idle) simp_all
next
  case (frame ch tx f r)
  show ?thesis by (rule sends.frame [OF frame(1-6) _ _ frame(9)]) (simp_all add: assms(2,3) frame(7,8))
next
  case (close ch tx r)
  show ?thesis by (rule sends.close [OF close(1,2) _ _ close(5)]) (simp_all add: assms(2,3) close(3,4))
qed

lemma sends_send_window_update:
  assumes "send_window_update ops cx t1 t2 rtt s = Some (r, s')"
  shows "sends ops [] s s'"
proof (cases "can_read (cx_state s)")
  case False
  with assms show ?thesis by (simp add: send_window_update_def sends_idle idle_chan_simps)
next
  case True
  obtain p ch where rdy:
    "ch_poll_ready ops (stm_window_update_sender (cx_stream s)) cx (cx_chan s) = (p, ch)"
    by (rule prod.exhaust)
  note idle = idle_chan_simps(2) [OF this]
  show ?thesis
  proof (cases "p = Ready (Ok ())")
    case False
    with True rdy assms idle show ?thesis
      by (cases p) (auto simp: send_window_update_def intro!: sends_idle split: result.splits)
  next
    case p: True
    with True rdy assms obtain upd acc sh where
      upd: "shared_next_window_update t1 t2 rtt (cx_acc s) (cx_shared s) = Some (upd, acc, sh)"
      by (auto simp: send_window_update_def bind_eq_Some_conv)
    show ?thesis
    proof (cases upd)
      case None
      with True rdy p assms upd idle show ?thesis
        by (auto simp: send_window_update_def intro!: sends_idle)
    next
      case (Some credit)
      let ?f = "frame_window_update (stm_id (cx_stream s)) credit"
      obtain f where a: "add_flag (stm_flag (cx_stream s)) ?f = (NoFlag, f)"
        by (metis add_flag_simps(1) prod.collapse)
      let ?s1 = "s\<lparr>cx_chan := ch, cx_acc := acc, cx_shared := sh,
        cx_stream := (cx_stream s)\<lparr>stm_flag := NoFlag\<rparr>\<rparr>"
      obtain q s1 where sc: "send_command ops (stm_window_update_sender (cx_stream s))
          (SendFrame f) ?s1 = (q, s1)"
        by (rule prod.exhaust)
      with True rdy p assms upd Some a have "s' = s1"
        by (auto simp: send_window_update_def)
      with send_command_cases [OF sc] idle a show ?thesis
        by (intro sends.frame [of ops s ch "stm_window_update_sender (cx_stream s)" ?f])
          (simp_all add: frame_ok_ctors prod_eq_iff, simp_all add: frame_window_update_def frame_new_def
            header_window_update_def)
    qed
  qed
qed

lemma stream_poll_next_after_update:
  assumes "stream_poll_next ops cx t1 t2 rtt s = Some (r, s')"
  shows "no_read_after_close ops s \<and> s' = s \<or> (\<exists>p s1. send_window_update ops cx t1 t2 rtt s = Some (p, s1)
    \<and> cx_stream s' = cx_stream s1 \<and> cx_chan s' = cx_chan s1 \<and> sh_flow (cx_shared s') = sh_flow (cx_shared s1))"
proof (cases "no_read_after_close ops s")
  case True
  with assms show ?thesis by (simp add: stream_poll_next_def)
next
  case False
  with assms obtain p s1 where up: "send_window_update ops cx t1 t2 rtt s = Some (p, s1)"
    by (auto simp: stream_poll_next_def bind_eq_Some_conv)
  show ?thesis
  proof (cases "\<exists>e. p = Ready (Err e)")
    case True
    with False up assms show ?thesis by (auto simp: stream_poll_next_def)
  next
    case noerr: False
    then have cases: "(case p of Ready (Err e) \<Rightarrow> A e | _ \<Rightarrow> B) = B" for A and B :: "'z option"
      by (auto split: poll.splits result.splits)
    from False up assms show ?thesis
      by (auto simp: stream_poll_next_def cases Let_def bind_eq_Some_conv
          split: if_splits option.splits)
  qed
qed

lemma stream_poll_read_after_update:
  assumes "stream_poll_read ops cx t1 t2 rtt m s = Some (r, s')"
  shows "no_read_after_close ops s \<and> s' = s \<or> (\<exists>p s1. send_window_update ops cx t1 t2 rtt s = Some (p, s1)
    \<and> cx_stream s' = cx_stream s1 \<and> cx_chan s' = cx_chan s1 \<and> sh_flow (cx_shared s') = sh_flow (cx_shared s1))"
proof (cases "no_read_after_close ops s")
  case True
  with assms show ?thesis by (simp add: stream_poll_read_def)
next
  case False
  with assms obtain p s1 where up: "send_window_update ops cx t1 t2 rtt s = Some (p, s1)"
    by (auto simp: stream_poll_read_def bind_eq_Some_conv)
  show ?thesis
  proof (cases "\<exists>e. p = Ready (Err e)")
    case True
    with False up assms show ?thesis by (auto simp: stream_poll_read_def)
  next
    case noerr: False
    then have cases: "(case p of Ready (Err e) \<Rightarrow> A e | _ \<Rightarrow> B) = B" for A and B :: "'z option"
      by (auto split: poll.splits result.splits)
    from False up assms show ?thesis
      by (auto simp: stream_poll_read_def cases Let_def bind_eq_Some_conv split: if_splits)
  qed
qed

lemma sends_write:
  assumes "stream_poll_write ops cx buf s = Some (r, s')"
  shows "sends ops (call_written ops (CallWrite cx buf) s) s s'"
proof -
  obtain p ch where rdy: "ch_poll_ready ops (stm_sender (cx_stream s)) cx (cx_chan s) = (p, ch)"
    by (rule prod.exhaust)
  note idle = idle_chan_simps(2) [OF this]
  show ?thesis
  proof (cases "p = Ready (Ok ()) \<and> can_write (cx_state s) \<and> send_window (cx_shared s) \<noteq> 0")
    case False
    with rdy assms idle show ?thesis
      by (cases p) (auto simp: stream_poll_write_def Let_def intro!: sends_idle
          split: result.splits if_splits)
  next
    case True
    let ?k = "write_size buf s"
    let ?f = "\<lparr>fr_header = header_data (stm_id (cx_stream s)) (of_nat (length (take ?k buf))),
      fr_body = take ?k buf\<rparr>"
    have "length (take ?k buf) < 2 ^ 32"
      using unat_u32_bound [of "send_window (cx_shared s)"] by (simp add: write_size_def)
    from frame_ok_ctors(7) [OF frame_data_Some [OF this]] have f: "frame_ok ?f" .
    obtain q s1 where sc: "send_command ops (stm_sender (cx_stream s))
        (SendFrame (data_frame ?k buf (cx_stream s))) (after_write ?k (s\<lparr>cx_chan := ch\<rparr>)) = (q, s1)"
      by (rule prod.exhaust)
    with True rdy assms poll_write_sends [of ops s cx _ ch, OF _ _ _ refl, of _ buf]
    have w: "s' = s1" "call_written ops (CallWrite cx buf) s = (if q = Ok () then take ?k buf else [])"
      by (auto simp: min_def split: result.splits)
    let ?r = "fst (ch_start_send ops (stm_sender (cx_stream s)) (SendFrame (snd (add_flag (stm_flag (cx_stream s)) ?f))) ch)"
    have r: "ch_start_send ops (stm_sender (cx_stream s)) (SendFrame (snd (add_flag (stm_flag (cx_stream s)) ?f))) ch
        = (?r, cx_chan s')" "q = Ok () \<longleftrightarrow> ?r = Ok ()"
      using send_command_cases [OF sc] w(1) by (auto simp: data_frame_def prod_eq_iff split: result.splits)
    show ?thesis
      unfolding w(2) r(2) using send_command_cases [OF sc] w(1)
      by (intro sends.frame [OF idle _ _ f _ _ _ r(1)]) (simp_all add: header_data_def)
  qed
qed

lemma sends_close:
  assumes "stream_poll_close ops cx s = (r, s')"
  shows "sends ops [] s s'"
proof -
  obtain p ch where rdy: "ch_poll_ready ops (stm_sender (cx_stream s)) cx (cx_chan s) = (p, ch)"
    by (rule prod.exhaust)
  note idle = idle_chan_simps(2) [OF this]
  show ?thesis
  proof (cases "p = Ready (Ok ()) \<and> cx_state s \<noteq> Closed")
    case False
    with rdy assms idle show ?thesis
      by (cases p) (auto simp: stream_poll_close_def is_closed_def idle_chan_simps intro!: sends_idle
          split: result.splits if_splits)
  next
    case True
    let ?ack = "stm_flag (cx_stream s) = Ack"
    let ?s1 = "if ?ack then s\<lparr>cx_chan := ch, cx_stream := (cx_stream s)\<lparr>stm_flag := NoFlag\<rparr>\<rparr>
      else s\<lparr>cx_chan := ch\<rparr>"
    obtain q s1 where sc: "send_command ops (stm_sender (cx_stream s)) (CloseStream ?ack) ?s1 = (q, s1)"
      by (rule prod.exhaust)
    with True rdy assms have "cx_stream s' = cx_stream s1 \<and> cx_chan s' = cx_chan s1"
      by (auto simp: stream_poll_close_def is_closed_def Let_def split: result.splits if_splits)
    with send_command_cases [OF sc] show ?thesis
      by (intro sends.close [OF idle, of "stm_sender (cx_stream s)" _
            "fst (ch_start_send ops (stm_sender (cx_stream s)) (CloseStream ?ack) ch)"]) (auto simp: prod_eq_iff)
  qed
qed

lemma sends_call:
  assumes "run_call ops rtt c s = Some s'"
  shows "sends ops (call_written ops c s) s s'"
proof (cases c)
  case (CallNext cx t1 t2)
  with assms obtain r where "stream_poll_next ops cx t1 t2 rtt s = Some (r, s')"
    by auto
  from stream_poll_next_after_update [OF this] CallNext show ?thesis
    by (auto intro: sends_idle idle_chan_simps sends_trans [OF sends_send_window_update])
next
  case (CallRead cx t1 t2 m)
  with assms obtain r where "stream_poll_read ops cx t1 t2 rtt m s = Some (r, s')"
    by auto
  from stream_poll_read_after_update [OF this] CallRead show ?thesis
    by (auto intro: sends_idle idle_chan_simps sends_trans [OF sends_send_window_update])
next
  case (CallWrite cx buf)
  with assms sends_write [of ops cx buf s _ s'] show ?thesis by (auto simp del: call_written.simps)
next
  case (CallFlush cx)
  with assms show ?thesis
    by (auto simp: stream_poll_flush_def split: prod.splits poll.splits result.splits
        dest: idle_chan_simps(3) intro!: sends_idle)
next
  case (CallClose cx)
  with assms show ?thesis
    by (auto intro: sends_close [of ops cx s "fst (stream_poll_close ops cx s)"])
qed

text \<open>On the recording channel.\<close>

definition issues :: "'ch logged \<Rightarrow> 'ch logged \<Rightarrow> bool" where
  "issues s s' \<longleftrightarrow>
     (let fl = stm_flag (cx_stream s); fl' = stm_flag (cx_stream s');
          l = snd (cx_chan s); l' = snd (cx_chan s')
      in fl' = fl \<and> l' = l
         \<or> (\<exists>f. hdr_flags (fr_header f) = 0 \<and> fl' = NoFlag \<and> l' = l @ [SendFrame (snd (add_flag fl f))])
         \<or> fl' = (if fl = Ack then NoFlag else fl) \<and> l' = l @ [CloseStream (fl = Ack)])"

lemma log_ops_idle: "idle_chan (log_ops ops) ch ch' \<Longrightarrow> snd ch' = snd ch"
  by (auto simp: idle_chan_def log_ops_def case_prod_beta)

lemma log_ops_send: "ch_start_send (log_ops ops) tx c ch = (r, ch') \<Longrightarrow> snd ch' = snd ch @ [c]"
  by (auto simp: log_ops_def split: prod.splits)

lemma issues_call:
  assumes "run_call (log_ops ops) rtt c s = Some s'"
  shows "issues s s'"
proof -
  from sends_call [OF assms] show ?thesis
  proof cases
    case idle
    with log_ops_idle [OF idle(1)] show ?thesis
      by (simp add: issues_def Let_def)
  next
    case (frame ch tx f r)
    with log_ops_idle [OF frame(1)] log_ops_send [OF frame(8)] show ?thesis
      by (auto simp: issues_def Let_def)
  next
    case (close ch tx r)
    with log_ops_idle [OF close(1)] log_ops_send [OF close(4)] show ?thesis
      by (simp add: issues_def Let_def)
  qed
qed

text \<open>The flag still owed, and what has been sent of it.\<close>

definition trace_ok :: "flag \<Rightarrow> flag \<Rightarrow> stream_command list \<Rightarrow> bool" where
  "trace_ok fl0 fl l \<longleftrightarrow>
     (case fl0 of
        Syn \<Rightarrow> first_only (map gives_syn (opened l)) \<and> (\<forall>c \<in> set l. \<not> gives_ack c)
          \<and> (fl = Syn \<and> opened l = [] \<or> fl = NoFlag \<and> opened l \<noteq> [])
      | Ack \<Rightarrow> first_only (map gives_ack l) \<and> (\<forall>c \<in> set l. \<not> gives_syn c)
          \<and> (fl = Ack \<and> l = [] \<or> fl = NoFlag \<and> l \<noteq> [])
      | NoFlag \<Rightarrow> (\<forall>c \<in> set l. \<not> gives_ack c \<and> \<not> gives_syn c) \<and> fl = NoFlag)"

lemma first_only_simps [simp]:
  "first_only []" "first_only [b] = b" "bs \<noteq> [] \<Longrightarrow> first_only (bs @ [b]) \<longleftrightarrow> first_only bs \<and> \<not> b"
  by (auto simp: first_only_def hd_append)

lemma flagged_frame:
  assumes "hdr_flags (fr_header f) = 0"
  shows "has_syn (snd (add_flag fl f)) \<longleftrightarrow> fl = Syn"
    and "flags_contains (hdr_flags (fr_header (snd (add_flag fl f)))) ACK \<longleftrightarrow> fl = Ack"
  using add_flag_contains [OF assms, of SYN fl] add_flag_contains [OF assms, of ACK fl]
  by (simp_all add: has_syn_def SYN_def ACK_def)

lemma trace_ok_issues:
  assumes "issues s s'" and "trace_ok fl0 (stm_flag (cx_stream s)) (snd (cx_chan s))"
  shows "trace_ok fl0 (stm_flag (cx_stream s')) (snd (cx_chan s'))"
  using assms
  by (cases fl0; cases "opened (snd (cx_chan s)) = []"; cases "snd (cx_chan s) = []")
    (auto simp: issues_def Let_def trace_ok_def flagged_frame split: if_splits)

lemma trace_ok_run:
  assumes "handle_run ops s s'" and "snd (cx_chan s) = []"
  shows "trace_ok (stm_flag (cx_stream s)) (stm_flag (cx_stream s')) (snd (cx_chan s'))"
  using assms
proof (induction rule: handle_run.induct)
  case start
  then show ?case by (simp add: trace_ok_def split: flag.splits)
next
  case (call s t rtt c u)
  then show ?case by (auto intro: trace_ok_issues issues_call)
qed simp

text \<open>
  C21: The flag of a stream goes out at most once, and in its place. Consider every run of a handle, whatever its
  owner calls and whatever the connection does in between, and the frames of all commands it hands to its
  channel in order, the close frames included. Of an outbound stream the first frame that is not a close frame has \<open>SYN\<close> and
  no other frame has it, in particular none of the close frames (one may come before it, when the stream is closed before
  anything was sent); none has \<open>ACK\<close>. Of an inbound stream the very first frame has \<open>ACK\<close>, be it a close
  frame or not, no other has it, and none has \<open>SYN\<close>.
\<close>

theorem flag_sent_once_and_first:
  assumes "handle_run ops s s'" and "snd (cx_chan s) = []"
  shows "\<exists>closes rest. snd (cx_chan s') = closes @ rest \<and> (\<forall>c \<in> set closes. is_close c) \<and> (rest \<noteq> [] \<longrightarrow> \<not> is_close (hd rest)) \<and>
    (let wire = map (command_frame (stm_id (cx_stream s)))
     in case stm_flag (cx_stream s) of
       Syn \<Rightarrow> first_only (map has_syn (wire rest)) \<and> (\<forall>f \<in> set (wire closes). \<not> has_syn f)
         \<and> (\<forall>f \<in> set (wire (closes @ rest)). \<not> has_ack f)
     | Ack \<Rightarrow> first_only (map has_ack (wire (closes @ rest))) \<and> (\<forall>f \<in> set (wire (closes @ rest)). \<not> has_syn f)
     | NoFlag \<Rightarrow> (\<forall>f \<in> set (wire (closes @ rest)). \<not> has_ack f \<and> \<not> has_syn f))"
proof -
  let ?l = "snd (cx_chan s')"
  have "\<forall>c \<in> set (takeWhile is_close ?l). is_close c" "opened ?l \<noteq> [] \<longrightarrow> \<not> is_close (hd (opened ?l))"
    using hd_dropWhile [of is_close ?l] by (auto simp: opened_def dest: set_takeWhileD)
  moreover from this(1) have "\<forall>c \<in> set (takeWhile is_close ?l). \<not> gives_syn c"
    using gives_syn.simps(2) is_close.simps(1) by (metis gives_syn.elims(2))
  moreover have "?l = takeWhile is_close ?l @ opened ?l"
    by (simp add: opened_def)
  moreover note trace_ok_run [OF assms]
  ultimately show ?thesis
    by (intro exI [of _ "takeWhile is_close ?l"] exI [of _ "opened ?l"])
      (auto simp: trace_ok_def comp_def command_frame_flags Let_def split: flag.splits)
qed

definition logged_ctx :: "(sender \<times> stream_command) list logged" where
  "logged_ctx = \<lparr>cx_stream = example_stream, cx_shared = cx_shared example_ctx, cx_acc = 0,
     cx_chan = ([], [])\<rparr>"

lemma logged_write:
  "\<exists>s'. run_call (log_ops queue_ops) None (CallWrite 0 [7]) logged_ctx = Some s'
     \<and> snd (cx_chan s') = [SendFrame \<lparr>fr_header = hdr_syn (header_data 1 1), fr_body = [7]\<rparr>]"
  by (simp add: stream_poll_write_def logged_ctx_def log_ops_def queue_ops_def example_stream_def
      example_ctx_def shared_new_def fc_new_def can_write_def send_window_def DEFAULT_CREDIT_eq
      default_config_def size_defs Let_def consume_send_window_def fc_consume_send_window_def
      checked_sub_def frame_data_def u32_try_from_def add_flag_def send_command_def)

theorem flag_sent_once_and_first_witness:
  "\<exists>s' f. handle_run queue_ops logged_ctx s' \<and> snd (cx_chan s') = [SendFrame f] \<and> has_syn f
     \<and> \<not> gives_ack (SendFrame f)"
proof -
  obtain s' f where s': "run_call (log_ops queue_ops) None (CallWrite 0 [7]) logged_ctx = Some s'"
    and l: "snd (cx_chan s') = [SendFrame f]"
    using logged_write by blast
  have run: "handle_run queue_ops logged_ctx s'"
    by (rule handle_run.call [OF handle_run.start s'])
  have "snd (cx_chan logged_ctx) = []" "stm_flag (cx_stream logged_ctx) = Syn"
    by (simp_all add: logged_ctx_def example_stream_def)
  with flag_sent_once_and_first [OF run] l obtain closes rest where
    "[SendFrame f] = closes @ rest" "\<forall>c \<in> set closes. is_close c"
    "first_only (map has_syn (map (command_frame 1) rest))" "\<forall>f \<in> set (map (command_frame 1) (closes @ rest)). \<not> has_ack f"
    by (auto simp: logged_ctx_def example_stream_def Let_def)
  then have "has_syn f \<and> \<not> gives_ack (SendFrame f)"
    by (auto simp: Cons_eq_append_conv has_ack_def)
  with run l show ?thesis by blast
qed

text \<open>
  An outbound stream that is closed before anything was sent on it: its first frame has \<open>FIN\<close> and no \<open>SYN\<close>, so
  that the remote does not know the stream it closes.
\<close>

lemma close_before_syn:
  "\<exists>s'. handle_run queue_ops logged_ctx s' \<and> snd (cx_chan s') = [CloseStream False] \<and> stm_flag (cx_stream s') = Syn
     \<and> \<not> has_syn (command_frame 1 (CloseStream False))"
proof -
  obtain s' where s': "run_call (log_ops queue_ops) None (CallClose 0) logged_ctx = Some s'"
    "snd (cx_chan s') = [CloseStream False]" "stm_flag (cx_stream s') = Syn"
    by (simp add: stream_poll_close_def is_closed_def logged_ctx_def log_ops_def queue_ops_def example_stream_def
        example_ctx_def shared_new_def send_command_def Let_def)
  with handle_run.call [OF handle_run.start s'(1)] show ?thesis
    by (auto simp: command_frame_flags simp del: command_frame.simps)
qed

end
