(* ===== verification/Tagged_Stream.thy ===== *)
theory Tagged_Stream
  imports Rust_Prelude
begin

text \<open>
  \<open>TaggedStream\<close> (\<^verbatim>\<open>yamux/src/tagged_stream.rs\<close>): a stream that yields its key with every item, and
  reports the end of the inner stream once as an item before it ends itself. The inner stream is a
  parameter: its \<open>poll_next\<close> on a state \<open>'s\<close>.
\<close>

record ('k, 's) tagged =
  ts_key :: 'k
  ts_inner :: 's
  ts_reported_none :: bool

definition tagged_new :: "'k \<Rightarrow> 's \<Rightarrow> ('k, 's) tagged" where
  "tagged_new k s = \<lparr>ts_key = k, ts_inner = s, ts_reported_none = False\<rparr>"

text \<open>A write through \<open>inner_mut\<close>.\<close>

definition tagged_inner_mut :: "('s \<Rightarrow> 's) \<Rightarrow> ('k, 's) tagged \<Rightarrow> ('k, 's) tagged" where
  "tagged_inner_mut f t = t\<lparr>ts_inner := f (ts_inner t)\<rparr>"

definition tagged_poll_next ::
    "(waker \<Rightarrow> 's \<Rightarrow> 'i option poll \<times> 's) \<Rightarrow> waker \<Rightarrow> ('k, 's) tagged \<Rightarrow>
       ('k \<times> 'i option) option poll \<times> ('k, 's) tagged" where
  "tagged_poll_next inner cx t =
     (if ts_reported_none t then (Ready None, t)
      else
        case inner cx (ts_inner t) of
          (Pending, s) \<Rightarrow> (Pending, t\<lparr>ts_inner := s\<rparr>)
        | (Ready (Some item), s) \<Rightarrow> (Ready (Some (ts_key t, Some item)), t\<lparr>ts_inner := s\<rparr>)
        | (Ready None, s) \<Rightarrow>
            (Ready (Some (ts_key t, None)), t\<lparr>ts_inner := s, ts_reported_none := True\<rparr>))"

text \<open>The results of polling a stream again and again.\<close>

fun poll_all :: "(waker \<Rightarrow> 's \<Rightarrow> 'r poll \<times> 's) \<Rightarrow> waker list \<Rightarrow> 's \<Rightarrow> 'r poll list" where
  "poll_all p [] s = []"
| "poll_all p (cx # cxs) s = (let (r, s) = p cx s in r # poll_all p cxs s)"

text \<open>What tagging makes of the results of the inner stream.\<close>

fun tag_results :: "'k \<Rightarrow> 'i option poll list \<Rightarrow> ('k \<times> 'i option) option poll list" where
  "tag_results k [] = []"
| "tag_results k (Pending # rs) = Pending # tag_results k rs"
| "tag_results k (Ready (Some i) # rs) = Ready (Some (k, Some i)) # tag_results k rs"
| "tag_results k (Ready None # rs) = Ready (Some (k, None)) # replicate (length rs) (Ready None)"

lemma poll_all_reported:
  "ts_reported_none t \<Longrightarrow>
     poll_all (tagged_poll_next inner) cxs t = replicate (length cxs) (Ready None)"
  by (induction cxs) (simp_all add: tagged_poll_next_def)

lemma length_poll_all [simp]: "length (poll_all p cxs s) = length cxs"
  by (induction cxs arbitrary: s) (simp_all split: prod.splits)

lemma tagged_poll_next_step:
  assumes "\<not> ts_reported_none t" and "inner cx (ts_inner t) = (r, s)"
  shows "tagged_poll_next inner cx t =
    (case r of
       Pending \<Rightarrow> (Pending, t\<lparr>ts_inner := s\<rparr>)
     | Ready (Some item) \<Rightarrow> (Ready (Some (ts_key t, Some item)), t\<lparr>ts_inner := s\<rparr>)
     | Ready None \<Rightarrow> (Ready (Some (ts_key t, None)), t\<lparr>ts_inner := s, ts_reported_none := True\<rparr>))"
  using assms by (auto simp: tagged_poll_next_def split: poll.splits option.splits)

lemma poll_all_tagged:
  "\<not> ts_reported_none t \<Longrightarrow>
     poll_all (tagged_poll_next inner) cxs t = tag_results (ts_key t) (poll_all inner cxs (ts_inner t))"
proof (induction cxs arbitrary: t)
  case (Cons cx cxs)
  obtain r s where "inner cx (ts_inner t) = (r, s)"
    by fastforce
  with Cons show ?case
    by (auto simp: tagged_poll_next_step poll_all_reported split: option.splits poll.splits)
qed simp

text \<open>
  C31: However often a tagged stream is polled, its results are those of the inner stream with the
  key added, until the inner stream ends: that is reported exactly once, as the item \<open>(key, None)\<close>,
  and from then on the tagged stream has ended and no longer polls the inner one.
\<close>

theorem tagged_stream_reports_end_once:
  "poll_all (tagged_poll_next inner) cxs (tagged_new k s) = tag_results k (poll_all inner cxs s)"
  by (simp add: poll_all_tagged tagged_new_def)

end
