(* ===== verification/Command_Channel.thy ===== *)
theory Command_Channel
  imports Stream_Trace Tagged_Stream "HOL-Library.Multiset"
begin

text \<open>
  The channels between the stream handles and the connection. Each stream has an \<open>mpsc\<close> channel
  whose receiver, tagged with the stream's id, is one of the streams of a \<open>SelectAll\<close>; both types
  are of the \<open>futures\<close> crate and a parameter of the model, the record \<open>'ch mux_ops\<close>. What the
  connection relies on is the locale \<open>command_mux\<close>: nothing comes out that was not put in, nothing
  is delivered twice, and the end of a channel is reported once.
\<close>

record 'ch mux_ops = "'ch chan_ops" +
  mx_channel :: "u32 \<Rightarrow> 'ch \<Rightarrow> sender \<times> 'ch"
  mx_clone :: "sender \<Rightarrow> 'ch \<Rightarrow> sender \<times> 'ch"
  mx_drop :: "sender \<Rightarrow> 'ch \<Rightarrow> 'ch"
  mx_poll_next :: "waker \<Rightarrow> 'ch \<Rightarrow> (u32 \<times> stream_command option) option poll \<times> 'ch"
  mx_close_all :: "'ch \<Rightarrow> 'ch"
  mx_drop_all :: "'ch \<Rightarrow> 'ch"

text \<open>
  \<open>mx_channel sid\<close> makes a channel and pushes its receiver, tagged with \<open>sid\<close>, to the \<open>SelectAll\<close>;
  \<open>mx_clone\<close> and \<open>mx_drop\<close> clone and drop a sender; \<open>mx_poll_next\<close> is \<open>poll_next\<close> of the
  \<open>SelectAll\<close>; \<open>mx_close_all\<close> closes every receiver and \<open>mx_drop_all\<close> drops them all.
\<close>

fun cmd_ok :: "stream_command \<Rightarrow> bool" where
  "cmd_ok (SendFrame f) \<longleftrightarrow> frame_ok f \<and> hdr_tag (fr_header f) \<in> {Data, WindowUpdate}"
| "cmd_ok (CloseStream _) \<longleftrightarrow> True"

subsection \<open>What a handle relies on\<close>

locale command_sender =
  fixes ops :: "('ch, 'z) chan_ops_scheme"
    and queued :: "'ch \<Rightarrow> stream_command multiset"
  assumes ready_queued: "queued (snd (ch_poll_ready ops tx cx ch)) = queued ch"
    and flush_queued: "queued (snd (ch_poll_flush ops tx cx ch)) = queued ch"
    and send_queued: "queued (snd (ch_start_send ops tx c ch)) =
      (case fst (ch_start_send ops tx c ch) of Ok _ \<Rightarrow> add_mset c (queued ch) | Err _ \<Rightarrow> queued ch)"
begin

text \<open>What is queued after an operation: what was, and well-formed commands.\<close>

definition adds_ok :: "'ch \<Rightarrow> 'ch \<Rightarrow> bool" where
  "adds_ok ch ch' \<longleftrightarrow> (\<exists>new. queued ch' = queued ch + new \<and> (\<forall>c \<in># new. cmd_ok c))"

lemma adds_ok_refl: "queued ch' = queued ch \<Longrightarrow> adds_ok ch ch'"
  by (simp add: adds_ok_def)

lemma idle_queued: "idle_chan ops ch ch' \<Longrightarrow> queued ch' = queued ch"
  by (auto simp: idle_chan_def ready_queued flush_queued)

lemma adds_ok_send:
  assumes "cmd_ok c" and "queued ch1 = queued ch"
  shows "adds_ok ch (snd (ch_start_send ops tx c ch1))"
  using assms send_queued [of tx c ch1]
  by (cases "fst (ch_start_send ops tx c ch1)") (auto simp: adds_ok_def intro: exI [of _ "{#c#}"])

lemma run_call_adds_ok:
  assumes "run_call ops rtt c s = Some s'"
  shows "adds_ok (cx_chan s) (cx_chan s')"
proof -
  have send: "adds_ok (cx_chan s) (cx_chan s')"
    if "idle_chan ops (cx_chan s) ch" "ch_start_send ops tx c ch = (r, cx_chan s')" "cmd_ok c" for ch tx c r
    using adds_ok_send [OF that(3) idle_queued [OF that(1)], of tx] that(2) by simp
  from sends_call [OF assms] show ?thesis
  proof cases
    case idle
    then show ?thesis by (simp add: adds_ok_refl idle_queued)
  next
    case (frame ch tx f r)
    then show ?thesis by (intro send [OF frame(1,8)]) auto
  next
    case (close ch tx r)
    then show ?thesis by (intro send [OF close(1,4)]) simp
  qed
qed

end

interpretation user_queue: command_sender queue_ops "\<lambda>q. image_mset snd (mset q)"
  by unfold_locales (simp_all add: queue_ops_def)

subsection \<open>What the connection relies on\<close>

locale command_mux = command_sender ops queued
  for ops :: "('ch, 'z) mux_ops_scheme"
    and queued :: "'ch \<Rightarrow> stream_command multiset" +
  fixes ends :: "'ch \<Rightarrow> nat"
  assumes poll_next_item: "mx_poll_next ops cx ch = (Ready (Some (sid, Some c)), ch') \<Longrightarrow>
      queued ch = add_mset c (queued ch') \<and> ends ch' = ends ch"
    and poll_next_end: "mx_poll_next ops cx ch = (Ready (Some (sid, None)), ch') \<Longrightarrow>
      queued ch' = queued ch \<and> Suc (ends ch') = ends ch"
    and poll_next_none: "mx_poll_next ops cx ch = (Ready None, ch') \<Longrightarrow>
      queued ch' = queued ch \<and> ends ch' = ends ch \<and> queued ch = {#}"
    and poll_next_pending: "mx_poll_next ops cx ch = (Pending, ch') \<Longrightarrow>
      queued ch' = queued ch \<and> ends ch' = ends ch"
    and channel_queued: "queued (snd (mx_channel ops sid ch)) = queued ch
      \<and> ends (snd (mx_channel ops sid ch)) = Suc (ends ch)"
    and clone_queued: "queued (snd (mx_clone ops tx ch)) = queued ch
      \<and> ends (snd (mx_clone ops tx ch)) = ends ch"
    and drop_queued: "queued (mx_drop ops tx ch) = queued ch \<and> ends (mx_drop ops tx ch) = ends ch"
    and close_queued: "queued (mx_close_all ops ch) = queued ch \<and> ends (mx_close_all ops ch) = ends ch"
    and drop_all_queued: "queued (mx_drop_all ops ch) \<subseteq># queued ch"
begin

text \<open>How many items the receivers can still yield without a further command.\<close>

definition backlog :: "'ch \<Rightarrow> nat" where
  "backlog ch = size (queued ch) + ends ch"

lemma poll_next_backlog:
  assumes "mx_poll_next ops cx ch = (r, ch')"
  shows "case r of Ready (Some _) \<Rightarrow> Suc (backlog ch') = backlog ch | _ \<Rightarrow> backlog ch' = backlog ch"
proof (cases r)
  case Pending
  with assms show ?thesis
    by (simp add: backlog_def poll_next_pending)
next
  case (Ready x)
  show ?thesis
  proof (cases x)
    case None
    with assms Ready show ?thesis
      by (simp add: backlog_def poll_next_none)
  next
    case (Some y)
    with assms Ready show ?thesis
      by (cases "snd y"; cases y) (auto simp: backlog_def dest: poll_next_item poll_next_end)
  qed
qed

lemma poll_next_cmd_ok:
  assumes "mx_poll_next ops cx ch = (r, ch')" and "\<forall>c \<in># queued ch. cmd_ok c"
  shows "(\<forall>c \<in># queued ch'. cmd_ok c) \<and> (\<forall>sid c. r = Ready (Some (sid, Some c)) \<longrightarrow> cmd_ok c)"
proof -
  consider "r = Pending" | "r = Ready None" | sid where "r = Ready (Some (sid, None))"
    | sid c where "r = Ready (Some (sid, Some c))"
    by (metis option.exhaust poll.exhaust surj_pair)
  then show ?thesis
    using assms
    by cases (auto dest: poll_next_item poll_next_end poll_next_none poll_next_pending)
qed

end

subsection \<open>What the shutdown of a connection relies on\<close>

text \<open>The items the receivers yield, one after another, until they have nothing more to give.\<close>

inductive drains ::
    "('ch, 'z) mux_ops_scheme \<Rightarrow> waker \<Rightarrow> 'ch \<Rightarrow> (u32 \<times> stream_command option) list \<Rightarrow> 'ch \<Rightarrow> bool"
  for ops cx where
  drained: "mx_poll_next ops cx ch = (Ready None, ch') \<Longrightarrow> drains ops cx ch [] ch'"
| blocked: "mx_poll_next ops cx ch = (Pending, ch') \<Longrightarrow> drains ops cx ch [] ch'"
| item: "mx_poll_next ops cx ch = (Ready (Some x), ch1) \<Longrightarrow> drains ops cx ch1 xs ch' \<Longrightarrow>
    drains ops cx ch (x # xs) ch'"

text \<open>The commands among them.\<close>

fun commands_of :: "(u32 \<times> stream_command option) list \<Rightarrow> stream_command list" where
  "commands_of [] = []"
| "commands_of ((_, Some c) # xs) = c # commands_of xs"
| "commands_of ((_, None) # xs) = commands_of xs"

text \<open>
  A closed receiver takes no further command and yields what was sent before; receivers that are
  all closed are never merely waiting.
\<close>

locale closing_mux = command_mux ops queued ends
  for ops :: "('ch, 'z) mux_ops_scheme"
    and queued :: "'ch \<Rightarrow> stream_command multiset"
    and ends :: "'ch \<Rightarrow> nat" +
  fixes all_closed :: "'ch \<Rightarrow> bool"
  assumes close_all: "all_closed (mx_close_all ops ch)"
    and poll_next_closed: "all_closed ch \<Longrightarrow> all_closed (snd (mx_poll_next ops cx ch))"
    and closed_pending: "all_closed ch \<Longrightarrow> mx_poll_next ops cx ch = (Pending, ch') \<Longrightarrow> queued ch = {#}"
begin

lemma drains_all:
  assumes "drains ops cx ch xs ch'" and "all_closed ch"
  shows "mset (commands_of xs) = queued ch \<and> queued ch' = {#}"
  using assms
proof (induction rule: drains.induct)
  case (drained ch ch')
  then show ?case by (simp add: poll_next_none)
next
  case (blocked ch ch')
  then show ?case using closed_pending [of ch cx ch'] by (simp add: poll_next_pending)
next
  case (item ch x ch1 xs ch')
  then have "all_closed ch1"
    using poll_next_closed [of ch cx] by simp
  moreover obtain sid co where "x = (sid, co)"
    by (rule prod.exhaust)
  ultimately show ?case
    using item poll_next_item [of cx ch sid _ ch1] poll_next_end [of cx ch sid ch1] by (cases co) auto
qed

end

subsection \<open>A reference implementation\<close>

text \<open>
  Channels as lists, with the tagged streams of the previous theory: the receivers are polled in
  the order in which they were pushed, one that has ended is removed. A channel takes ten commands
  before it is full.
\<close>

record receiver =
  rc_queue :: "stream_command list"
  rc_senders :: "sender list"
  rc_closed :: bool

record chans =
  cs_rx :: "(u32, receiver) tagged list"
  cs_next :: sender

definition receiver_poll_next :: "waker \<Rightarrow> receiver \<Rightarrow> stream_command option poll \<times> receiver" where
  "receiver_poll_next cx r =
     (case rc_queue r of
        c # q \<Rightarrow> (Ready (Some c), r\<lparr>rc_queue := q\<rparr>)
      | [] \<Rightarrow> (if rc_closed r \<or> rc_senders r = [] then Ready None else Pending, r))"

definition owns :: "sender \<Rightarrow> (u32, receiver) tagged \<Rightarrow> bool" where
  "owns tx t \<longleftrightarrow> tx \<in> set (rc_senders (ts_inner t)) \<and> \<not> rc_closed (ts_inner t) \<and> \<not> ts_reported_none t"

fun send_to :: "sender \<Rightarrow> stream_command \<Rightarrow> (u32, receiver) tagged list \<Rightarrow>
    (unit, unit) result \<times> (u32, receiver) tagged list" where
  "send_to tx c [] = (Err (), [])"
| "send_to tx c (t # ts) =
     (if owns tx t then (Ok (), tagged_inner_mut (\<lambda>r. r\<lparr>rc_queue := rc_queue r @ [c]\<rparr>) t # ts)
      else let (r, ts) = send_to tx c ts in (r, t # ts))"

fun select_next :: "waker \<Rightarrow> (u32, receiver) tagged list \<Rightarrow>
    (u32 \<times> stream_command option) option poll \<times> (u32, receiver) tagged list" where
  "select_next cx [] = (Ready None, [])"
| "select_next cx (t # ts) =
     (case tagged_poll_next receiver_poll_next cx t of
        (Ready (Some x), t) \<Rightarrow> (Ready (Some x), t # ts)
      | (Ready None, t) \<Rightarrow> select_next cx ts
      | (Pending, t) \<Rightarrow> (let (r, ts) = select_next cx ts in (if r = Ready None then Pending else r, t # ts)))"

definition list_mux :: "chans mux_ops" where
  "list_mux =
     \<lparr>ch_poll_ready = (\<lambda>tx cx s. (case find (owns tx) (cs_rx s) of
          None \<Rightarrow> Ready (Err ())
        | Some t \<Rightarrow> if length (rc_queue (ts_inner t)) < 10 then Ready (Ok ()) else Pending, s)),
      ch_start_send = (\<lambda>tx c s. let (r, ts) = send_to tx c (cs_rx s) in (r, s\<lparr>cs_rx := ts\<rparr>)),
      ch_is_closed = (\<lambda>tx s. find (owns tx) (cs_rx s) = None),
      ch_poll_flush = (\<lambda>tx cx s. (Ready (Ok ()), s)),
      mx_channel = (\<lambda>sid s. (cs_next s, s\<lparr>cs_next := Suc (cs_next s), cs_rx := cs_rx s @
        [tagged_new sid \<lparr>rc_queue = [], rc_senders = [cs_next s], rc_closed = False\<rparr>]\<rparr>)),
      mx_clone = (\<lambda>tx s. (cs_next s, s\<lparr>cs_next := Suc (cs_next s), cs_rx := map (\<lambda>t.
        if owns tx t then tagged_inner_mut (\<lambda>r. r\<lparr>rc_senders := cs_next s # rc_senders r\<rparr>) t else t) (cs_rx s)\<rparr>)),
      mx_drop = (\<lambda>tx s. s\<lparr>cs_rx := map (tagged_inner_mut (\<lambda>r. r\<lparr>rc_senders := removeAll tx (rc_senders r)\<rparr>)) (cs_rx s)\<rparr>),
      mx_poll_next = (\<lambda>cx s. let (r, ts) = select_next cx (cs_rx s) in (r, s\<lparr>cs_rx := ts\<rparr>)),
      mx_close_all = (\<lambda>s. s\<lparr>cs_rx := map (tagged_inner_mut (\<lambda>r. r\<lparr>rc_closed := True\<rparr>)) (cs_rx s)\<rparr>),
      mx_drop_all = (\<lambda>s. s\<lparr>cs_rx := []\<rparr>)\<rparr>"

definition no_channels :: chans where
  "no_channels = \<lparr>cs_rx = [], cs_next = 0\<rparr>"

text \<open>A receiver that has reported its end yields nothing more: its queue does not count.\<close>

fun rx_queued :: "(u32, receiver) tagged list \<Rightarrow> stream_command multiset" where
  "rx_queued [] = {#}"
| "rx_queued (t # ts) = (if ts_reported_none t then {#} else mset (rc_queue (ts_inner t))) + rx_queued ts"

fun rx_ends :: "(u32, receiver) tagged list \<Rightarrow> nat" where
  "rx_ends [] = 0"
| "rx_ends (t # ts) = (if ts_reported_none t then 0 else 1) + rx_ends ts"

lemma rx_append [simp]:
  "rx_queued (ts @ us) = rx_queued ts + rx_queued us" "rx_ends (ts @ us) = rx_ends ts + rx_ends us"
  by (induction ts) auto

lemma rx_map_cong:
  assumes "\<And>t. ts_reported_none (f t) = ts_reported_none t \<and> rc_queue (ts_inner (f t)) = rc_queue (ts_inner t)"
  shows "rx_queued (map f ts) = rx_queued ts \<and> rx_ends (map f ts) = rx_ends ts"
  using assms by (induction ts) auto

lemma send_to_queued:
  "send_to tx c ts = (r, ts') \<Longrightarrow>
     rx_queued ts' = (case r of Ok _ \<Rightarrow> add_mset c (rx_queued ts) | Err _ \<Rightarrow> rx_queued ts)"
  by (induction ts arbitrary: r ts')
    (auto simp: owns_def tagged_inner_mut_def split: if_splits prod.splits result.splits)

lemma select_next_queued:
  assumes "select_next cx ts = (r, ts')"
  shows "case r of
      Ready (Some (sid, Some c)) \<Rightarrow> rx_queued ts = add_mset c (rx_queued ts') \<and> rx_ends ts' = rx_ends ts
    | Ready (Some (sid, None)) \<Rightarrow> rx_queued ts' = rx_queued ts \<and> Suc (rx_ends ts') = rx_ends ts
    | _ \<Rightarrow> rx_queued ts' = rx_queued ts \<and> rx_ends ts' = rx_ends ts"
  using assms
proof (induction ts arbitrary: r ts')
  case (Cons t ts)
  consider (reported) "ts_reported_none t"
    | (item) c q where "\<not> ts_reported_none t" "rc_queue (ts_inner t) = c # q"
    | (empty) "\<not> ts_reported_none t" "rc_queue (ts_inner t) = []"
    by (meson list.exhaust)
  then show ?case
  proof cases
    case reported
    then have "rx_queued (t # ts) = rx_queued ts" "rx_ends (t # ts) = rx_ends ts"
      "select_next cx (t # ts) = select_next cx ts"
      by (simp_all add: tagged_poll_next_def)
    with Cons.IH Cons.prems show ?thesis by (simp only:)
  next
    case item
    with Cons.prems show ?thesis by (auto simp: tagged_poll_next_def receiver_poll_next_def)
  next
    case empty
    obtain r1 ts1 where "select_next cx ts = (r1, ts1)"
      by (rule prod.exhaust)
    with empty Cons.prems Cons.IH [of r1 ts1] show ?thesis
      by (auto simp: tagged_poll_next_def receiver_poll_next_def split: if_splits poll.splits option.splits)
  qed
qed auto

lemma select_next_none: "select_next cx ts = (Ready None, ts') \<Longrightarrow> rx_queued ts = {#}"
proof (induction ts arbitrary: ts')
  case (Cons t ts)
  then show ?case
    by (cases "ts_reported_none t"; cases "rc_queue (ts_inner t)")
      (auto simp: tagged_poll_next_def receiver_poll_next_def split: if_splits prod.splits)
qed simp

interpretation list_mux: command_mux list_mux "\<lambda>s. rx_queued (cs_rx s)" "\<lambda>s. rx_ends (cs_rx s)"
proof (unfold_locales, goal_cases)
  case (3 tx c ch)
  show ?case
    using send_to_queued [of tx c "cs_rx ch"] by (simp add: list_mux_def split: prod.splits)
next
  case (4 cx ch sid c ch')
  then show ?case
    using select_next_queued [of cx "cs_rx ch"] by (auto simp: list_mux_def split: prod.splits)
next
  case (5 cx ch sid ch')
  then show ?case
    using select_next_queued [of cx "cs_rx ch"] by (auto simp: list_mux_def split: prod.splits)
next
  case (6 cx ch ch')
  then show ?case
    using select_next_queued [of cx "cs_rx ch"] select_next_none [of cx "cs_rx ch"]
    by (auto simp: list_mux_def split: prod.splits)
next
  case (7 cx ch ch')
  then show ?case
    using select_next_queued [of cx "cs_rx ch"] by (auto simp: list_mux_def split: prod.splits)
next
  case (9 tx ch)
  show ?case
    by (simp add: list_mux_def) (rule rx_map_cong, simp add: tagged_inner_mut_def)
next
  case (10 tx ch)
  show ?case
    by (simp add: list_mux_def) (rule rx_map_cong, simp add: tagged_inner_mut_def)
next
  case (11 ch)
  show ?case
    by (simp add: list_mux_def) (rule rx_map_cong, simp add: tagged_inner_mut_def)
qed (simp_all add: list_mux_def tagged_new_def)

abbreviation rx_closed :: "(u32, receiver) tagged list \<Rightarrow> bool" where
  "rx_closed ts \<equiv> \<forall>t \<in> set ts. rc_closed (ts_inner t)"

lemma select_next_closed:
  assumes "select_next cx ts = (r, ts')" and "rx_closed ts"
  shows "r \<noteq> Pending \<and> rx_closed ts'"
  using assms
proof (induction ts arbitrary: r ts')
  case (Cons t ts)
  then show ?case
    by (cases "ts_reported_none t"; cases "rc_queue (ts_inner t)")
      (auto simp: tagged_poll_next_def receiver_poll_next_def)
qed auto

interpretation list_mux: closing_mux list_mux "\<lambda>s. rx_queued (cs_rx s)" "\<lambda>s. rx_ends (cs_rx s)"
  "\<lambda>s. rx_closed (cs_rx s)"
proof (unfold_locales, goal_cases)
  case (2 ch cx)
  then show ?case
    using select_next_closed [of cx "cs_rx ch"] by (simp add: list_mux_def split: prod.splits)
next
  case (3 ch cx ch')
  then show ?case
    using select_next_closed [of cx "cs_rx ch"] by (auto simp: list_mux_def split: prod.splits)
qed (simp add: list_mux_def tagged_inner_mut_def)

end
