(* ===== verification/Conn_World.thy ===== *)
theory Conn_World
  imports Command_Channel
begin

text \<open>
  What a connection shares with the handles of its streams: the \<open>Shared\<close> cells behind
  \<open>Arc<Mutex<_>>\<close>, the counter of window memory, the round-trip time, the command channels. A cell is
  an entry of \<open>w_heap\<close>, its address an index; an entry becomes \<open>None\<close> when the last \<open>Arc\<close> to it is
  dropped, which runs the destructor of its flow controller. \<open>w_handles\<close> are the \<open>Stream\<close>s the user
  holds (a \<open>Stream\<close> is not \<open>Clone\<close>, so each has one \<open>Arc\<close>), \<open>w_woken\<close> the tasks woken so
  far by the connection, out of a cell or of its own fields; the tasks a channel parks and wakes are part
  of the channel.
  The clock is a function from the number of readings made so far, counted by \<open>w_ticks\<close>, to times.

  A call on a handle is one step, though the code takes the mutex of the cell more than once in it, and so
  is a call on the connection; such calls interleave.
\<close>

record 'ch world =
  w_heap :: "shared option list"
  w_acc :: usize
  w_chan :: 'ch
  w_rtt :: rtt
  w_handles :: "stream list"
  w_woken :: "waker list"
  w_ticks :: nat

type_synonym clock = "nat \<Rightarrow> instant"

definition cell :: "nat \<Rightarrow> ('ch, 'z) world_scheme \<Rightarrow> shared run" where
  "cell a s = (if a < length (w_heap s) then w_heap s ! a else None)"

definition put_cell :: "nat \<Rightarrow> shared \<Rightarrow> ('ch, 'z) world_scheme \<Rightarrow> ('ch, 'z) world_scheme" where
  "put_cell a sh s = s\<lparr>w_heap := (w_heap s)[a := Some sh]\<rparr>"

text \<open>One \<open>Arc\<close> to cell \<open>a\<close> is dropped; \<open>refs\<close> are the addresses the remaining ones point to.\<close>

definition arc_drop :: "nat \<Rightarrow> nat list \<Rightarrow> ('ch, 'z) world_scheme \<Rightarrow> ('ch, 'z) world_scheme run" where
  "arc_drop a refs s =
     (if a \<in> set refs then Some s
      else do {
        sh \<leftarrow> cell a s;
        acc \<leftarrow> fc_drop (sh_flow sh) (w_acc s);
        Some (s\<lparr>w_heap := (w_heap s)[a := None], w_acc := acc\<rparr>) })"

text \<open>\<open>Stream::new_inbound\<close> and \<open>Stream::new_outbound\<close>; the result is the user's.\<close>

definition stream_new ::
    "('ch, 'y) mux_ops_scheme \<Rightarrow> clock \<Rightarrow> flag \<Rightarrow> u32 \<Rightarrow> config \<Rightarrow> u32 \<Rightarrow> sender \<Rightarrow>
       ('ch, 'z) world_scheme \<Rightarrow> stream \<times> ('ch, 'z) world_scheme" where
  "stream_new ops clk fl sid cfg credit tx s =
     (let (tx', ch) = mx_clone ops tx (w_chan s);
          st = \<lparr>stm_id = sid, stm_config = cfg, stm_sender = tx, stm_window_update_sender = tx',
                stm_flag = fl, stm_shared = length (w_heap s)\<rparr>
      in (st, s\<lparr>w_chan := ch, w_handles := w_handles s @ [st], w_ticks := Suc (w_ticks s),
               w_heap := w_heap s @ [Some (shared_new DEFAULT_CREDIT credit cfg (clk (w_ticks s)))]\<rparr>))"

definition stream_new_inbound ::
    "('ch, 'y) mux_ops_scheme \<Rightarrow> clock \<Rightarrow> u32 \<Rightarrow> config \<Rightarrow> u32 \<Rightarrow> sender \<Rightarrow>
       ('ch, 'z) world_scheme \<Rightarrow> stream \<times> ('ch, 'z) world_scheme" where
  "stream_new_inbound ops clk = stream_new ops clk Ack"

definition stream_new_outbound ::
    "('ch, 'y) mux_ops_scheme \<Rightarrow> clock \<Rightarrow> u32 \<Rightarrow> config \<Rightarrow> sender \<Rightarrow>
       ('ch, 'z) world_scheme \<Rightarrow> stream \<times> ('ch, 'z) world_scheme" where
  "stream_new_outbound ops clk sid cfg = stream_new ops clk Syn sid cfg DEFAULT_CREDIT"

text \<open>A call on the \<open>i\<close>-th handle.\<close>

definition handle_ctx :: "stream \<Rightarrow> shared \<Rightarrow> ('ch, 'z) world_scheme \<Rightarrow> 'ch sctx" where
  "handle_ctx st sh s = \<lparr>cx_stream = st, cx_shared = sh, cx_acc = w_acc s, cx_chan = w_chan s\<rparr>"

definition handle_call ::
    "('ch, 'y) mux_ops_scheme \<Rightarrow> nat \<Rightarrow> stream_call \<Rightarrow> ('ch, 'z) world_scheme \<Rightarrow>
       ('ch, 'z) world_scheme run" where
  "handle_call ops i c s = do {
     let st = w_handles s ! i;
     sh \<leftarrow> cell (stm_shared st) s;
     x \<leftarrow> run_call ops (rtt_get (w_rtt s)) c (handle_ctx st sh s);
     Some ((put_cell (stm_shared st) (cx_shared x) s)
       \<lparr>w_handles := (w_handles s)[i := cx_stream x], w_acc := cx_acc x, w_chan := cx_chan x\<rparr>) }"

text \<open>
  The \<open>i\<close>-th handle is dropped: its two senders and its \<open>Arc\<close>. \<open>held\<close> are the addresses the
  connection's map points to.
\<close>

definition drop_handle ::
    "('ch, 'y) mux_ops_scheme \<Rightarrow> nat list \<Rightarrow> nat \<Rightarrow> ('ch, 'z) world_scheme \<Rightarrow>
       ('ch, 'z) world_scheme run" where
  "drop_handle ops held i s =
     (let st = w_handles s ! i;
          hs = take i (w_handles s) @ drop (Suc i) (w_handles s);
          ch = mx_drop ops (stm_window_update_sender st) (mx_drop ops (stm_sender st) (w_chan s))
      in arc_drop (stm_shared st) (held @ map stm_shared hs) (s\<lparr>w_handles := hs, w_chan := ch\<rparr>))"

subsection \<open>Invariant\<close>

abbreviation addresses :: "('ch, 'z) world_scheme \<Rightarrow> nat list" where
  "addresses s \<equiv> map stm_shared (w_handles s)"

definition alive :: "shared option list \<Rightarrow> nat \<Rightarrow> bool" where
  "alive h a \<longleftrightarrow> a < length h \<and> h ! a \<noteq> None"

fun cell_extra :: "shared option \<Rightarrow> nat" where
  "cell_extra None = 0"
| "cell_extra (Some sh) = sh_extra sh"

definition heap_extra :: "shared option list \<Rightarrow> nat" where
  "heap_extra h = sum_list (map cell_extra h)"

definition cell_ok :: "config \<Rightarrow> duration option \<Rightarrow> shared \<Rightarrow> bool" where
  "cell_ok cfg rtt sh \<longleftrightarrow> shared_ok rtt sh \<and> fc_config (sh_flow sh) = cfg"

text \<open>
  The counter is the sum of what the live streams have beyond the default window, and leaves the
  default window of every permitted stream within the limit. The live cells are those referenced.
\<close>

definition world_inv :: "config \<Rightarrow> nat set \<Rightarrow> ('ch, 'z) world_scheme \<Rightarrow> bool" where
  "world_inv cfg refs s \<longleftrightarrow>
     config_ok cfg \<and> max_num_streams cfg * unat DEFAULT_CREDIT + w_acc s \<le> window_limit cfg
     \<and> w_acc s = heap_extra (w_heap s) \<and> rtt_ok (rtt_get (w_rtt s))
     \<and> (\<forall>sh. Some sh \<in> set (w_heap s) \<longrightarrow>
          cell_ok cfg (rtt_get (w_rtt s)) sh \<and> 0 < max_num_streams cfg)
     \<and> (\<forall>a. alive (w_heap s) a \<longleftrightarrow> a \<in> refs)"

text \<open>With \<open>held\<close> the addresses in the connection's map; each handle has its own cell.\<close>

definition world_ok :: "config \<Rightarrow> nat list \<Rightarrow> ('ch, 'z) world_scheme \<Rightarrow> bool" where
  "world_ok cfg held s \<longleftrightarrow>
     world_inv cfg (set held \<union> set (addresses s)) s \<and> distinct (addresses s)"

lemma heap_extra_update:
  "a < length h \<Longrightarrow> heap_extra (h[a := x]) + cell_extra (h ! a) = heap_extra h + cell_extra x"
  using sum_list_update [of a "map cell_extra h" "cell_extra x"]
    member_le_sum_list [of "cell_extra (h ! a)" "map cell_extra h"]
  by (simp add: heap_extra_def map_update)

lemma cell_Some: "cell a s = Some sh \<longleftrightarrow> a < length (w_heap s) \<and> w_heap s ! a = Some sh"
  by (simp add: cell_def)

lemma alive_cell: "alive (w_heap s) a \<longleftrightarrow> (\<exists>sh. cell a s = Some sh)"
  by (auto simp: alive_def cell_def)

lemma cell_fields [simp]:
  "cell a (s\<lparr>w_acc := x1\<rparr>) = cell a s" "cell a (s\<lparr>w_chan := x2\<rparr>) = cell a s"
  "cell a (s\<lparr>w_rtt := x3\<rparr>) = cell a s" "cell a (s\<lparr>w_handles := x4\<rparr>) = cell a s"
  "cell a (s\<lparr>w_woken := x5\<rparr>) = cell a s" "cell a (s\<lparr>w_ticks := x6\<rparr>) = cell a s"
  by (simp_all add: cell_def)

lemma cell_put_cell: "a < length (w_heap s) \<Longrightarrow> cell b (put_cell a sh s) = (if b = a then Some sh else cell b s)"
  by (simp add: cell_def put_cell_def)

lemma put_cell_fields [simp]:
  "w_acc (put_cell a sh s) = w_acc s" "w_chan (put_cell a sh s) = w_chan s"
  "w_rtt (put_cell a sh s) = w_rtt s" "w_handles (put_cell a sh s) = w_handles s"
  "w_woken (put_cell a sh s) = w_woken s" "w_ticks (put_cell a sh s) = w_ticks s"
  "length (w_heap (put_cell a sh s)) = length (w_heap s)"
  by (simp_all add: put_cell_def)

lemma cell_extra_le: "cell a s = Some sh \<Longrightarrow> sh_extra sh \<le> heap_extra (w_heap s)"
  using elem_le_sum_list [of a "map cell_extra (w_heap s)"]
  by (auto simp: cell_Some heap_extra_def)

lemma world_inv_cell:
  assumes "world_inv cfg refs s" and "a \<in> refs"
  shows "\<exists>sh. cell a s = Some sh \<and> cell_ok cfg (rtt_get (w_rtt s)) sh \<and> sh_extra sh \<le> w_acc s
    \<and> 0 < max_num_streams cfg"
proof -
  obtain sh where sh: "cell a s = Some sh"
    using assms by (auto simp: world_inv_def alive_cell)
  then have "Some sh \<in> set (w_heap s)"
    by (auto simp: cell_Some in_set_conv_nth)
  with sh cell_extra_le [OF sh] assms(1) show ?thesis
    by (auto simp: world_inv_def)
qed

text \<open>Replacing a cell, with the counter moved along.\<close>

lemma world_inv_put:
  assumes "world_inv cfg refs s" and "cell a s = Some sh" and "cell_ok cfg (rtt_get (w_rtt s)) sh'"
    and "acc + sh_extra sh = w_acc s + sh_extra sh'"
    and "max_num_streams cfg * unat DEFAULT_CREDIT + acc \<le> window_limit cfg"
  shows "world_inv cfg refs ((put_cell a sh' s)\<lparr>w_acc := acc\<rparr>)"
proof -
  have a: "a < length (w_heap s)" "w_heap s ! a = Some sh"
    using assms(2) by (auto simp: cell_Some)
  then have "0 < max_num_streams cfg" "heap_extra ((w_heap s)[a := Some sh']) = acc"
    using assms(1,4) heap_extra_update [OF a(1), of "Some sh'"] nth_mem [OF a(1)]
    by (auto simp: world_inv_def)
  with assms a show ?thesis
    by (auto simp: world_inv_def put_cell_def alive_def nth_list_update dest!: set_update_subset_insert [THEN subsetD])
qed

lemma world_inv_put_same:
  assumes "world_inv cfg refs s" and "cell a s = Some sh" and "cell_ok cfg (rtt_get (w_rtt s)) sh'"
    and "sh_extra sh' = sh_extra sh"
  shows "world_inv cfg refs (put_cell a sh' s)"
  using world_inv_put [OF assms(1-3), of "w_acc s"] assms(1,4) by (simp add: world_inv_def put_cell_def)

lemma world_inv_arc_drop:
  assumes "world_inv cfg (insert a (set refs)) s"
  shows "\<exists>h acc. arc_drop a refs s = Some (s\<lparr>w_heap := h, w_acc := acc\<rparr>)
    \<and> world_inv cfg (set refs) (s\<lparr>w_heap := h, w_acc := acc\<rparr>)
    \<and> length h = length (w_heap s)
    \<and> (\<forall>b. cell b (s\<lparr>w_heap := h, w_acc := acc\<rparr>) = (if b = a \<and> a \<notin> set refs then None else cell b s))"
proof (cases "a \<in> set refs")
  case True
  with assms show ?thesis
    by (intro exI [of _ "w_heap s"] exI [of _ "w_acc s"]) (simp add: arc_drop_def insert_absorb)
next
  case False
  from world_inv_cell [OF assms, of a] obtain sh where sh: "cell a s = Some sh"
    "cell_ok cfg (rtt_get (w_rtt s)) sh" "sh_extra sh \<le> w_acc s"
    by auto
  then have a: "a < length (w_heap s)" "w_heap s ! a = Some sh"
    by (auto simp: cell_Some)
  let ?s = "s\<lparr>w_heap := (w_heap s)[a := None], w_acc := w_acc s - sh_extra sh\<rparr>"
  have "fc_drop (sh_flow sh) (w_acc s) = Some (w_acc s - sh_extra sh)"
    using sh(2,3) by (intro fc_drop_ok) (auto simp: cell_ok_def shared_ok_def fc_ok_def)
  with False sh(1) have "arc_drop a refs s = Some ?s"
    by (simp add: arc_drop_def)
  moreover have "heap_extra ((w_heap s)[a := None]) = w_acc s - sh_extra sh"
    using assms heap_extra_update [OF a(1), of None] a(2) by (simp add: world_inv_def)
  then have "world_inv cfg (set refs) ?s"
    using assms a False
    by (auto simp: world_inv_def alive_def nth_list_update dest!: set_update_subset_insert [THEN subsetD])
  moreover have "\<forall>b. cell b ?s = (if b = a \<and> a \<notin> set refs then None else cell b s)"
    using False by (simp add: cell_def)
  ultimately show ?thesis
    by (intro exI [of _ "(w_heap s)[a := None]"] exI [of _ "w_acc s - sh_extra sh"]) simp
qed

text \<open>Fields the invariant does not read.\<close>

lemma world_inv_fields [simp]:
  "world_inv cfg refs (s\<lparr>w_chan := x2\<rparr>) = world_inv cfg refs s"
  "world_inv cfg refs (s\<lparr>w_handles := x4\<rparr>) = world_inv cfg refs s"
  "world_inv cfg refs (s\<lparr>w_woken := x5\<rparr>) = world_inv cfg refs s"
  "world_inv cfg refs (s\<lparr>w_ticks := x6\<rparr>) = world_inv cfg refs s"
  by (simp_all add: world_inv_def)

lemma world_ok_fields [simp]:
  "world_ok cfg held (s\<lparr>w_chan := x2\<rparr>) = world_ok cfg held s"
  "world_ok cfg held (s\<lparr>w_woken := x5\<rparr>) = world_ok cfg held s"
  "world_ok cfg held (s\<lparr>w_ticks := x6\<rparr>) = world_ok cfg held s"
  by (simp_all add: world_ok_def)

lemma world_ok_rtt:
  assumes "world_ok cfg held s" and "rtt_value r = rtt_value (w_rtt s) \<or> rtt_value r \<noteq> None \<and> rtt_ok (rtt_value r)"
  shows "world_ok cfg held (s\<lparr>w_rtt := r\<rparr>)"
proof -
  have "shared_ok (rtt_value r) sh" if "shared_ok (rtt_value (w_rtt s)) sh" for sh
    using that assms(2) shared_ok_rtt_mono [OF that] by auto
  moreover have "rtt_ok (rtt_value r)"
    using assms by (auto simp: world_ok_def world_inv_def rtt_get_def)
  ultimately show ?thesis
    using assms(1) by (simp add: world_ok_def world_inv_def cell_ok_def rtt_get_def)
qed

lemma fresh_address:
  assumes "world_inv cfg refs s"
  shows "length (w_heap s) \<notin> refs"
  using assms by (auto simp: world_inv_def alive_def)

lemma world_inv_alloc:
  assumes "world_inv cfg refs s" and "cell_ok cfg (rtt_get (w_rtt s)) sh" and "sh_extra sh = 0"
    and "0 < max_num_streams cfg"
  shows "world_inv cfg (insert (length (w_heap s)) refs) (s\<lparr>w_heap := w_heap s @ [Some sh]\<rparr>)"
  using assms by (auto simp: world_inv_def heap_extra_def alive_def nth_append less_Suc_eq)

lemma stream_new_ok:
  assumes "world_ok cfg held s" and "0 < max_num_streams cfg"
    and "stream_new ops clk fl sid cfg credit tx s = (st, s')"
  shows "world_ok cfg held s' \<and> stm_shared st = length (w_heap s) \<and> stm_id st = sid
    \<and> stm_flag st = fl \<and> w_handles s' = w_handles s @ [st]
    \<and> (\<forall>a < length (w_heap s). cell a s' = cell a s)
    \<and> length (w_heap s') = Suc (length (w_heap s))
    \<and> cell (stm_shared st) s' = Some (shared_new DEFAULT_CREDIT credit cfg (clk (w_ticks s)))"
proof -
  let ?sh = "shared_new DEFAULT_CREDIT credit cfg (clk (w_ticks s))"
  let ?R = "set held \<union> set (addresses s)"
  have inv: "world_inv cfg ?R s"
    using assms(1) by (simp add: world_ok_def)
  have "world_inv cfg (insert (length (w_heap s)) ?R) (s\<lparr>w_heap := w_heap s @ [Some ?sh]\<rparr>)"
    using shared_new_ok assms(2) by (intro world_inv_alloc inv) (simp_all add: cell_ok_def)
  then have "world_inv cfg (insert (length (w_heap s)) ?R) s'"
    using assms(3) by (auto simp: stream_new_def Let_def world_inv_def split: prod.splits)
  with assms fresh_address [OF inv] show ?thesis
    by (auto simp: stream_new_def Let_def world_ok_def cell_def nth_append split: prod.splits)
qed

lemma ctx_ok_cell:
  assumes "world_inv cfg refs s" and "a \<in> refs" and "cell a s = Some sh"
  shows "ctx_ok (rtt_get (w_rtt s)) (handle_ctx st sh s)"
  using assms world_inv_cell [OF assms(1,2)]
  by (auto simp: ctx_ok_def handle_ctx_def acc_ok_def cell_ok_def world_inv_def)

text \<open>What a step may do to the cells that others hold: nothing but move their state up.\<close>

definition states_up :: "('ch, 'z) world_scheme \<Rightarrow> ('ch, 'y) world_scheme \<Rightarrow> bool" where
  "states_up s s' \<longleftrightarrow> length (w_heap s) \<le> length (w_heap s') \<and>
     (\<forall>a sh sh'. cell a s = Some sh \<longrightarrow> cell a s' = Some sh' \<longrightarrow> sh_state sh \<le> sh_state sh')"

lemma handle_call_ok:
  assumes "world_ok cfg held s" and "i < length (w_handles s)" and "call_ok c"
  shows "\<exists>s'. handle_call ops i c s = Some s' \<and> world_ok cfg held s' \<and> states_up s s'
    \<and> addresses s' = addresses s \<and> w_woken s' = w_woken s \<and> w_rtt s' = w_rtt s"
proof -
  let ?st = "w_handles s ! i" and ?R = "set held \<union> set (addresses s)" and ?rtt = "rtt_get (w_rtt s)"
  have inv: "world_inv cfg ?R s" and a: "stm_shared ?st \<in> ?R"
    using assms(1,2) by (auto simp: world_ok_def)
  obtain sh where sh: "cell (stm_shared ?st) s = Some sh" "cell_ok cfg ?rtt sh"
    using world_inv_cell [OF inv a] by blast
  obtain x where x: "run_call ops ?rtt c (handle_ctx ?st sh s) = Some x"
    and step: "ctx_step ?rtt (handle_ctx ?st sh s) x"
    using run_call_ok [OF ctx_ok_cell [OF inv a sh(1)] assms(3)] by blast
  let ?s1 = "(put_cell (stm_shared ?st) (cx_shared x) s)\<lparr>w_acc := cx_acc x\<rparr>"
  have cfg: "fc_config (sh_flow sh) = cfg"
    using sh(2) by (simp add: cell_ok_def)
  have "world_inv cfg ?R ?s1"
  proof (rule world_inv_put [OF inv sh(1)])
    show "cell_ok cfg ?rtt (cx_shared x)" "cx_acc x + sh_extra sh = w_acc s + sh_extra (cx_shared x)"
      "max_num_streams cfg * unat DEFAULT_CREDIT + cx_acc x \<le> window_limit cfg"
      using step cfg by (auto simp: ctx_step_def ctx_ok_def handle_ctx_def cell_ok_def acc_ok_def)
  qed
  moreover from step obtain fl where st: "cx_stream x = ?st\<lparr>stm_flag := fl\<rparr>"
    by (auto simp: ctx_step_def handle_ctx_def)
  then have ad: "map stm_shared ((w_handles s)[i := cx_stream x]) = addresses s"
    using assms(2) by (simp add: map_update list_update_same_conv)
  ultimately have ok: "world_ok cfg held (?s1\<lparr>w_handles := (w_handles s)[i := cx_stream x], w_chan := cx_chan x\<rparr>)"
    using assms(1) by (simp add: world_ok_def)
  let ?s2 = "?s1\<lparr>w_handles := (w_handles s)[i := cx_stream x], w_chan := cx_chan x\<rparr>"
  have "handle_call ops i c s = Some ?s2"
    using sh(1) x by (simp add: handle_call_def put_cell_def)
  moreover have "states_up s ?s2"
    using sh(1) step
    by (auto simp: states_up_def cell_put_cell cell_Some [of "stm_shared ?st"] ctx_step_def handle_ctx_def
        split: if_splits)
  ultimately show ?thesis
    using ok ad by auto
qed

lemma drop_handle_ok:
  assumes "world_ok cfg held s" and "i < length (w_handles s)"
  shows "\<exists>s'. drop_handle ops held i s = Some s' \<and> world_ok cfg held s' \<and> states_up s s'
    \<and> w_woken s' = w_woken s \<and> w_rtt s' = w_rtt s
    \<and> (\<forall>a \<in> set held. cell a s' = cell a s)"
proof -
  let ?st = "w_handles s ! i"
  let ?hs = "take i (w_handles s) @ drop (Suc i) (w_handles s)"
  let ?refs = "held @ map stm_shared ?hs"
  let ?s1 = "s\<lparr>w_handles := ?hs,
    w_chan := mx_drop ops (stm_window_update_sender ?st) (mx_drop ops (stm_sender ?st) (w_chan s))\<rparr>"
  have hs: "w_handles s = take i (w_handles s) @ ?st # drop (Suc i) (w_handles s)"
    using assms(2) by (rule id_take_nth_drop)
  then have ad: "addresses s = map stm_shared (take i (w_handles s)) @ stm_shared ?st #
      map stm_shared (drop (Suc i) (w_handles s))"
    by (metis list.simps(9) map_append)
  have "set held \<union> set (addresses s) = insert (stm_shared ?st) (set ?refs)"
    unfolding ad by auto
  with assms(1) have "world_inv cfg (insert (stm_shared ?st) (set ?refs)) ?s1"
    by (simp add: world_ok_def)
  from world_inv_arc_drop [OF this] obtain h acc where
    d: "arc_drop (stm_shared ?st) ?refs ?s1 = Some (?s1\<lparr>w_heap := h, w_acc := acc\<rparr>)"
      "world_inv cfg (set ?refs) (?s1\<lparr>w_heap := h, w_acc := acc\<rparr>)" "length h = length (w_heap ?s1)"
    and c: "\<forall>b. cell b (?s1\<lparr>w_heap := h, w_acc := acc\<rparr>)
        = (if b = stm_shared ?st \<and> stm_shared ?st \<notin> set ?refs then None else cell b ?s1)"
    by blast
  have "distinct (map stm_shared ?hs)"
    using assms(1) unfolding world_ok_def ad by simp
  with d have "world_ok cfg held (?s1\<lparr>w_heap := h, w_acc := acc\<rparr>)"
    by (simp add: world_ok_def)
  moreover have "drop_handle ops held i s = Some (?s1\<lparr>w_heap := h, w_acc := acc\<rparr>)"
    using d(1) by (simp add: drop_handle_def Let_def)
  ultimately show ?thesis
    using c d(3) by (intro exI [of _ "?s1\<lparr>w_heap := h, w_acc := acc\<rparr>"]) (auto simp: states_up_def split: if_splits)
qed

end
