(* ===== verification/Frame_Io.thy ===== *)
theory Frame_Io
  imports Frames
begin

text \<open>
  The framed transport of \<^verbatim>\<open>yamux/src/frame/io.rs\<close>: \<open>Io<T>\<close> writes frames to and reads frames
  from a byte transport \<open>T: AsyncRead + AsyncWrite\<close>. The transport is a parameter, the record
  \<open>'io io_ops\<close> of its four operations on a state \<open>'io\<close>; what they may assume of it is the
  contract in the locales \<open>byte_sink\<close> and \<open>byte_source\<close>. The two \<open>loop\<close>s are \<open>run_loop\<close> over
  the bodies \<open>write_step\<close> and \<open>read_step\<close>. The connection id, used in log lines only, is left out.
\<close>

record 'io io_ops =
  op_poll_read :: "usize \<Rightarrow> 'io \<Rightarrow> (bytes, io_error) result poll \<times> 'io"
  op_poll_write :: "bytes \<Rightarrow> 'io \<Rightarrow> (usize, io_error) result poll \<times> 'io"
  op_poll_flush :: "'io \<Rightarrow> (unit, io_error) result poll \<times> 'io"
  op_poll_close :: "'io \<Rightarrow> (unit, io_error) result poll \<times> 'io"

text \<open>
  \<open>op_poll_read ops n io\<close> is \<open>poll_read\<close> with a buffer of \<open>n\<close> bytes: it gives the bytes it put at
  the buffer's start, whose number is the returned count.
\<close>

datatype write_state =
  WInit
| WHeader (wh_header: bytes) (wh_buffer: bytes) (wh_offset: usize)
| WBody (wb_buffer: bytes) (wb_offset: usize)
| WPoisoned

datatype read_state =
  RInit
| RHeader (rh_offset: usize) (rh_buffer: bytes)
| RBody (rb_header: header) (rb_offset: usize) (rb_buffer: bytes)

record 'io sock =
  io_inner :: 'io
  sock_read :: read_state
  sock_write :: write_state

definition MAX_FRAME_BODY_LEN :: usize where
  "MAX_FRAME_BODY_LEN = MIB"

definition io_new :: "'io \<Rightarrow> 'io sock" where
  "io_new io = \<lparr>io_inner = io, sock_read = RInit, sock_write = WInit\<rparr>"

subsection \<open>Writing\<close>

text \<open>One round of the loop of \<open>poll_ready\<close>.\<close>

definition write_step ::
    "'io io_ops \<Rightarrow> 'io sock \<Rightarrow> ((unit, io_error) result poll, 'io sock) flow run" where
  "write_step ops s =
     (case sock_write s of
        WInit \<Rightarrow> Some (Return (Ready (Ok ())) s)
      | WHeader header buffer offset \<Rightarrow> do {
          _ \<leftarrow> assert_that (offset \<le> length header);
          (case op_poll_write ops (drop offset header) (io_inner s) of
             (Pending, io) \<Rightarrow> Some (Return Pending (s\<lparr>io_inner := io\<rparr>))
           | (Ready (Err e), io) \<Rightarrow> Some (Return (Ready (Err e)) (s\<lparr>io_inner := io\<rparr>))
           | (Ready (Ok n), io) \<Rightarrow>
               if n = 0 then Some (Return (Ready (Err WriteZero)) (s\<lparr>io_inner := io\<rparr>))
               else do {
                 offset' \<leftarrow> uadd offset n;
                 Some (if length header < offset' then
                         Return (Ready (Err InvalidWriteCount))
                           (s\<lparr>io_inner := io, sock_write := WPoisoned\<rparr>)
                       else if offset' = length header then
                         Continue (s\<lparr>io_inner := io,
                           sock_write := (if buffer \<noteq> [] then WBody buffer 0 else WInit)\<rparr>)
                       else Continue (s\<lparr>io_inner := io,
                           sock_write := WHeader header buffer offset'\<rparr>)) }) }
      | WBody buffer offset \<Rightarrow> do {
          _ \<leftarrow> assert_that (offset \<le> length buffer);
          (case op_poll_write ops (drop offset buffer) (io_inner s) of
             (Pending, io) \<Rightarrow> Some (Return Pending (s\<lparr>io_inner := io\<rparr>))
           | (Ready (Err e), io) \<Rightarrow> Some (Return (Ready (Err e)) (s\<lparr>io_inner := io\<rparr>))
           | (Ready (Ok n), io) \<Rightarrow>
               if n = 0 then Some (Return (Ready (Err WriteZero)) (s\<lparr>io_inner := io\<rparr>))
               else do {
                 offset' \<leftarrow> uadd offset n;
                 Some (if length buffer < offset' then
                         Return (Ready (Err InvalidWriteCount))
                           (s\<lparr>io_inner := io, sock_write := WPoisoned\<rparr>)
                       else if offset' = length buffer then
                         Continue (s\<lparr>io_inner := io, sock_write := WInit\<rparr>)
                       else Continue (s\<lparr>io_inner := io,
                           sock_write := WBody buffer offset'\<rparr>)) }) }
      | WPoisoned \<Rightarrow> Some (Return (Ready (Err SinkPoisoned)) s))"

definition io_poll_ready ::
    "'io io_ops \<Rightarrow> 'io sock \<Rightarrow> ((unit, io_error) result poll \<times> 'io sock) run" where
  "io_poll_ready ops = run_loop (write_step ops)"

definition io_start_send :: "frame \<Rightarrow> 'io sock \<Rightarrow> 'io sock" where
  "io_start_send f s = s\<lparr>sock_write := WHeader (encode (fr_header f)) (fr_body f) 0\<rparr>"

definition io_poll_flush ::
    "'io io_ops \<Rightarrow> 'io sock \<Rightarrow> ((unit, io_error) result poll \<times> 'io sock) run" where
  "io_poll_flush ops s = do {
     (r, s) \<leftarrow> io_poll_ready ops s;
     Some (case r of
        Pending \<Rightarrow> (Pending, s)
      | Ready (Err e) \<Rightarrow> (Ready (Err e), s)
      | Ready (Ok _) \<Rightarrow>
          (let (r, io) = op_poll_flush ops (io_inner s) in (r, s\<lparr>io_inner := io\<rparr>))) }"

definition io_poll_close ::
    "'io io_ops \<Rightarrow> 'io sock \<Rightarrow> ((unit, io_error) result poll \<times> 'io sock) run" where
  "io_poll_close ops s = do {
     (r, s) \<leftarrow> io_poll_ready ops s;
     Some (case r of
        Pending \<Rightarrow> (Pending, s)
      | Ready (Err e) \<Rightarrow> (Ready (Err e), s)
      | Ready (Ok _) \<Rightarrow>
          (let (r, io) = op_poll_close ops (io_inner s) in (r, s\<lparr>io_inner := io\<rparr>))) }"

subsection \<open>Reading\<close>

text \<open>The buffer after \<open>bs\<close> was read into it at \<open>offset\<close>.\<close>

definition fill :: "usize \<Rightarrow> bytes \<Rightarrow> bytes \<Rightarrow> bytes" where
  "fill offset bs buffer = take offset buffer @ bs @ drop (offset + length bs) buffer"

text \<open>One round of the loop of \<open>poll_next\<close>.\<close>

definition read_step ::
    "'io io_ops \<Rightarrow> 'io sock \<Rightarrow>
       ((frame, frame_decode_error) result option poll, 'io sock) flow run" where
  "read_step ops s =
     (case sock_read s of
        RInit \<Rightarrow> Some (Continue (s\<lparr>sock_read := RHeader 0 (replicate HEADER_SIZE 0)\<rparr>))
      | RHeader offset buffer \<Rightarrow>
          if offset = HEADER_SIZE then
            (case decode buffer of
               Err e \<Rightarrow> Some (Return (Ready (Some (Err (Header e)))) s)
             | Ok header \<Rightarrow>
                 if hdr_tag header \<noteq> Data then
                   Some (Return (Ready (Some (Ok (frame_new header)))) (s\<lparr>sock_read := RInit\<rparr>))
                 else
                   let body_len = unat (hdr_length header) in
                   if MAX_FRAME_BODY_LEN < body_len then
                     Some (Return (Ready (Some (Err (FrameTooLarge body_len)))) s)
                   else Some (Continue
                     (s\<lparr>sock_read := RBody header 0 (replicate body_len 0)\<rparr>)))
          else do {
            _ \<leftarrow> assert_that (offset \<le> HEADER_SIZE);
            (case op_poll_read ops (HEADER_SIZE - offset) (io_inner s) of
               (Pending, io) \<Rightarrow> Some (Return Pending (s\<lparr>io_inner := io\<rparr>))
             | (Ready (Err e), io) \<Rightarrow>
                 Some (Return (Ready (Some (Err (Io e)))) (s\<lparr>io_inner := io\<rparr>))
             | (Ready (Ok bs), io) \<Rightarrow>
                 if bs = [] then
                   if offset = 0 then Some (Return (Ready None) (s\<lparr>io_inner := io\<rparr>))
                   else Some (Return (Ready (Some (Err (Io UnexpectedEof)))) (s\<lparr>io_inner := io\<rparr>))
                 else do {
                   offset' \<leftarrow> uadd offset (length bs);
                   Some (Continue (s\<lparr>io_inner := io,
                     sock_read := RHeader offset' (fill offset bs buffer)\<rparr>)) }) }
      | RBody header offset buffer \<Rightarrow>
          let body_len = unat (hdr_length header) in
          if offset = body_len then
            Some (Return (Ready (Some (Ok \<lparr>fr_header = header, fr_body = buffer\<rparr>)))
              (s\<lparr>sock_read := RInit\<rparr>))
          else do {
            _ \<leftarrow> assert_that (offset \<le> body_len \<and> body_len \<le> length buffer);
            (case op_poll_read ops (body_len - offset) (io_inner s) of
               (Pending, io) \<Rightarrow> Some (Return Pending (s\<lparr>io_inner := io\<rparr>))
             | (Ready (Err e), io) \<Rightarrow>
                 Some (Return (Ready (Some (Err (Io e)))) (s\<lparr>io_inner := io\<rparr>))
             | (Ready (Ok bs), io) \<Rightarrow>
                 if bs = [] then
                   Some (Return (Ready (Some (Err (Io UnexpectedEof)))) (s\<lparr>io_inner := io\<rparr>))
                 else do {
                   offset' \<leftarrow> uadd offset (length bs);
                   Some (Continue (s\<lparr>io_inner := io,
                     sock_read := RBody header offset' (fill offset bs buffer)\<rparr>)) }) })"

definition io_poll_next ::
    "'io io_ops \<Rightarrow> 'io sock \<Rightarrow>
       ((frame, frame_decode_error) result option poll \<times> 'io sock) run" where
  "io_poll_next ops = run_loop (read_step ops)"

subsection \<open>What is still to be written, what has been read of the next frame\<close>

definition frame_bytes :: "frame \<Rightarrow> bytes" where
  "frame_bytes f = encode (fr_header f) @ fr_body f"

fun unsent :: "write_state \<Rightarrow> bytes" where
  "unsent (WHeader header buffer offset) = drop offset header @ buffer"
| "unsent (WBody buffer offset) = drop offset buffer"
| "unsent _ = []"

fun wstate_ok :: "write_state \<Rightarrow> bool" where
  "wstate_ok (WHeader header buffer offset) \<longleftrightarrow>
     length header = 12 \<and> offset < length header \<and> length buffer < 2 ^ 64"
| "wstate_ok (WBody buffer offset) \<longleftrightarrow> offset < length buffer \<and> length buffer < 2 ^ 64"
| "wstate_ok _ \<longleftrightarrow> True"

fun write_work :: "write_state \<Rightarrow> nat" where
  "write_work (WHeader header buffer offset) = (length header - offset) + length buffer + 2"
| "write_work (WBody buffer offset) = (length buffer - offset) + 1"
| "write_work _ = 0"

text \<open>
  The \<open>AsyncWrite\<close> contract: \<open>out io\<close> is what the transport has accepted so far; a successful
  write accepts a prefix of its argument and reports its length, anything else accepts nothing.
\<close>

locale byte_sink =
  fixes ops :: "'io io_ops"
    and out :: "'io \<Rightarrow> bytes"
  assumes write_ok: "op_poll_write ops bs io = (Ready (Ok n), io') \<Longrightarrow>
      n \<le> length bs \<and> out io' = out io @ take n bs"
    and write_pending: "op_poll_write ops bs io = (Pending, io') \<Longrightarrow> out io' = out io"
    and write_err: "op_poll_write ops bs io = (Ready (Err e), io') \<Longrightarrow> out io' = out io"
    and flush_keeps: "op_poll_flush ops io = (fr, io') \<Longrightarrow> out io' = out io"
    and close_keeps: "op_poll_close ops io = (cr, io') \<Longrightarrow> out io' = out io"
begin

definition sink_inv :: "bytes \<Rightarrow> 'io sock \<Rightarrow> bool" where
  "sink_inv bs0 s \<longleftrightarrow> wstate_ok (sock_write s) \<and> sock_write s \<noteq> WPoisoned
     \<and> out (io_inner s) @ unsent (sock_write s) = bs0"

lemma write_step_sink:
  assumes "sink_inv bs0 s"
  shows "\<exists>x. write_step ops s = Some x \<and>
    (case x of
       Return r t \<Rightarrow> sink_inv bs0 t \<and> sock_read t = sock_read s
         \<and> (r = Ready (Ok ()) \<longrightarrow> sock_write t = WInit)
     | Continue t \<Rightarrow> sink_inv bs0 t \<and> sock_read t = sock_read s
         \<and> write_work (sock_write t) < write_work (sock_write s))"
proof (cases "sock_write s")
  case (WHeader header buffer offset)
  then show ?thesis
    using assms
    by (auto simp: sink_inv_def write_step_def uadd_def split: prod.splits poll.splits result.splits
        dest!: write_ok write_pending write_err)
next
  case (WBody buffer offset)
  then show ?thesis
    using assms
    by (auto simp: sink_inv_def write_step_def uadd_def split: prod.splits poll.splits result.splits
        dest!: write_ok write_pending write_err)
qed (use assms in \<open>auto simp: sink_inv_def write_step_def\<close>)

lemma poll_ready_sink:
  assumes "sink_inv bs0 s"
  shows "\<exists>r t. io_poll_ready ops s = Some (r, t) \<and> sink_inv bs0 t \<and> sock_read t = sock_read s
    \<and> (r = Ready (Ok ()) \<longrightarrow> sock_write t = WInit)"
  unfolding io_poll_ready_def
proof (rule run_loop_total [where I = "\<lambda>u. sink_inv bs0 u \<and> sock_read u = sock_read s"
      and m = "\<lambda>s. write_work (sock_write s)"])
  show "sink_inv bs0 s \<and> sock_read s = sock_read s"
    using assms by simp
qed (use write_step_sink in fastforce)+

lemma sink_inv_start_send:
  assumes "sink_inv bs0 s" and "sock_write s = WInit" and "length (fr_body f) < 2 ^ 64"
  shows "sink_inv (bs0 @ frame_bytes f) (io_start_send f s)"
  using assms by (simp add: sink_inv_def io_start_send_def frame_bytes_def)

lemma poll_flush_sink:
  assumes "sink_inv bs0 s"
  shows "\<exists>r t. io_poll_flush ops s = Some (r, t) \<and> sink_inv bs0 t \<and> sock_read t = sock_read s
    \<and> (r = Ready (Ok ()) \<longrightarrow> sock_write t = WInit)"
  using poll_ready_sink [OF assms]
  by (auto simp: io_poll_flush_def sink_inv_def split: poll.splits result.splits prod.splits
      dest: flush_keeps)

lemma poll_close_sink:
  assumes "sink_inv bs0 s"
  shows "\<exists>r t. io_poll_close ops s = Some (r, t) \<and> sink_inv bs0 t \<and> sock_read t = sock_read s
    \<and> (r = Ready (Ok ()) \<longrightarrow> sock_write t = WInit)"
  using poll_ready_sink [OF assms]
  by (auto simp: io_poll_close_def sink_inv_def split: poll.splits result.splits prod.splits
      dest: close_keeps)

end

fun partial_frame :: "read_state \<Rightarrow> bytes" where
  "partial_frame RInit = []"
| "partial_frame (RHeader offset buffer) = take offset buffer"
| "partial_frame (RBody header offset buffer) = encode header @ take offset buffer"

fun rstate_ok :: "read_state \<Rightarrow> bool" where
  "rstate_ok RInit \<longleftrightarrow> True"
| "rstate_ok (RHeader offset buffer) \<longleftrightarrow> offset \<le> 12 \<and> length buffer = 12"
| "rstate_ok (RBody header offset buffer) \<longleftrightarrow>
     hdr_version header = 0 \<and> hdr_tag header = Data \<and> offset \<le> unat (hdr_length header)
     \<and> length buffer = unat (hdr_length header) \<and> unat (hdr_length header) \<le> MAX_FRAME_BODY_LEN"

fun read_work :: "read_state \<Rightarrow> nat" where
  "read_work RInit = MAX_FRAME_BODY_LEN + 14"
| "read_work (RHeader offset buffer) = MAX_FRAME_BODY_LEN + 1 + (12 - offset)"
| "read_work (RBody header offset buffer) = unat (hdr_length header) - offset"

text \<open>How \<open>poll_next\<close> may end, given that the bytes from the start of the frame on are \<open>bs0\<close>.\<close>

fun read_result_ok :: "bytes \<Rightarrow> bytes \<Rightarrow> (frame, frame_decode_error) result option poll \<Rightarrow> bool" where
  "read_result_ok bs0 rest Pending \<longleftrightarrow> True"
| "read_result_ok bs0 rest (Ready None) \<longleftrightarrow> bs0 = []"
| "read_result_ok bs0 rest (Ready (Some (Ok f))) \<longleftrightarrow>
     frame_ok f \<and> length (fr_body f) \<le> MAX_FRAME_BODY_LEN \<and> bs0 = frame_bytes f @ rest"
| "read_result_ok bs0 rest (Ready (Some (Err (Header e)))) \<longleftrightarrow>
     12 \<le> length bs0 \<and> decode (take 12 bs0) = Err e"
| "read_result_ok bs0 rest (Ready (Some (Err (FrameTooLarge n)))) \<longleftrightarrow>
     MAX_FRAME_BODY_LEN < n \<and> 12 \<le> length bs0 \<and>
     (\<exists>h. decode (take 12 bs0) = Ok h \<and> hdr_tag h = Data \<and> unat (hdr_length h) = n)"
| "read_result_ok bs0 rest (Ready (Some (Err (Io e)))) \<longleftrightarrow> True"

lemma length_fill [simp]:
  "offset + length bs \<le> length buffer \<Longrightarrow> length (fill offset bs buffer) = length buffer"
  by (simp add: fill_def)

lemma take_fill [simp]:
  "offset + length bs \<le> length buffer \<Longrightarrow>
     take (offset + length bs) (fill offset bs buffer) = take offset buffer @ bs"
  by (simp add: fill_def)

lemma MAX_FRAME_BODY_LEN_eq: "MAX_FRAME_BODY_LEN = 1048576"
  by (simp add: MAX_FRAME_BODY_LEN_def size_defs)

text \<open>
  The \<open>AsyncRead\<close> contract: \<open>inp io\<close> is what the remote has still to deliver; a successful read
  takes a prefix of it that fits the buffer, and reads nothing only at the end.
\<close>

locale byte_source =
  fixes ops :: "'io io_ops"
    and inp :: "'io \<Rightarrow> bytes"
  assumes read_ok: "op_poll_read ops n io = (Ready (Ok bs), io') \<Longrightarrow>
      length bs \<le> n \<and> inp io = bs @ inp io'"
    and read_eof: "op_poll_read ops n io = (Ready (Ok []), io') \<Longrightarrow> 0 < n \<Longrightarrow> inp io = []"
    and read_pending: "op_poll_read ops n io = (Pending, io') \<Longrightarrow> inp io' = inp io"
    and read_err: "op_poll_read ops n io = (Ready (Err e), io') \<Longrightarrow> inp io' = inp io"
begin

definition source_inv :: "bytes \<Rightarrow> 'io sock \<Rightarrow> bool" where
  "source_inv bs0 s \<longleftrightarrow>
     rstate_ok (sock_read s) \<and> partial_frame (sock_read s) @ inp (io_inner s) = bs0"

definition read_return_ok ::
    "bytes \<Rightarrow> 'io sock \<Rightarrow> (frame, frame_decode_error) result option poll \<Rightarrow> 'io sock \<Rightarrow> bool" where
  "read_return_ok bs0 s r t \<longleftrightarrow> sock_write t = sock_write s
     \<and> read_result_ok bs0 (inp (io_inner t)) r
     \<and> (if \<exists>f. r = Ready (Some (Ok f)) then sock_read t = RInit else source_inv bs0 t)"

definition read_flow_ok where
  "read_flow_ok bs0 s x \<longleftrightarrow>
    (case x of
       Return r t \<Rightarrow> read_return_ok bs0 s r t
     | Continue t \<Rightarrow> source_inv bs0 t \<and> sock_write t = sock_write s
         \<and> read_work (sock_read t) < read_work (sock_read s))"

lemma read_step_header_full:
  assumes "source_inv bs0 s" and "sock_read s = RHeader 12 buffer"
  shows "\<exists>x. read_step ops s = Some x \<and> read_flow_ok bs0 s x"
proof -
  from assms have len: "length buffer = 12" and bs0: "bs0 = buffer @ inp (io_inner s)"
    by (auto simp: source_inv_def)
  show ?thesis
  proof (cases "decode buffer")
    case (Ok h)
    with hdr.enc_dec [OF len] have "encode h = buffer" and "hdr_version h = 0"
      by auto
    with Ok assms bs0 len show ?thesis
      by (auto simp: read_step_def HEADER_SIZE_def Let_def read_flow_ok_def read_return_ok_def
          source_inv_def frame_bytes_def frame_ok_def frame_new_def)
  next
    case (Err e)
    with assms bs0 len show ?thesis
      by (auto simp: read_step_def HEADER_SIZE_def read_flow_ok_def read_return_ok_def
          source_inv_def)
  qed
qed

lemma read_step_header_more:
  assumes "source_inv bs0 s" and "sock_read s = RHeader offset buffer" and "offset \<noteq> 12"
  shows "\<exists>x. read_step ops s = Some x \<and> read_flow_ok bs0 s x"
proof -
  have off: "offset < 12" and len: "length buffer = 12"
    using assms by (auto simp: source_inv_def)
  obtain p io where rd: "op_poll_read ops (12 - offset) (io_inner s) = (p, io)"
    by fastforce
  consider "p = Pending" | e where "p = Ready (Err e)" | "p = Ready (Ok [])"
    | bs where "p = Ready (Ok bs)" "bs \<noteq> []"
    by (metis poll.exhaust result.exhaust)
  then show ?thesis
  proof cases
    case 3
    with rd read_eof [of "12 - offset"] read_ok off have "inp (io_inner s) = []" "inp io = []"
      by fastforce+
    with 3 rd assms off show ?thesis
      by (auto simp: read_step_def HEADER_SIZE_def read_flow_ok_def read_return_ok_def
          source_inv_def)
  next
    case (4 bs)
    with rd read_ok have "length bs \<le> 12 - offset" "inp (io_inner s) = bs @ inp io"
      by auto
    with 4 rd assms off len show ?thesis
      by (auto simp: read_step_def HEADER_SIZE_def uadd_def read_flow_ok_def source_inv_def
          intro: diff_less_mono2)
  qed (use rd assms off read_pending read_err in
      \<open>auto simp: read_step_def HEADER_SIZE_def read_flow_ok_def read_return_ok_def source_inv_def\<close>)
qed

lemma read_step_body:
  assumes "source_inv bs0 s" and "sock_read s = RBody header offset buffer"
  shows "\<exists>x. read_step ops s = Some x \<and> read_flow_ok bs0 s x"
proof (cases "offset = unat (hdr_length header)")
  case True
  with assms show ?thesis
    by (auto simp: read_step_def Let_def read_flow_ok_def read_return_ok_def source_inv_def
        frame_ok_def frame_bytes_def)
next
  case False
  let ?n = "unat (hdr_length header)"
  have off: "offset < ?n" and len: "length buffer = ?n" and max: "?n < 2 ^ 64"
    using False assms unat_u32_bound [of "hdr_length header"] by (auto simp: source_inv_def)
  obtain p io where rd: "op_poll_read ops (?n - offset) (io_inner s) = (p, io)"
    by fastforce
  consider "p = Pending" | e where "p = Ready (Err e)" | "p = Ready (Ok [])"
    | bs where "p = Ready (Ok bs)" "bs \<noteq> []"
    by (metis poll.exhaust result.exhaust)
  then show ?thesis
  proof cases
    case 3
    with rd read_eof [of "?n - offset"] read_ok off have "inp (io_inner s) = []" "inp io = []"
      by fastforce+
    with 3 rd assms off len show ?thesis
      by (auto simp: read_step_def Let_def read_flow_ok_def read_return_ok_def source_inv_def)
  next
    case (4 bs)
    with rd read_ok have "length bs \<le> ?n - offset" "inp (io_inner s) = bs @ inp io"
      by auto
    with 4 rd assms off len max show ?thesis
      by (auto simp: read_step_def Let_def uadd_def read_flow_ok_def source_inv_def
          intro: diff_less_mono2)
  qed (use rd assms off len read_pending read_err in
      \<open>auto simp: read_step_def Let_def read_flow_ok_def read_return_ok_def source_inv_def\<close>)
qed

lemma read_step_source:
  assumes "source_inv bs0 s"
  shows "\<exists>x. read_step ops s = Some x \<and> read_flow_ok bs0 s x"
proof (cases "sock_read s")
  case RInit
  with assms show ?thesis
    by (auto simp: read_step_def HEADER_SIZE_def read_flow_ok_def source_inv_def)
next
  case (RHeader offset buffer)
  with assms show ?thesis
    by (cases "offset = 12") (auto intro: read_step_header_full read_step_header_more)
qed (use assms read_step_body in blast)

lemma poll_next_source:
  assumes "source_inv bs0 s"
  shows "\<exists>r t. io_poll_next ops s = Some (r, t) \<and> read_return_ok bs0 s r t"
  unfolding io_poll_next_def
proof (rule run_loop_total [where I = "\<lambda>u. source_inv bs0 u \<and> sock_write u = sock_write s"
      and m = "\<lambda>s. read_work (sock_read s)"])
  fix u r t
  assume u: "source_inv bs0 u \<and> sock_write u = sock_write s" "read_step ops u = Some (Return r t)"
  then have "read_return_ok bs0 u r t"
    using read_step_source [of bs0 u] by (auto simp: read_flow_ok_def)
  with u(1) show "read_return_ok bs0 s r t"
    by (simp add: read_return_ok_def)
next
  fix u t
  assume "source_inv bs0 u \<and> sock_write u = sock_write s" "read_step ops u = Some (Continue t)"
  then show "(source_inv bs0 t \<and> sock_write t = sock_write s)
      \<and> read_work (sock_read t) < read_work (sock_read u)"
    using read_step_source [of bs0 u] by (auto simp: read_flow_ok_def)
qed (use assms read_step_source in auto)

end

subsection \<open>Frames on the byte stream\<close>

lemma frame_bytes_cancel:
  assumes "frame_ok f" and "frame_ok g" and "frame_bytes f @ u = frame_bytes g @ v"
  shows "f = g \<and> u = v"
proof -
  from assms have "encode (fr_header f) @ (fr_body f @ u) = encode (fr_header g) @ (fr_body g @ v)"
    by (simp add: frame_bytes_def)
  then have h: "fr_header f = fr_header g" and b: "fr_body f @ u = fr_body g @ v"
    using assms(1,2) hdr.enc_append_cancel by (auto simp: frame_ok_def)
  from h assms(1,2) have "length (fr_body f) = length (fr_body g)"
    by (auto simp: frame_ok_def split: if_splits)
  with b h show ?thesis
    by (simp add: frame.equality)
qed

lemma decode_frame_bytes: "frame_ok f \<Longrightarrow> decode (take 12 (frame_bytes f @ rest)) = Ok (fr_header f)"
  by (simp add: frame_bytes_def frame_ok_def hdr.dec_enc)

lemma read_result_frame:
  assumes "frame_ok f" and "length (fr_body f) \<le> MAX_FRAME_BODY_LEN"
    and "read_result_ok (frame_bytes f @ rest) rest' r"
  shows "r = Pending \<or> (\<exists>e. r = Ready (Some (Err (Io e)))) \<or> (r = Ready (Some (Ok f)) \<and> rest' = rest)"
  using assms(3)
proof (cases "(frame_bytes f @ rest, rest', r)" rule: read_result_ok.cases)
  case (2 bs0 rest)
  then show ?thesis
    using assms(3) by (simp add: frame_bytes_def encode_def)
next
  case (3 bs0 rest g)
  then show ?thesis
    using assms(1,3) by (auto dest: frame_bytes_cancel)
next
  case (5 bs0 rest n)
  then show ?thesis
    using assms decode_frame_bytes [OF assms(1)] by (auto simp: frame_ok_def)
qed (use assms decode_frame_bytes [OF assms(1)] in auto)

subsection \<open>A transport for the witnesses\<close>

text \<open>An in-memory pipe that moves at most \<open>k\<close> bytes per call.\<close>

record pipe =
  pipe_in :: bytes
  pipe_out :: bytes

definition pipe_ops :: "nat \<Rightarrow> pipe io_ops" where
  "pipe_ops k =
     \<lparr>op_poll_read = (\<lambda>n p. (Ready (Ok (take (min n k) (pipe_in p))),
        p\<lparr>pipe_in := drop (min n k) (pipe_in p)\<rparr>)),
      op_poll_write = (\<lambda>bs p. (Ready (Ok (min k (length bs))),
        p\<lparr>pipe_out := pipe_out p @ take k bs\<rparr>)),
      op_poll_flush = (\<lambda>p. (Ready (Ok ()), p)),
      op_poll_close = (\<lambda>p. (Ready (Ok ()), p))\<rparr>"

lemma pipe_sink: "byte_sink (pipe_ops k) pipe_out"
  by unfold_locales (auto simp: pipe_ops_def min_def)

lemma pipe_source: "0 < k \<Longrightarrow> byte_source (pipe_ops k) pipe_in"
  by unfold_locales (auto simp: pipe_ops_def min_def split: if_splits)

subsection \<open>Properties\<close>

text \<open>
  C15: However the transport splits the writes, and wherever it returns \<open>Pending\<close>, \<open>poll_ready\<close>
  neither panics nor loops, loses, repeats or reorders no byte (what was accepted followed by what
  is still to be written never changes), and reports readiness only when the frame is out.
\<close>

theorem io_poll_ready_exact:
  assumes "byte_sink ops out" and "wstate_ok (sock_write s)" and "sock_write s \<noteq> WPoisoned"
  shows "\<exists>r t. io_poll_ready ops s = Some (r, t)
    \<and> out (io_inner t) @ unsent (sock_write t) = out (io_inner s) @ unsent (sock_write s)
    \<and> wstate_ok (sock_write t) \<and> sock_write t \<noteq> WPoisoned \<and> sock_read t = sock_read s
    \<and> (r = Ready (Ok ()) \<longrightarrow> sock_write t = WInit)"
proof -
  have "byte_sink.sink_inv out (out (io_inner s) @ unsent (sock_write s)) s"
    using assms by (simp add: byte_sink.sink_inv_def [OF assms(1)])
  from byte_sink.poll_ready_sink [OF assms(1) this] show ?thesis
    by (auto simp: byte_sink.sink_inv_def [OF assms(1)])
qed

theorem io_poll_ready_exact_witness:
  "let s = io_start_send (frame_close_stream 3 True) (io_new \<lparr>pipe_in = [], pipe_out = []\<rparr>)
   in byte_sink (pipe_ops 5) pipe_out \<and> wstate_ok (sock_write s) \<and> sock_write s \<noteq> WPoisoned
      \<and> (\<exists>r t. io_poll_ready (pipe_ops 5) s = Some (r, t)
           \<and> pipe_out (io_inner t) @ unsent (sock_write t) = frame_bytes (frame_close_stream 3 True))"
proof -
  let ?s = "io_start_send (frame_close_stream 3 True) (io_new \<lparr>pipe_in = [], pipe_out = []\<rparr>)"
  have h: "wstate_ok (sock_write ?s)" "sock_write ?s \<noteq> WPoisoned"
    by (simp_all add: io_start_send_def frame_close_stream_def frame_new_def Let_def)
  have "out = pipe_out \<Longrightarrow> out (io_inner ?s) @ unsent (sock_write ?s)
      = frame_bytes (frame_close_stream 3 True)" for out
    by (simp add: io_start_send_def io_new_def frame_bytes_def)
  with io_poll_ready_exact [OF pipe_sink [of 5] h] h pipe_sink [of 5] show ?thesis
    by (fastforce simp: Let_def)
qed

text \<open>
  C14: However the transport splits the reads, \<open>poll_next\<close> neither panics nor loops. It returns a
  frame only if the bytes received since the last one are exactly that frame's encoding, leaving
  the rest untouched; it reports a bad header or an oversized body only if the header bytes say so,
  and the end of the stream only between frames; when it is pending, nothing received is lost. A
  returned body is at most 1 MiB long and as long as its header says.
\<close>

theorem io_poll_next_exact:
  assumes "byte_source ops inp" and "rstate_ok (sock_read s)"
  shows "\<exists>r t. io_poll_next ops s = Some (r, t) \<and> sock_write t = sock_write s
    \<and> read_result_ok (partial_frame (sock_read s) @ inp (io_inner s)) (inp (io_inner t)) r
    \<and> (if \<exists>f. r = Ready (Some (Ok f)) then sock_read t = RInit
       else rstate_ok (sock_read t) \<and> partial_frame (sock_read t) @ inp (io_inner t)
              = partial_frame (sock_read s) @ inp (io_inner s))"
proof -
  let ?bs0 = "partial_frame (sock_read s) @ inp (io_inner s)"
  have "byte_source.source_inv inp ?bs0 s"
    using assms by (simp add: byte_source.source_inv_def [OF assms(1)])
  from byte_source.poll_next_source [OF assms(1) this]
  obtain r t where "io_poll_next ops s = Some (r, t)" "byte_source.read_return_ok inp ?bs0 s r t"
    by blast
  then show ?thesis
    by (intro exI [of _ r] exI [of _ t])
      (simp add: byte_source.source_inv_def [OF assms(1)] byte_source.read_return_ok_def [OF assms(1)]
        split: if_splits)
qed

theorem io_poll_next_exact_witness:
  "let s = io_new \<lparr>pipe_in = frame_bytes frame_term, pipe_out = []\<rparr>
   in byte_source (pipe_ops 5) pipe_in \<and> rstate_ok (sock_read s)
      \<and> (\<exists>r t. io_poll_next (pipe_ops 5) s = Some (r, t)
           \<and> read_result_ok (frame_bytes frame_term) (pipe_in (io_inner t)) r)"
proof -
  let ?s = "io_new \<lparr>pipe_in = frame_bytes frame_term, pipe_out = []\<rparr>"
  have src: "byte_source (pipe_ops 5) pipe_in"
    by (simp add: pipe_source)
  have ok: "rstate_ok (sock_read ?s)"
    by (simp add: io_new_def)
  from io_poll_next_exact [OF src ok] src ok show ?thesis
    by (fastforce simp: Let_def io_new_def)
qed

text \<open>
  C16: Round trip through the wire: a frame handed to a ready sender and flushed over one transport
  is the next frame read from any transport that delivers the same bytes, unless that transport
  itself reports an I/O error; and nothing of what follows is consumed.
\<close>

theorem io_frame_roundtrip:
  assumes "byte_sink wops out" and "byte_source rops inp"
    and "frame_ok f" and "length (fr_body f) \<le> MAX_FRAME_BODY_LEN"
    and "sock_write w = WInit"
    and "io_poll_flush wops (io_start_send f w) = Some (Ready (Ok ()), w')"
    and "sock_read r = RInit" and "out (io_inner w) @ inp (io_inner r) = out (io_inner w') @ rest"
  shows "\<exists>x r'. io_poll_next rops r = Some (x, r') \<and>
    (x = Pending \<or> (\<exists>e. x = Ready (Some (Err (Io e))))
     \<or> (x = Ready (Some (Ok f)) \<and> inp (io_inner r') = rest))"
proof -
  have "byte_sink.sink_inv out (out (io_inner w)) w"
    using assms(5) by (simp add: byte_sink.sink_inv_def [OF assms(1)])
  then have "byte_sink.sink_inv out (out (io_inner w) @ frame_bytes f) (io_start_send f w)"
    using assms(4,5)
    by (intro byte_sink.sink_inv_start_send [OF assms(1)]) (auto simp: MAX_FRAME_BODY_LEN_eq)
  from byte_sink.poll_flush_sink [OF assms(1) this] assms(6)
  have "out (io_inner w') = out (io_inner w) @ frame_bytes f"
    by (auto simp: byte_sink.sink_inv_def [OF assms(1)])
  with assms(8) have inp: "inp (io_inner r) = frame_bytes f @ rest"
    by simp
  have "byte_source.source_inv inp (frame_bytes f @ rest) r"
    using assms(7) inp by (simp add: byte_source.source_inv_def [OF assms(2)])
  from byte_source.poll_next_source [OF assms(2) this] show ?thesis
    using read_result_frame [OF assms(3,4)]
    by (auto simp: byte_source.read_return_ok_def [OF assms(2)])
qed

theorem io_frame_roundtrip_witness:
  "\<exists>x r'. io_poll_next (pipe_ops 5)
      (io_new \<lparr>pipe_in = frame_bytes (frame_ping 9) @ [1, 2], pipe_out = []\<rparr>) = Some (x, r') \<and>
    (x = Pending \<or> (\<exists>e. x = Ready (Some (Err (Io e))))
     \<or> (x = Ready (Some (Ok (frame_ping 9))) \<and> pipe_in (io_inner r') = [1, 2]))"
proof -
  let ?w = "io_new \<lparr>pipe_in = [], pipe_out = []\<rparr>"
  let ?f = "frame_ping 9"
  let ?r = "io_new \<lparr>pipe_in = frame_bytes ?f @ [1, 2], pipe_out = []\<rparr>"
  have flush: "io_poll_flush (pipe_ops 8) (io_start_send ?f ?w)
      = Some (Ready (Ok ()), ?w\<lparr>io_inner := \<lparr>pipe_in = [], pipe_out = frame_bytes ?f\<rparr>\<rparr>)"
    by (simp add: io_poll_flush_def io_poll_ready_def run_loop.simps write_step_def io_start_send_def
        io_new_def pipe_ops_def uadd_def frame_bytes_def frame_ping_def frame_new_def)
  have "length (fr_body ?f) \<le> MAX_FRAME_BODY_LEN" "sock_write ?w = WInit"
    "sock_read ?r = RInit" "pipe_out (io_inner ?w) @ pipe_in (io_inner ?r)
      = pipe_out (io_inner (?w\<lparr>io_inner := \<lparr>pipe_in = [], pipe_out = frame_bytes ?f\<rparr>\<rparr>)) @ [1, 2]"
    by (simp_all add: io_new_def frame_ping_def frame_new_def)
  with io_frame_roundtrip [OF pipe_sink [of 8] pipe_source [of 5] frame_ok_ctors(3) _ _ flush] show ?thesis
    by simp
qed

subsection \<open>The poisoned sink\<close>

text \<open>Any sequence of calls of the sink, with their results.\<close>

datatype sink_call = SinkReady | SinkSend frame | SinkFlush | SinkClose

fun call_sink :: "'io io_ops \<Rightarrow> sink_call \<Rightarrow> 'io sock \<Rightarrow> ((unit, io_error) result poll \<times> 'io sock) run" where
  "call_sink ops SinkReady s = io_poll_ready ops s"
| "call_sink ops (SinkSend f) s = Some (Ready (Ok ()), io_start_send f s)"
| "call_sink ops SinkFlush s = io_poll_flush ops s"
| "call_sink ops SinkClose s = io_poll_close ops s"

fun sink_run :: "'io io_ops \<Rightarrow> sink_call list \<Rightarrow> 'io sock \<Rightarrow> ((unit, io_error) result poll list \<times> 'io sock) run" where
  "sink_run ops [] s = Some ([], s)"
| "sink_run ops (c # cs) s = do { (r, s) \<leftarrow> call_sink ops c s; (rs, s) \<leftarrow> sink_run ops cs s; Some (r # rs, s) }"

fun is_send :: "sink_call \<Rightarrow> bool" where
  "is_send (SinkSend _) \<longleftrightarrow> True"
| "is_send _ \<longleftrightarrow> False"

lemma call_sink_fails:
  assumes "io_poll_ready ops s = Some (Ready (Err e), s')" and "\<not> is_send c"
  shows "call_sink ops c s = Some (Ready (Err e), s')"
  using assms by (cases c) (simp_all add: io_poll_flush_def io_poll_close_def)

lemma sink_run_append:
  "sink_run ops (cs @ ds) s =
     do { (rs, s) \<leftarrow> sink_run ops cs s; (qs, s) \<leftarrow> sink_run ops ds s; Some (rs @ qs, s) }"
  by (induction cs arbitrary: s) (auto simp: bind_eq_Some_conv split: bind_splits prod.splits)

lemma poisoned_run:
  assumes "sock_write p = WPoisoned" and "\<forall>c \<in> set cs. \<not> is_send c"
  shows "sink_run ops cs p = Some (replicate (length cs) (Ready (Err SinkPoisoned)), p)"
proof -
  have "io_poll_ready ops p = Some (Ready (Err SinkPoisoned), p)"
    using assms(1) by (simp add: io_poll_ready_def run_loop_Return write_step_def)
  with assms(2) show ?thesis
    by (induction cs) (simp_all add: call_sink_fails)
qed

lemma overlong_write:
  assumes "sock_write s = WHeader header buffer offset \<or> sock_write s = WBody header offset"
    and "offset \<le> length header"
    and "op_poll_write ops (drop offset header) (io_inner s) = (Ready (Ok n), io)"
    and "length header < offset + n" and "offset + n < 2 ^ 64"
  shows "io_poll_ready ops s = Some (Ready (Err InvalidWriteCount), s\<lparr>io_inner := io, sock_write := WPoisoned\<rparr>)"
  using assms by (auto simp: io_poll_ready_def run_loop.simps write_step_def uadd_def)



end
