(* ===== verification/Active_Conn.thy ===== *)
theory Active_Conn
  imports Conn_World Frame_Io
begin

text \<open>
  The active connection (\<open>Active\<close> of \<^verbatim>\<open>yamux/src/connection.rs\<close>). Its record extends the world it
  shares with the stream handles. \<open>IntMap\<close> is an association list with distinct keys; its values
  are addresses of \<open>Shared\<close> cells. The parameters of an operation, the transport, the channels and
  the clock, are the record \<open>env\<close>. \<open>Fuse\<close> around the socket passes every call on until the end of
  the input, after which the code never polls it again, and is left out; so is the connection id,
  which only log lines use.
\<close>

datatype mode = Client | Server

record ('io, 'ch) env =
  e_io :: "'io io_ops"
  e_ch :: "'ch mux_ops"
  e_clock :: clock

record ('io, 'ch) active = "'ch world" +
  a_mode :: mode
  a_config :: config
  a_socket :: "'io sock"
  a_next_id :: u32
  a_streams :: "(u32 \<times> nat) list"
  a_no_streams_waker :: "waker option"
  a_pending_read_frame :: "frame option"
  a_pending_write_frame :: "frame option"
  a_new_outbound_stream_waker :: "waker option"

definition active_new :: "'io \<Rightarrow> 'ch \<Rightarrow> instant \<Rightarrow> config \<Rightarrow> mode \<Rightarrow> ('io, 'ch) active" where
  "active_new io ch now cfg mode =
     \<lparr>w_heap = [], w_acc = 0, w_chan = ch, w_rtt = rtt_new now, w_handles = [], w_woken = [],
      w_ticks = 0, a_mode = mode, a_config = cfg, a_socket = io_new io,
      a_next_id = (case mode of Client \<Rightarrow> 1 | Server \<Rightarrow> 2), a_streams = [],
      a_no_streams_waker = None, a_pending_read_frame = None, a_pending_write_frame = None,
      a_new_outbound_stream_waker = None\<rparr>"

text \<open>The addresses the map points to, and all references to cells.\<close>

abbreviation held :: "('io, 'ch) active \<Rightarrow> nat list" where
  "held s \<equiv> map snd (a_streams s)"

definition streams_get :: "u32 \<Rightarrow> ('io, 'ch) active \<Rightarrow> nat option" where
  "streams_get sid s = map_of (a_streams s) sid"

definition contains_key :: "u32 \<Rightarrow> ('io, 'ch) active \<Rightarrow> bool" where
  "contains_key sid s \<longleftrightarrow> streams_get sid s \<noteq> None"

definition streams_insert :: "u32 \<Rightarrow> nat \<Rightarrow> ('io, 'ch) active \<Rightarrow> ('io, 'ch) active run" where
  "streams_insert sid a s =
     (let s' = s\<lparr>a_streams := AList.update sid a (a_streams s)\<rparr>
      in case streams_get sid s of
           None \<Rightarrow> Some s'
         | Some b \<Rightarrow> arc_drop b (held s' @ addresses s') s')"

text \<open>Removing an entry and dropping the \<open>Arc\<close> that was in it.\<close>

definition streams_remove :: "u32 \<Rightarrow> ('io, 'ch) active \<Rightarrow> ('io, 'ch) active run" where
  "streams_remove sid s =
     (case streams_get sid s of
        None \<Rightarrow> Some s
      | Some a \<Rightarrow>
          let s = s\<lparr>a_streams := AList.delete sid (a_streams s)\<rparr>
          in arc_drop a (held s @ addresses s) s)"

text \<open>\<open>if let Some(w) = shared.reader.take() { w.wake() }\<close>, and the same of the writer.\<close>

definition wake_reader :: "nat \<Rightarrow> ('io, 'ch) active \<Rightarrow> ('io, 'ch) active run" where
  "wake_reader a s = do {
     sh \<leftarrow> cell a s;
     Some ((put_cell a (sh\<lparr>sh_reader := None\<rparr>) s)\<lparr>w_woken := wake (sh_reader sh) (w_woken s)\<rparr>) }"

definition wake_writer :: "nat \<Rightarrow> ('io, 'ch) active \<Rightarrow> ('io, 'ch) active run" where
  "wake_writer a s = do {
     sh \<leftarrow> cell a s;
     Some ((put_cell a (sh\<lparr>sh_writer := None\<rparr>) s)\<lparr>w_woken := wake (sh_writer sh) (w_woken s)\<rparr>) }"

text \<open>\<open>update_state\<close> of the cell at \<open>a\<close>, returning the previous state.\<close>

definition cell_update_state ::
    "nat \<Rightarrow> stream_state \<Rightarrow> ('io, 'ch) active \<Rightarrow> (stream_state \<times> ('io, 'ch) active) run" where
  "cell_update_state a next s = do {
     sh \<leftarrow> cell a s;
     let (old, sh) = update_state next sh;
     Some (old, put_cell a sh s) }"

subsection \<open>Streams\<close>

definition make_new_inbound_stream ::
    "('io, 'ch) env \<Rightarrow> u32 \<Rightarrow> u32 \<Rightarrow> ('io, 'ch) active \<Rightarrow> stream \<times> ('io, 'ch) active" where
  "make_new_inbound_stream env sid credit s =
     (let (tx, ch) = mx_channel (e_ch env) sid (w_chan s);
          s = s\<lparr>w_chan := ch, w_woken := wake (a_no_streams_waker s) (w_woken s),
                a_no_streams_waker := None\<rparr>
      in stream_new_inbound (e_ch env) (e_clock env) sid (a_config s) credit tx s)"

definition make_new_outbound_stream ::
    "('io, 'ch) env \<Rightarrow> u32 \<Rightarrow> ('io, 'ch) active \<Rightarrow> stream \<times> ('io, 'ch) active" where
  "make_new_outbound_stream env sid s =
     (let (tx, ch) = mx_channel (e_ch env) sid (w_chan s);
          s = s\<lparr>w_chan := ch, w_woken := wake (a_no_streams_waker s) (w_woken s),
                a_no_streams_waker := None\<rparr>
      in stream_new_outbound (e_ch env) (e_clock env) sid (a_config s) tx s)"

definition own_id :: "mode \<Rightarrow> u32 \<Rightarrow> bool" where
  "own_id mode sid = (case mode of Client \<Rightarrow> is_client sid | Server \<Rightarrow> is_server sid)"

definition next_stream_id ::
    "('io, 'ch) active \<Rightarrow> ((u32, connection_error) result \<times> ('io, 'ch) active) run" where
  "next_stream_id s =
     (let proposed = a_next_id s in
      case checked_add (a_next_id s) 2 of
        None \<Rightarrow> Some (Err NoMoreStreamIds, s)
      | Some n \<Rightarrow> do {
          _ \<leftarrow> assert_that (own_id (a_mode s) proposed);
          Some (Ok proposed, s\<lparr>a_next_id := n\<rparr>) })"

definition ack_backlog :: "('io, 'ch) active \<Rightarrow> usize" where
  "ack_backlog s =
     length (filter (\<lambda>(sid, a). own_id (a_mode s) sid \<and>
       (case cell a s of Some sh \<Rightarrow> is_pending_ack sh | None \<Rightarrow> False)) (a_streams s))"

definition is_valid_remote_id :: "u32 \<Rightarrow> tag \<Rightarrow> ('io, 'ch) active \<Rightarrow> bool" where
  "is_valid_remote_id sid tag s =
     (if tag = Ping \<or> tag = GoAway then is_session sid
      else case a_mode s of Client \<Rightarrow> is_server sid | Server \<Rightarrow> is_client sid)"

definition active_poll_new_outbound ::
    "('io, 'ch) env \<Rightarrow> waker \<Rightarrow> ('io, 'ch) active \<Rightarrow>
       ((stream, connection_error) result poll \<times> ('io, 'ch) active) run" where
  "active_poll_new_outbound env cx s =
     (if max_num_streams (a_config s) \<le> length (a_streams s) then
        Some (Ready (Err TooManyStreams), s)
      else if MAX_ACK_BACKLOG \<le> ack_backlog s then
        Some (Pending, s\<lparr>a_new_outbound_stream_waker := Some cx\<rparr>)
      else do {
        (r, s) \<leftarrow> next_stream_id s;
        (case r of
           Err e \<Rightarrow> Some (Ready (Err e), s)
         | Ok sid \<Rightarrow> do {
             let (st, s) = make_new_outbound_stream env sid s;
             s \<leftarrow> streams_insert sid (stm_shared st) s;
             Some (Ready (Ok st), s) }) })"

text \<open>The \<open>Arc\<close> taken from the map is dropped at the end.\<close>

definition on_drop_stream ::
    "u32 \<Rightarrow> ('io, 'ch) active \<Rightarrow> (frame option \<times> ('io, 'ch) active) run" where
  "on_drop_stream sid s =
     (case streams_get sid s of
        None \<Rightarrow> Some (None, s)
      | Some a \<Rightarrow> do {
          let s = s\<lparr>a_streams := AList.delete sid (a_streams s)\<rparr>;
          (old, s) \<leftarrow> cell_update_state a Closed s;
          let f = (case old of
                     Open _ \<Rightarrow> Some (frame_new (hdr_rst (header_data sid 0)))
                   | RecvClosed \<Rightarrow> Some (frame_new (hdr_fin (header_data sid 0)))
                   | SendClosed \<Rightarrow> None
                   | Closed \<Rightarrow> None);
          s \<leftarrow> wake_reader a s;
          s \<leftarrow> wake_writer a s;
          s \<leftarrow> arc_drop a (held s @ addresses s) s;
          Some (f, s) })"

subsection \<open>Incoming frames\<close>

text \<open>The part \<open>on_data\<close> and \<open>on_window_update\<close> have in common for a reset.\<close>

definition on_reset :: "u32 \<Rightarrow> ('io, 'ch) active \<Rightarrow> ('io, 'ch) active run" where
  "on_reset sid s = do {
     s \<leftarrow> (case streams_get sid s of
             None \<Rightarrow> Some s
           | Some a \<Rightarrow> do {
               (_, s) \<leftarrow> cell_update_state a Closed s;
               s \<leftarrow> wake_reader a s;
               wake_writer a s });
     streams_remove sid s }"

definition on_data ::
    "('io, 'ch) env \<Rightarrow> frame \<Rightarrow> ('io, 'ch) active \<Rightarrow> (stream action \<times> ('io, 'ch) active) run" where
  "on_data env f s =
     (let sid = hdr_stream_id (fr_header f); flags = hdr_flags (fr_header f);
          is_finish = flags_contains flags FIN in
      if flags_contains flags RST then do { s \<leftarrow> on_reset sid s; Some (ActNone, s) }
      else if flags_contains flags SYN then
        if \<not> is_valid_remote_id sid Data s then Some (ActTerminate frame_protocol_error, s)
        else if contains_key sid s then Some (ActTerminate frame_protocol_error, s)
        else if length (a_streams s) = max_num_streams (a_config s) then
          Some (ActTerminate frame_internal_error, s)
        else if unat DEFAULT_CREDIT < length (fr_body f) then
          Some (ActTerminate frame_protocol_error, s)
        else do {
          let (st, s) = make_new_inbound_stream env sid DEFAULT_CREDIT s;
          let a = stm_shared st;
          (_, s) \<leftarrow> (if is_finish then cell_update_state a RecvClosed s else Some (Open False, s));
          sh \<leftarrow> cell a s;
          (case consume_receive_window (frame_body_len f) sh of
             Err _ \<Rightarrow> do {
               s \<leftarrow> drop_handle (e_ch env) (held s) (length (w_handles s) - 1) s;
               Some (ActTerminate frame_protocol_error, s) }
           | Ok sh \<Rightarrow> do {
               buf \<leftarrow> chunks_push (fr_body f) (sh_buffer sh);
               let s = put_cell a (sh\<lparr>sh_buffer := buf\<rparr>) s;
               s \<leftarrow> streams_insert sid a s;
               Some (ActNew st, s) }) }
      else
        case streams_get sid s of
          None \<Rightarrow> Some (ActNone, s)
        | Some a \<Rightarrow> do {
            sh \<leftarrow> cell a s;
            (case consume_receive_window (frame_body_len f) sh of
               Err _ \<Rightarrow> Some (ActTerminate frame_protocol_error, s)
             | Ok sh \<Rightarrow> do {
                 let sh = (if is_finish then snd (update_state RecvClosed sh) else sh);
                 let closed = (is_finish \<and> sh_state sh = Closed);
                 buf \<leftarrow> chunks_push (fr_body f) (sh_buffer sh);
                 s \<leftarrow> wake_reader a (put_cell a (sh\<lparr>sh_buffer := buf\<rparr>) s);
                 s \<leftarrow> (if closed then streams_remove sid s else Some s);
                 Some (ActNone, s) }) })"

definition on_window_update ::
    "('io, 'ch) env \<Rightarrow> frame \<Rightarrow> ('io, 'ch) active \<Rightarrow> (stream action \<times> ('io, 'ch) active) run" where
  "on_window_update env f s =
     (let sid = hdr_stream_id (fr_header f); flags = hdr_flags (fr_header f);
          is_finish = flags_contains flags FIN in
      if flags_contains flags RST then do { s \<leftarrow> on_reset sid s; Some (ActNone, s) }
      else if flags_contains flags SYN then
        if \<not> is_valid_remote_id sid WindowUpdate s then Some (ActTerminate frame_protocol_error, s)
        else if contains_key sid s then Some (ActTerminate frame_protocol_error, s)
        else if length (a_streams s) = max_num_streams (a_config s) then
          Some (ActTerminate frame_protocol_error, s)
        else
          case checked_add (hdr_credit (fr_header f)) DEFAULT_CREDIT of
            None \<Rightarrow> Some (ActTerminate frame_protocol_error, s)
          | Some credit \<Rightarrow> do {
              let (st, s) = make_new_inbound_stream env sid credit s;
              (_, s) \<leftarrow> (if is_finish then cell_update_state (stm_shared st) RecvClosed s
                        else Some (Open False, s));
              s \<leftarrow> streams_insert sid (stm_shared st) s;
              Some (ActNew st, s) }
      else
        case streams_get sid s of
          None \<Rightarrow> Some (ActNone, s)
        | Some a \<Rightarrow> do {
            sh \<leftarrow> cell a s;
            (case increase_send_window_by (hdr_credit (fr_header f)) sh of
               Err _ \<Rightarrow> Some (ActTerminate frame_protocol_error, s)
             | Ok sh \<Rightarrow> do {
                 let sh = (if is_finish then snd (update_state RecvClosed sh) else sh);
                 let closed = (is_finish \<and> sh_state sh = Closed);
                 let s = put_cell a sh s;
                 s \<leftarrow> (if is_finish then wake_reader a s else Some s);
                 s \<leftarrow> wake_writer a s;
                 s \<leftarrow> (if closed then streams_remove sid s else Some s);
                 Some (ActNone, s) }) })"

definition on_ping ::
    "('io, 'ch) env \<Rightarrow> frame \<Rightarrow> ('io, 'ch) active \<Rightarrow> stream action \<times> ('io, 'ch) active" where
  "on_ping env f s =
     (let sid = hdr_stream_id (fr_header f) in
      if flags_contains (hdr_flags (fr_header f)) ACK then
        (let (act, r) = handle_pong (e_clock env (w_ticks s)) (e_clock env (Suc (w_ticks s)))
               (frame_ping_id f) (w_rtt s)
         in (act, s\<lparr>w_rtt := r, w_ticks := w_ticks s + 2\<rparr>))
      else if sid = CONNECTION_ID \<or> contains_key sid s then
        (ActPing (frame_new (hdr_ack (header_ping (hdr_ping_id (fr_header f))))), s)
      else (ActNone, s))"

definition on_frame ::
    "('io, 'ch) env \<Rightarrow> frame \<Rightarrow> ('io, 'ch) active \<Rightarrow>
       ((stream action, connection_error) result \<times> ('io, 'ch) active) run" where
  "on_frame env f s = do {
     let sid = hdr_stream_id (fr_header f);
     let flags = hdr_flags (fr_header f);
     let tag = hdr_tag (fr_header f);
     s \<leftarrow> (if flags_contains flags ACK \<and> tag \<in> {Data, WindowUpdate} then do {
             s \<leftarrow> (case streams_get sid s of
                     None \<Rightarrow> Some s
                   | Some a \<Rightarrow> do { (_, s) \<leftarrow> cell_update_state a (Open True) s; Some s });
             Some (s\<lparr>w_woken := wake (a_new_outbound_stream_waker s) (w_woken s),
                     a_new_outbound_stream_waker := None\<rparr>) }
           else Some s);
     if \<not> flags_contains flags SYN \<and> tag \<in> {Data, WindowUpdate} \<and> \<not> contains_key sid s then
       Some (Ok ActNone, s)
     else
       case tag of
         Data \<Rightarrow> do { f \<leftarrow> frame_into_data f; (act, s) \<leftarrow> on_data env f s; Some (Ok act, s) }
       | WindowUpdate \<Rightarrow> do {
           f \<leftarrow> frame_into_window_update f; (act, s) \<leftarrow> on_window_update env f s; Some (Ok act, s) }
       | Ping \<Rightarrow> do { f \<leftarrow> frame_into_ping f; let (act, s) = on_ping env f s; Some (Ok act, s) }
       | GoAway \<Rightarrow> Some (Err Closed_Error, s) }"

subsection \<open>The poll loop\<close>

text \<open>Reading from the socket, the last part of a round of \<open>poll\<close>.\<close>

definition active_read ::
    "('io, 'ch) env \<Rightarrow> ('io, 'ch) active \<Rightarrow>
       ((stream, connection_error) result poll, ('io, 'ch) active) flow run" where
  "active_read env s =
     (if a_pending_read_frame s \<noteq> None then Some (Return Pending s)
      else do {
        (r, sock) \<leftarrow> io_poll_next (e_io env) (a_socket s);
        let s = s\<lparr>a_socket := sock\<rparr>;
        (case r of
           Pending \<Rightarrow> Some (Return Pending s)
         | Ready None \<Rightarrow> Some (Return (Ready (Err Closed_Error)) s)
         | Ready (Some (Err e)) \<Rightarrow> Some (Return (Ready (Err (Decode e))) s)
         | Ready (Some (Ok f)) \<Rightarrow> do {
             (r, s) \<leftarrow> on_frame env f s;
             Some (case r of
                Err e \<Rightarrow> Return (Ready (Err e)) s
              | Ok ActNone \<Rightarrow> Continue s
              | Ok (ActNew st) \<Rightarrow> Return (Ready (Ok st)) s
              | Ok (ActPing f) \<Rightarrow> Continue (s\<lparr>a_pending_read_frame := Some f\<rparr>)
              | Ok (ActTerminate f) \<Rightarrow> Continue (s\<lparr>a_pending_read_frame := Some f\<rparr>)) }) })"

text \<open>Commands of the streams, before that.\<close>

definition active_commands ::
    "('io, 'ch) env \<Rightarrow> waker \<Rightarrow> ('io, 'ch) active \<Rightarrow>
       ((stream, connection_error) result poll, ('io, 'ch) active) flow run" where
  "active_commands env cx s =
     (if a_pending_write_frame s \<noteq> None then active_read env s
      else
        case mx_poll_next (e_ch env) cx (w_chan s) of
          (Ready (Some (_, Some (SendFrame f))), ch) \<Rightarrow>
            Some (Continue (s\<lparr>w_chan := ch, a_pending_write_frame := Some f\<rparr>))
        | (Ready (Some (sid, Some (CloseStream ack))), ch) \<Rightarrow>
            Some (Continue (s\<lparr>w_chan := ch, a_pending_write_frame := Some (frame_close_stream sid ack)\<rparr>))
        | (Ready (Some (sid, None)), ch) \<Rightarrow> do {
            (fo, s) \<leftarrow> on_drop_stream sid (s\<lparr>w_chan := ch\<rparr>);
            Some (Continue (case fo of Some f \<Rightarrow> s\<lparr>a_pending_write_frame := Some f\<rparr> | None \<Rightarrow> s)) }
        | (Ready None, ch) \<Rightarrow> active_read env (s\<lparr>w_chan := ch, a_no_streams_waker := Some cx\<rparr>)
        | (Pending, ch) \<Rightarrow> active_read env (s\<lparr>w_chan := ch\<rparr>))"

text \<open>Flushing, before that; an error ends the poll.\<close>

definition active_flush ::
    "('io, 'ch) env \<Rightarrow> waker \<Rightarrow> ('io, 'ch) active \<Rightarrow>
       ((stream, connection_error) result poll, ('io, 'ch) active) flow run" where
  "active_flush env cx s = do {
     (r, sock) \<leftarrow> io_poll_flush (e_io env) (a_socket s);
     let s = s\<lparr>a_socket := sock\<rparr>;
     (case r of
        Ready (Err e) \<Rightarrow> Some (Return (Ready (Err (ConnIo e))) s)
      | _ \<Rightarrow> active_commands env cx s) }"

text \<open>One round of \<open>poll\<close>. \<open>is_ready\<close> holds of an error as well.\<close>

definition active_step ::
    "('io, 'ch) env \<Rightarrow> waker \<Rightarrow> ('io, 'ch) active \<Rightarrow>
       ((stream, connection_error) result poll, ('io, 'ch) active) flow run" where
  "active_step env cx s = do {
     (r, sock) \<leftarrow> io_poll_ready (e_io env) (a_socket s);
     let s = s\<lparr>a_socket := sock\<rparr>;
     if is_ready r then
       (let (ping, rtt) = next_ping (e_clock env (w_ticks s)) (e_clock env (Suc (w_ticks s))) (w_rtt s);
            s = s\<lparr>w_rtt := rtt, w_ticks := w_ticks s + 2\<rparr>
        in case ping of
             Some f \<Rightarrow> Some (Continue (s\<lparr>a_socket := io_start_send f (a_socket s)\<rparr>))
           | None \<Rightarrow>
               (case a_pending_read_frame s of
                  Some f \<Rightarrow> Some (Continue (s\<lparr>a_pending_read_frame := None,
                    a_socket := io_start_send f (a_socket s)\<rparr>))
                | None \<Rightarrow>
                    (case a_pending_write_frame s of
                       Some f \<Rightarrow> Some (Continue (s\<lparr>a_pending_write_frame := None,
                         a_socket := io_start_send f (a_socket s)\<rparr>))
                     | None \<Rightarrow> active_flush env cx s)))
     else active_flush env cx s }"

definition active_poll ::
    "('io, 'ch) env \<Rightarrow> waker \<Rightarrow> ('io, 'ch) active \<Rightarrow>
       ((stream, connection_error) result poll \<times> ('io, 'ch) active) run" where
  "active_poll env cx = run_loop (active_step env cx)"

subsection \<open>The end of the active state\<close>

text \<open>\<open>for (id, s) in self.streams.drain()\<close>\<close>

fun drain_streams :: "(u32 \<times> nat) list \<Rightarrow> ('io, 'ch) active \<Rightarrow> ('io, 'ch) active run" where
  "drain_streams [] s = Some s"
| "drain_streams ((sid, a) # rest) s = do {
     (_, s) \<leftarrow> cell_update_state a Closed s;
     s \<leftarrow> wake_reader a s;
     s \<leftarrow> wake_writer a s;
     s \<leftarrow> arc_drop a (map snd rest @ addresses s) s;
     drain_streams rest s }"

definition drop_all_streams :: "('io, 'ch) active \<Rightarrow> ('io, 'ch) active run" where
  "drop_all_streams s = drain_streams (a_streams s) (s\<lparr>a_streams := []\<rparr>)"

end
