(* ===== verification/Active_Inv.thy ===== *)
theory Active_Inv
  imports Active_Conn
begin

text \<open>
  The invariant of an active connection and its preservation by every operation. Since the
  operations return \<open>None\<close> when they panic, each preservation lemma also shows that the operation
  does not panic.
\<close>

subsection \<open>Association lists\<close>

lemma alist_update_fresh: "map_of xs k = None \<Longrightarrow> AList.update k v xs = xs @ [(k, v)]"
  by (induction xs) (auto split: if_splits)

lemma length_filter_imp: "(\<And>x. x \<in> set xs \<Longrightarrow> P x \<Longrightarrow> Q x) \<Longrightarrow> length (filter P xs) \<le> length (filter Q xs)"
  by (induction xs) (auto simp: le_SucI)

lemma set_map_snd_delete:
  assumes "distinct (map fst xs)" and "map_of xs k = Some a"
  shows "set (map snd xs) = insert a (set (map snd (AList.delete k xs)))"
proof -
  have a: "(k, a) \<in> set xs"
    using assms(2) by (rule map_of_SomeD)
  have val: "b \<in> set (map snd ys) \<longleftrightarrow> (\<exists>j. (j, b) \<in> set ys)" for b :: 'v and ys :: "('k \<times> 'v) list"
    by force
  have del: "(j, b) \<in> set (AList.delete k xs) \<longleftrightarrow> j \<noteq> k \<and> (j, b) \<in> set xs" for j b
    by (auto simp: AList.delete_eq)
  have "b = a" if "(k, b) \<in> set xs" for b
    using eq_key_imp_eq_value [OF assms(1) that a] .
  then show ?thesis
    using a by (intro set_eqI) (unfold insert_iff val del, metis)
qed

lemma distinct_map_filter_fst: "distinct (map f xs) \<Longrightarrow> distinct (map f (filter P xs))"
  by (induction xs) auto

lemma delete_absent: "map_of xs k = None \<Longrightarrow> AList.delete k xs = xs"
  by (induction xs) (auto simp: AList.delete_eq split: if_splits)

subsection \<open>The invariant\<close>

definition map_ok :: "('io, 'ch) active \<Rightarrow> bool" where
  "map_ok s \<longleftrightarrow> distinct (map fst (a_streams s)) \<and> distinct (held s)
     \<and> length (a_streams s) \<le> max_num_streams (a_config s)
     \<and> own_id (a_mode s) (a_next_id s)
     \<and> (\<forall>sid \<in> set (map fst (a_streams s)). own_id (a_mode s) sid \<longrightarrow> sid < a_next_id s)
     \<and> ack_backlog s \<le> MAX_ACK_BACKLOG"

definition io_ok :: "('io, 'ch) active \<Rightarrow> bool" where
  "io_ok s \<longleftrightarrow> wstate_ok (sock_write (a_socket s)) \<and> rstate_ok (sock_read (a_socket s))
     \<and> (\<forall>f. a_pending_read_frame s = Some f \<longrightarrow> frame_ok f)
     \<and> (\<forall>f. a_pending_write_frame s = Some f \<longrightarrow> frame_ok f)"

definition core_ok :: "('io, 'ch) active \<Rightarrow> bool" where
  "core_ok s \<longleftrightarrow> world_ok (a_config s) (held s) s \<and> map_ok s"

definition active_ok :: "('ch \<Rightarrow> stream_command multiset) \<Rightarrow> ('io, 'ch) active \<Rightarrow> bool" where
  "active_ok queued s \<longleftrightarrow> core_ok s \<and> io_ok s \<and> (\<forall>c \<in># queued (w_chan s). cmd_ok c)"

text \<open>What handling a frame or a dropped stream leaves alone.\<close>

definition same_io :: "('io, 'ch) active \<Rightarrow> ('io, 'ch) active \<Rightarrow> bool" where
  "same_io s s' \<longleftrightarrow> a_socket s' = a_socket s \<and> a_pending_read_frame s' = a_pending_read_frame s
     \<and> a_pending_write_frame s' = a_pending_write_frame s
     \<and> a_mode s' = a_mode s \<and> a_config s' = a_config s"

lemma same_io_trans [trans]: "same_io s t \<Longrightarrow> same_io t u \<Longrightarrow> same_io s u"
  by (simp add: same_io_def)

lemma active_new_ok:
  assumes "config_ok cfg" and "queued ch = {#}"
  shows "active_ok queued (active_new io ch now cfg mode)"
  using assms
  by (auto simp: active_ok_def core_ok_def io_ok_def world_ok_def world_inv_def map_ok_def active_new_def rtt_new_def rtt_get_def
      config_ok_def heap_extra_def alive_def io_new_def ack_backlog_def own_id_def is_client_def
      is_server_def split: mode.splits)

lemma core_ok_cell:
  assumes "core_ok s" and "a \<in> set (held s) \<or> a \<in> set (addresses s)"
  shows "\<exists>sh. cell a s = Some sh \<and> cell_ok (a_config s) (rtt_get (w_rtt s)) sh"
  using assms world_inv_cell [of "a_config s" "set (held s) \<union> set (addresses s)" s a]
  by (auto simp: core_ok_def world_ok_def)

text \<open>The backlog does not grow when states move up and entries go away.\<close>

lemma is_pending_ack_down: "sh_state sh \<le> sh_state sh' \<Longrightarrow> is_pending_ack sh' \<Longrightarrow> is_pending_ack sh"
  by (cases "sh_state sh"; cases "sh_state sh'") (auto simp: is_pending_ack_def)

lemma ack_backlog_mono:
  assumes "a_mode s' = a_mode s" and "a_streams s' = filter R (a_streams s)"
    and "\<And>a sh'. a \<in> set (held s') \<Longrightarrow> cell a s' = Some sh' \<Longrightarrow>
      \<exists>sh. cell a s = Some sh \<and> sh_state sh \<le> sh_state sh'"
  shows "ack_backlog s' \<le> ack_backlog s"
proof -
  let ?P = "\<lambda>s (sid, a). own_id (a_mode s) sid \<and>
     (case cell a s of Some sh \<Rightarrow> is_pending_ack sh | None \<Rightarrow> False)"
  have "?P s x" if x: "x \<in> set (a_streams s')" "?P s' x" for x
  proof -
    obtain sid a where [simp]: "x = (sid, a)"
      by (rule prod.exhaust)
    from x have "a \<in> set (held s')"
      by (auto simp: image_iff intro: bexI [of _ x])
    with x(2) assms(1) assms(3) [of a] show ?thesis
      by (auto split: option.splits dest: is_pending_ack_down)
  qed
  then have "length (filter (?P s') (a_streams s')) \<le> length (filter (?P s) (a_streams s'))"
    by (intro length_filter_imp)
  also have "\<dots> \<le> length (filter (?P s) (a_streams s))"
    unfolding assms(2) filter_filter by (intro length_filter_imp) auto
  finally show ?thesis
    by (simp add: ack_backlog_def)
qed

subsection \<open>Steps on single cells\<close>

text \<open>
  A step that changes cells, wakes tasks and gives window memory back, but touches nothing else;
  cells may be freed, and the states of the others only move up.
\<close>

definition rest :: "('io, 'ch) active \<Rightarrow> ('io, 'ch) active" where
  "rest s = s\<lparr>w_heap := [], w_acc := 0, w_woken := []\<rparr>"

definition evolves :: "('io, 'ch) active \<Rightarrow> ('io, 'ch) active \<Rightarrow> bool" where
  "evolves s s' \<longleftrightarrow> rest s' = rest s
     \<and> (\<forall>b sh'. cell b s' = Some sh' \<longrightarrow> (\<exists>sh. cell b s = Some sh \<and> sh_state sh \<le> sh_state sh'))"

lemma rest_simps [simp]:
  "rest (s\<lparr>w_heap := h\<rparr>) = rest s" "rest (s\<lparr>w_acc := acc\<rparr>) = rest s"
  "rest (s\<lparr>w_woken := w\<rparr>) = rest s" "rest (put_cell a sh s) = rest s"
  by (simp_all add: rest_def put_cell_def)

lemma evolves_refl: "evolves s s"
  by (auto simp: evolves_def)

lemma evolves_trans [trans]: "evolves s t \<Longrightarrow> evolves t u \<Longrightarrow> evolves s u"
  unfolding evolves_def by (metis order_trans)

lemma evolves_fields:
  assumes "evolves s s'"
  shows "a_streams s' = a_streams s" "w_handles s' = w_handles s" "w_chan s' = w_chan s"
    "w_rtt s' = w_rtt s" "same_io s s'" "a_next_id s' = a_next_id s"
proof -
  have r: "rest s' = rest s"
    using assms by (simp add: evolves_def)
  have eq: "f s' = f s" if "\<And>t. f (rest t) = f t" for f :: "_ \<Rightarrow> 'z"
    using arg_cong [OF r, of f] that by simp
  show "a_streams s' = a_streams s" "w_handles s' = w_handles s" "w_chan s' = w_chan s"
    "w_rtt s' = w_rtt s" "a_next_id s' = a_next_id s"
    by (rule eq, simp add: rest_def)+
  show "same_io s s'"
    unfolding same_io_def by (intro conjI; rule eq, simp add: rest_def)
qed

lemma cell_active_fields [simp]:
  "cell a (s\<lparr>a_streams := y1\<rparr>) = cell a s" "cell a (s\<lparr>a_socket := y2\<rparr>) = cell a s"
  "cell a (s\<lparr>a_next_id := y3\<rparr>) = cell a s" "cell a (s\<lparr>a_no_streams_waker := y4\<rparr>) = cell a s"
  "cell a (s\<lparr>a_pending_read_frame := y5\<rparr>) = cell a s"
  "cell a (s\<lparr>a_pending_write_frame := y6\<rparr>) = cell a s"
  "cell a (s\<lparr>a_new_outbound_stream_waker := y7\<rparr>) = cell a s"
  by (simp_all add: cell_def)

lemma evolves_put:
  assumes "cell a s = Some sh" and "sh_state sh \<le> sh_state sh'"
  shows "evolves s ((put_cell a sh' s)\<lparr>w_woken := w\<rparr>)" "evolves s (put_cell a sh' s)"
proof -
  have "a < length (w_heap s)"
    using assms(1) by (simp add: cell_Some)
  with assms show "evolves s ((put_cell a sh' s)\<lparr>w_woken := w\<rparr>)" "evolves s (put_cell a sh' s)"
    unfolding evolves_def by (auto simp: cell_put_cell split: if_splits)
qed

lemma wake_reader_ok:
  assumes "world_inv cfg refs s" and "a \<in> refs"
  shows "\<exists>s'. wake_reader a s = Some s' \<and> world_inv cfg refs s' \<and> evolves s s'"
proof -
  obtain sh where sh: "cell a s = Some sh" "cell_ok cfg (rtt_get (w_rtt s)) sh"
    using world_inv_cell [OF assms] by blast
  with world_inv_put_same [OF assms(1) sh(1), of "sh\<lparr>sh_reader := None\<rparr>"] show ?thesis
    by (auto simp: wake_reader_def cell_ok_def intro: evolves_put)
qed

lemma wake_writer_ok:
  assumes "world_inv cfg refs s" and "a \<in> refs"
  shows "\<exists>s'. wake_writer a s = Some s' \<and> world_inv cfg refs s' \<and> evolves s s'"
proof -
  obtain sh where sh: "cell a s = Some sh" "cell_ok cfg (rtt_get (w_rtt s)) sh"
    using world_inv_cell [OF assms] by blast
  with world_inv_put_same [OF assms(1) sh(1), of "sh\<lparr>sh_writer := None\<rparr>"] show ?thesis
    by (auto simp: wake_writer_def cell_ok_def intro: evolves_put)
qed

lemma cell_update_state_ok:
  assumes "world_inv cfg refs s" and "a \<in> refs" and "t \<noteq> Open False"
  shows "\<exists>old s'. cell_update_state a t s = Some (old, s') \<and> world_inv cfg refs s' \<and> evolves s s'
    \<and> (\<exists>sh. cell a s = Some sh \<and> old = sh_state sh
        \<and> s' = put_cell a (sh\<lparr>sh_state := next_state (sh_state sh) t\<rparr>) s)"
proof -
  obtain sh where sh: "cell a s = Some sh" "cell_ok cfg (rtt_get (w_rtt s)) sh"
    using world_inv_cell [OF assms(1,2)] by blast
  let ?sh = "sh\<lparr>sh_state := next_state (sh_state sh) t\<rparr>"
  have "world_inv cfg refs (put_cell a ?sh s)"
    using sh by (intro world_inv_put_same [OF assms(1) sh(1)]) (auto simp: cell_ok_def)
  moreover have "evolves s (put_cell a ?sh s)"
    using assms(3) by (intro evolves_put [OF sh(1)]) (simp add: le_next_state)
  ultimately show ?thesis
    using sh(1) by (simp add: cell_update_state_def update_state_def)
qed

text \<open>The three steps \<open>on_data\<close>, \<open>on_drop_stream\<close> and \<open>drop_all_streams\<close> close a stream with.\<close>

lemma close_and_wake_ok:
  assumes "world_inv cfg refs s" and "a \<in> refs"
  shows "\<exists>old s1 s2 s3. cell_update_state a Closed s = Some (old, s1) \<and> wake_reader a s1 = Some s2
    \<and> wake_writer a s2 = Some s3 \<and> world_inv cfg refs s3 \<and> evolves s s3"
proof -
  obtain old s1 where 1: "cell_update_state a Closed s = Some (old, s1)" "world_inv cfg refs s1" "evolves s s1"
    using cell_update_state_ok [OF assms, of Closed] by blast
  obtain s2 where 2: "wake_reader a s1 = Some s2" "world_inv cfg refs s2" "evolves s1 s2"
    using wake_reader_ok [OF 1(2) assms(2)] by blast
  obtain s3 where 3: "wake_writer a s2 = Some s3" "world_inv cfg refs s3" "evolves s2 s3"
    using wake_writer_ok [OF 2(2) assms(2)] by blast
  with 1 2 show ?thesis
    by (blast intro: evolves_trans)
qed

lemma arc_drop_ok:
  assumes "world_inv cfg (insert a (set refs)) s"
  shows "\<exists>s'. arc_drop a refs s = Some s' \<and> world_inv cfg (set refs) s' \<and> evolves s s'"
proof -
  from world_inv_arc_drop [OF assms] obtain h acc where
    d: "arc_drop a refs s = Some (s\<lparr>w_heap := h, w_acc := acc\<rparr>)"
      "world_inv cfg (set refs) (s\<lparr>w_heap := h, w_acc := acc\<rparr>)"
    and c: "\<forall>b. cell b (s\<lparr>w_heap := h, w_acc := acc\<rparr>) = (if b = a \<and> a \<notin> set refs then None else cell b s)"
    by blast
  have "evolves s (s\<lparr>w_heap := h, w_acc := acc\<rparr>)"
    unfolding evolves_def using c by (auto split: if_splits)
  with d show ?thesis by blast
qed

text \<open>Such a step, after removing entries, keeps the invariant.\<close>

lemma core_ok_evolves:
  assumes "core_ok s" and "evolves (s\<lparr>a_streams := filter R (a_streams s)\<rparr>) s'"
    and "world_inv (a_config s) (set (held s') \<union> set (addresses s')) s'"
  shows "core_ok s'"
proof -
  note f = evolves_fields [OF assms(2)]
  have "ack_backlog s' \<le> ack_backlog s"
  proof (rule ack_backlog_mono)
    show "a_mode s' = a_mode s" "a_streams s' = filter R (a_streams s)"
      using f by (simp_all add: same_io_def)
    fix a sh'
    assume "cell a s' = Some sh'"
    then show "\<exists>sh. cell a s = Some sh \<and> sh_state sh \<le> sh_state sh'"
      using assms(2) by (auto simp: evolves_def)
  qed
  moreover have "length (filter R (a_streams s)) \<le> length (a_streams s)"
    by simp
  ultimately show ?thesis
    using assms(1,3) f
    by (auto simp: core_ok_def map_ok_def world_ok_def same_io_def distinct_map_filter_fst
        simp del: length_filter_le intro: order_trans)
qed

lemma world_inv_active_fields [simp]:
  "world_inv cfg refs (s\<lparr>a_streams := y1\<rparr>) = world_inv cfg refs s"
  "world_inv cfg refs (s\<lparr>a_socket := y2\<rparr>) = world_inv cfg refs s"
  "world_inv cfg refs (s\<lparr>a_next_id := y3\<rparr>) = world_inv cfg refs s"
  "world_inv cfg refs (s\<lparr>a_no_streams_waker := y4\<rparr>) = world_inv cfg refs s"
  "world_inv cfg refs (s\<lparr>a_pending_read_frame := y5\<rparr>) = world_inv cfg refs s"
  "world_inv cfg refs (s\<lparr>a_pending_write_frame := y6\<rparr>) = world_inv cfg refs s"
  "world_inv cfg refs (s\<lparr>a_new_outbound_stream_waker := y7\<rparr>) = world_inv cfg refs s"
  by (simp_all add: world_inv_def)

lemma core_ok_fields [simp]:
  "core_ok (s\<lparr>a_socket := y2\<rparr>) = core_ok s" "core_ok (s\<lparr>a_no_streams_waker := y4\<rparr>) = core_ok s"
  "core_ok (s\<lparr>a_pending_read_frame := y5\<rparr>) = core_ok s"
  "core_ok (s\<lparr>a_pending_write_frame := y6\<rparr>) = core_ok s"
  "core_ok (s\<lparr>a_new_outbound_stream_waker := y7\<rparr>) = core_ok s"
  "core_ok (s\<lparr>w_chan := x2\<rparr>) = core_ok s" "core_ok (s\<lparr>w_woken := x5\<rparr>) = core_ok s"
  "core_ok (s\<lparr>w_ticks := x6\<rparr>) = core_ok s"
  by (simp_all add: core_ok_def world_ok_def map_ok_def ack_backlog_def)

lemma core_ok_inv: "core_ok s \<Longrightarrow> world_inv (a_config s) (set (held s) \<union> set (addresses s)) s"
  by (simp add: core_ok_def world_ok_def)

text \<open>Without removing entries.\<close>

lemma core_ok_evolves_same:
  assumes "core_ok s" and "evolves s s'"
    and "world_inv (a_config s) (set (held s) \<union> set (addresses s)) s'"
  shows "core_ok s'"
proof -
  have "s\<lparr>a_streams := filter (\<lambda>_. True) (a_streams s)\<rparr> = s"
    by simp
  with assms evolves_fields(1,2) [OF assms(2)] core_ok_evolves [OF assms(1), of "\<lambda>_. True" s'] show ?thesis
    by simp
qed

text \<open>The result of taking an entry out of the map, closing its stream or not, and dropping it.\<close>

lemma remove_entry_ok:
  assumes "core_ok s" and "streams_get sid s = Some a"
    and s0: "s0 = s\<lparr>a_streams := AList.delete sid (a_streams s)\<rparr>"
    and s1: "world_inv (a_config s) (set (held s) \<union> set (addresses s)) s1" "evolves s0 s1"
  shows "\<exists>s2. arc_drop a (held s1 @ addresses s1) s1 = Some s2 \<and> core_ok s2 \<and> evolves s0 s2"
proof -
  have "set (held s) = insert a (set (held s0))"
    using assms(1,2) set_map_snd_delete [of "a_streams s" sid a]
    by (simp add: s0 core_ok_def map_ok_def streams_get_def)
  then have "set (held s) \<union> set (addresses s) = insert a (set (held s1 @ addresses s1))"
    using evolves_fields(1,2) [OF s1(2)] by (simp add: s0)
  with s1(1) have "world_inv (a_config s) (insert a (set (held s1 @ addresses s1))) s1"
    by simp
  from arc_drop_ok [OF this] obtain s2 where s2:
    "arc_drop a (held s1 @ addresses s1) s1 = Some s2"
    "world_inv (a_config s) (set (held s1 @ addresses s1)) s2" "evolves s1 s2"
    by blast
  note up = evolves_trans [OF s1(2) s2(3)]
  have "core_ok s2"
  proof (rule core_ok_evolves [OF assms(1)])
    show "evolves (s\<lparr>a_streams := filter (\<lambda>(k', _). sid \<noteq> k') (a_streams s)\<rparr>) s2"
      using up by (simp add: s0 AList.delete_eq)
    show "world_inv (a_config s) (set (held s2) \<union> set (addresses s2)) s2"
      using s2(2) evolves_fields(1,2) [OF s2(3)] by simp
  qed
  with s2(1) up show ?thesis by blast
qed

text \<open>What the handlers of frames leave behind.\<close>

definition quiet :: "('io, 'ch) active \<Rightarrow> ('io, 'ch) active \<Rightarrow> bool" where
  "quiet s s' \<longleftrightarrow> core_ok s' \<and> same_io s s' \<and> w_chan s' = w_chan s \<and> w_rtt s' = w_rtt s"

lemma quiet_refl: "core_ok s \<Longrightarrow> quiet s s"
  by (simp add: quiet_def same_io_def)

lemma quiet_trans [trans]: "quiet s t \<Longrightarrow> quiet t u \<Longrightarrow> quiet s u"
  by (auto simp: quiet_def intro: same_io_trans)

lemma quiet_evolves: "core_ok s' \<Longrightarrow> evolves s s' \<Longrightarrow> quiet s s'"
  using evolves_fields [of s s'] by (simp add: quiet_def)

lemma quiet_removed:
  "core_ok s' \<Longrightarrow> evolves (s\<lparr>a_streams := xs\<rparr>) s' \<Longrightarrow> quiet s s'"
  using evolves_fields [of "s\<lparr>a_streams := xs\<rparr>" s'] by (simp add: quiet_def same_io_def)

lemma streams_remove_ok:
  assumes "core_ok s"
  shows "\<exists>s'. streams_remove sid s = Some s' \<and> quiet s s'
    \<and> a_streams s' = AList.delete sid (a_streams s) \<and> w_handles s' = w_handles s"
proof (cases "streams_get sid s")
  case None
  with assms show ?thesis
    by (simp add: streams_remove_def quiet_refl delete_absent streams_get_def)
next
  case (Some a)
  let ?s0 = "s\<lparr>a_streams := AList.delete sid (a_streams s)\<rparr>"
  have "world_inv (a_config s) (set (held s) \<union> set (addresses s)) ?s0"
    using core_ok_inv [OF assms] by simp
  from remove_entry_ok [OF assms Some refl this evolves_refl] obtain s2 where
    "arc_drop a (held ?s0 @ addresses ?s0) ?s0 = Some s2" "core_ok s2" "evolves ?s0 s2"
    by blast
  with Some evolves_fields(1,2) [of ?s0 s2] show ?thesis
    by (auto simp: streams_remove_def Let_def intro: quiet_removed)
qed

lemma held_get: "streams_get sid s = Some a \<Longrightarrow> a \<in> set (held s)"
  by (force simp: streams_get_def dest: map_of_SomeD)

lemma on_reset_ok:
  assumes "core_ok s"
  shows "\<exists>s'. on_reset sid s = Some s' \<and> quiet s s'"
proof (cases "streams_get sid s")
  case None
  with streams_remove_ok [OF assms, of sid] show ?thesis
    by (auto simp: on_reset_def)
next
  case (Some a)
  have "a \<in> set (held s) \<union> set (addresses s)"
    using held_get [OF Some] by simp
  from close_and_wake_ok [OF core_ok_inv [OF assms] this] obtain old s1 s2 s3 where
    c: "cell_update_state a Closed s = Some (old, s1)" "wake_reader a s1 = Some s2"
      "wake_writer a s2 = Some s3"
    and s3: "world_inv (a_config s) (set (held s) \<union> set (addresses s)) s3" "evolves s s3"
    by blast
  have ok: "core_ok s3"
    using core_ok_evolves_same [OF assms s3(2,1)] .
  with streams_remove_ok [OF ok, of sid] Some c quiet_evolves [OF ok s3(2)] show ?thesis
    by (auto simp: on_reset_def intro: quiet_trans)
qed

lemma on_drop_stream_ok:
  assumes "core_ok s"
  shows "\<exists>f s'. on_drop_stream sid s = Some (f, s') \<and> quiet s s' \<and> (\<forall>g. f = Some g \<longrightarrow> frame_ok g)"
proof (cases "streams_get sid s")
  case None
  with assms show ?thesis
    by (simp add: on_drop_stream_def quiet_refl)
next
  case (Some a)
  let ?s0 = "s\<lparr>a_streams := AList.delete sid (a_streams s)\<rparr>"
  have "a \<in> set (held s) \<union> set (addresses s)"
    using held_get [OF Some] by simp
  with core_ok_inv [OF assms] close_and_wake_ok [of "a_config s" "set (held s) \<union> set (addresses s)" ?s0 a]
  obtain old s1 s2 s3 where
    c: "cell_update_state a Closed ?s0 = Some (old, s1)" "wake_reader a s1 = Some s2"
      "wake_writer a s2 = Some s3"
    and s3: "world_inv (a_config s) (set (held s) \<union> set (addresses s)) s3" "evolves ?s0 s3"
    by auto
  from remove_entry_ok [OF assms Some refl s3] obtain s4 where
    "arc_drop a (held s3 @ addresses s3) s3 = Some s4" "core_ok s4" "evolves ?s0 s4"
    by blast
  with Some c show ?thesis
    by (auto simp: on_drop_stream_def frame_ok_def frame_new_def header_data_def
        intro: quiet_removed split: stream_state.splits)
qed

subsection \<open>New streams\<close>

lemma streams_insert_ok:
  assumes "core_ok s" and "streams_get sid s = None" and "a \<in> set (addresses s)" and "a \<notin> set (held s)"
    and "length (a_streams s) < max_num_streams (a_config s)"
    and "own_id (a_mode s) sid \<Longrightarrow> sid < a_next_id s \<and> ack_backlog s < MAX_ACK_BACKLOG"
  shows "streams_insert sid a s = Some (s\<lparr>a_streams := a_streams s @ [(sid, a)]\<rparr>)
    \<and> quiet s (s\<lparr>a_streams := a_streams s @ [(sid, a)]\<rparr>)"
proof -
  let ?s = "s\<lparr>a_streams := a_streams s @ [(sid, a)]\<rparr>"
  have fresh: "sid \<notin> fst ` set (a_streams s)"
    using assms(2) by (simp add: streams_get_def map_of_eq_None_iff)
  have "set (held ?s) \<union> set (addresses ?s) = set (held s) \<union> set (addresses s)"
    using assms(3) by auto
  moreover have "ack_backlog ?s \<le> ack_backlog s + (if own_id (a_mode s) sid then 1 else 0)"
    by (simp add: ack_backlog_def)
  then have "ack_backlog ?s \<le> MAX_ACK_BACKLOG"
    using assms(1,6) by (auto simp: core_ok_def map_ok_def split: if_splits)
  ultimately have "core_ok ?s"
    using assms fresh by (auto simp: core_ok_def world_ok_def map_ok_def)
  with assms(2) show ?thesis
    by (simp add: streams_insert_def Let_def alist_update_fresh streams_get_def quiet_def same_io_def)
qed

lemma core_ok_stream_new:
  assumes "core_ok s" and "0 < max_num_streams (a_config s)"
    and "stream_new ops clk fl sid (a_config s) credit tx s = (st, s')"
  shows "core_ok s' \<and> same_io s s' \<and> w_rtt s' = w_rtt s \<and> a_streams s' = a_streams s
    \<and> a_next_id s' = a_next_id s \<and> ack_backlog s' = ack_backlog s
    \<and> w_chan s' = snd (mx_clone ops tx (w_chan s))
    \<and> stm_shared st \<in> set (addresses s') \<and> stm_shared st \<notin> set (held s')
    \<and> w_handles s' = w_handles s @ [st] \<and> stm_id st = sid \<and> stm_flag st = fl
    \<and> cell (stm_shared st) s' = Some (shared_new DEFAULT_CREDIT credit (a_config s) (clk (w_ticks s)))"
proof -
  have w: "world_ok (a_config s) (held s) s"
    using assms(1) by (simp add: core_ok_def)
  note new = stream_new_ok [OF w assms(2,3)]
  have eqs: "same_io s s'" "w_rtt s' = w_rtt s" "a_streams s' = a_streams s" "a_next_id s' = a_next_id s"
    "w_chan s' = snd (mx_clone ops tx (w_chan s))"
    using assms(3) by (auto simp: stream_new_def Let_def same_io_def split: prod.splits)
  have old: "a < length (w_heap s)" if "a \<in> set (held s)" for a
    using that core_ok_inv [OF assms(1)] by (auto simp: world_inv_def alive_def)
  have same: "cell a s' = cell a s" if "(k, a) \<in> set (a_streams s)" for k a
  proof -
    have "a \<in> set (held s)"
      using that by (force simp: image_iff)
    with new old show ?thesis by blast
  qed
  have mode: "a_mode s' = a_mode s"
    using eqs(1) by (simp add: same_io_def)
  have "(case x of (sid, a) \<Rightarrow> own_id (a_mode s) sid \<and>
        (case cell a s' of Some sh \<Rightarrow> is_pending_ack sh | None \<Rightarrow> False))
      = (case x of (sid, a) \<Rightarrow> own_id (a_mode s) sid \<and>
        (case cell a s of Some sh \<Rightarrow> is_pending_ack sh | None \<Rightarrow> False))"
    if "x \<in> set (a_streams s)" for x
    using same [of "fst x" "snd x"] that by (cases x) simp
  from filter_cong [OF refl this] have "ack_backlog s' = ack_backlog s"
    unfolding ack_backlog_def eqs(3) mode by (rule arg_cong)
  moreover have "stm_shared st \<notin> set (held s)"
  proof -
    have "stm_shared st = length (w_heap s)"
      using new by simp
    with old [of "stm_shared st"] show ?thesis by auto
  qed
  ultimately show ?thesis
    using new eqs assms(1) by (auto simp: core_ok_def map_ok_def same_io_def)
qed

lemma receive_data_ok:
  assumes "shared_ok rtt sh" and "length (fr_body f) < 2 ^ 32"
    and "consume_receive_window (frame_body_len f) sh = Ok sh1"
  shows "\<exists>buf fc. chunks_push (fr_body f) (sh_buffer sh) = Some buf
    \<and> chunks_bytes buf = chunks_bytes (sh_buffer sh) @ fr_body f
    \<and> sh1 = sh\<lparr>sh_flow := fc\<rparr> \<and> fc = (sh_flow sh)\<lparr>fc_receive_window := fc_receive_window fc\<rparr>
    \<and> unat (fc_receive_window fc) + length (fr_body f) = unat (fc_receive_window (sh_flow sh))
    \<and> shared_ok rtt (sh1\<lparr>sh_buffer := buf\<rparr>)"
proof -
  have n: "unat (frame_body_len f) = length (fr_body f)"
    using assms(2) by (rule unat_frame_body_len)
  obtain fc where fc: "fc_consume_receive_window (frame_body_len f) (sh_flow sh) = Ok fc"
    "sh1 = sh\<lparr>sh_flow := fc\<rparr>"
    using assms(3) by (auto simp: consume_receive_window_def split: result.splits)
  have rw: "unat (fc_receive_window fc) + length (fr_body f) = unat (fc_receive_window (sh_flow sh))"
    "fc = (sh_flow sh)\<lparr>fc_receive_window := fc_receive_window fc\<rparr>"
    using fc_consume_receive_window_cases [where i = "frame_body_len f" and fc = "sh_flow sh"]
    by (auto simp: fc(1) n)
  have "chunks_ok (sh_buffer sh)" "length (chunks_bytes (sh_buffer sh)) < 2 ^ 63"
    using assms(1) buffer_bound [OF assms(1)] by (auto simp: shared_ok_def)
  from rx_buffer.push [OF this(1) assms(2) this(2)] obtain buf where
    buf: "chunks_push (fr_body f) (sh_buffer sh) = Some buf" "chunks_ok buf"
      "chunks_bytes buf = chunks_bytes (sh_buffer sh) @ fr_body f"
    by blast
  have "fc_max_receive_window fc = fc_max_receive_window (sh_flow sh)"
    by (subst rw(2)) simp
  with assms(1) buf rw(1) fc(2) have "shared_ok rtt (sh1\<lparr>sh_buffer := buf\<rparr>)"
    by (simp add: shared_ok_def fc_ok_def)
  with buf rw fc(2) show ?thesis by blast
qed

lemma core_ok_put:
  assumes "core_ok s" and "cell a s = Some sh" and "cell_ok (a_config s) (rtt_get (w_rtt s)) sh'"
    and "sh_extra sh' = sh_extra sh" and "sh_state sh \<le> sh_state sh'"
  shows "core_ok (put_cell a sh' s) \<and> evolves s (put_cell a sh' s)"
  using core_ok_evolves_same [OF assms(1) evolves_put(2) [OF assms(2,5)]]
    world_inv_put_same [OF core_ok_inv [OF assms(1)] assms(2-4)] evolves_put(2) [OF assms(2,5)]
  by simp

text \<open>The optional half-close of a stream that arrives with \<open>FIN\<close>.\<close>

lemma maybe_finish_ok:
  assumes "core_ok s" and "a \<in> set (addresses s)" and "cell a s = Some sh"
  shows "\<exists>old s' st. (if fin then cell_update_state a RecvClosed s else Some (Open False, s)) = Some (old, s')
    \<and> core_ok s' \<and> evolves s s' \<and> cell a s' = Some (sh\<lparr>sh_state := st\<rparr>)"
proof (cases fin)
  case True
  have "a \<in> set (held s) \<union> set (addresses s)"
    using assms(2) by simp
  from cell_update_state_ok [OF core_ok_inv [OF assms(1)] this, of RecvClosed] assms(3) obtain old s' where
    "cell_update_state a RecvClosed s = Some (old, s')" "evolves s s'"
    "world_inv (a_config s) (set (held s) \<union> set (addresses s)) s'"
    "s' = put_cell a (sh\<lparr>sh_state := next_state (sh_state sh) RecvClosed\<rparr>) s"
    by auto
  moreover have "a < length (w_heap s)"
    using assms(3) by (simp add: cell_Some)
  ultimately show ?thesis
    using True core_ok_evolves_same [OF assms(1), of s'] by (auto simp: cell_put_cell)
next
  case False
  with assms show ?thesis
    by (auto intro: evolves_refl exI [of _ "sh_state sh"])
qed

lemma remote_not_own: "tag = Data \<or> tag = WindowUpdate \<Longrightarrow> is_valid_remote_id sid tag s \<Longrightarrow> \<not> own_id (a_mode s) sid"
  by (auto simp: is_valid_remote_id_def own_id_def is_client_def split: mode.splits if_splits)

subsection \<open>Handling frames\<close>

text \<open>
  What the connection relies on: a transport that behaves as \<open>AsyncWrite\<close> and \<open>AsyncRead\<close> say and
  channels as above. \<open>out\<close>, \<open>inp\<close>, \<open>queued\<close> and \<open>ends\<close> observe their states.
\<close>

locale conn_env =
  sink: byte_sink "e_io env" out + source: byte_source "e_io env" inp +
  mux: command_mux "e_ch env" queued ends
  for env :: "('io, 'ch) env" and out and inp and queued and ends
begin

text \<open>A handler keeps the invariant and what is queued, and opens at most one channel.\<close>

definition handles :: "('io, 'ch) active \<Rightarrow> ('io, 'ch) active \<Rightarrow> bool" where
  "handles s s' \<longleftrightarrow> core_ok s' \<and> same_io s s' \<and> queued (w_chan s') = queued (w_chan s)
     \<and> ends (w_chan s') \<le> Suc (ends (w_chan s))"

fun action_ok :: "stream action \<Rightarrow> bool" where
  "action_ok (ActPing f) \<longleftrightarrow> frame_ok f"
| "action_ok (ActTerminate f) \<longleftrightarrow> frame_ok f"
| "action_ok _ \<longleftrightarrow> True"

lemma handles_quiet: "quiet s s' \<Longrightarrow> handles s s'"
  by (simp add: handles_def quiet_def)

lemma handles_quiet_trans: "handles s t \<Longrightarrow> quiet t u \<Longrightarrow> handles s u"
  by (auto simp: handles_def quiet_def intro: same_io_trans)

lemma quiet_handles_trans: "quiet s t \<Longrightarrow> handles t u \<Longrightarrow> handles s u"
  by (auto simp: handles_def quiet_def intro: same_io_trans)

lemma make_new_inbound_ok:
  assumes "core_ok s" and "0 < max_num_streams (a_config s)"
    and "make_new_inbound_stream env sid credit s = (st, s')"
  shows "handles s s' \<and> a_streams s' = a_streams s \<and> a_next_id s' = a_next_id s
    \<and> ack_backlog s' = ack_backlog s \<and> w_rtt s' = w_rtt s
    \<and> stm_shared st \<in> set (addresses s') \<and> stm_shared st \<notin> set (held s')
    \<and> (\<exists>now. cell (stm_shared st) s' = Some (shared_new DEFAULT_CREDIT credit (a_config s) now))"
proof -
  obtain tx ch where ch: "mx_channel (e_ch env) sid (w_chan s) = (tx, ch)"
    by (rule prod.exhaust)
  let ?s1 = "s\<lparr>w_chan := ch, w_woken := wake (a_no_streams_waker s) (w_woken s), a_no_streams_waker := None\<rparr>"
  have new: "stream_new (e_ch env) (e_clock env) Ack sid (a_config ?s1) credit tx ?s1 = (st, s')"
    using assms(3) ch by (simp add: make_new_inbound_stream_def stream_new_inbound_def)
  have "core_ok ?s1" "0 < max_num_streams (a_config ?s1)"
    using assms by simp_all
  from core_ok_stream_new [OF this new] ch mux.channel_queued [of sid "w_chan s"]
    mux.clone_queued [of tx ch] show ?thesis
    by (auto simp: handles_def same_io_def ack_backlog_def)
qed

lemma insert_new_ok:
  assumes "streams_get sid s = None" and "length (a_streams s) < max_num_streams (a_config s)"
    and "\<not> own_id (a_mode s) sid"
    and "handles s s1" and "a_streams s1 = a_streams s"
    and "a \<in> set (addresses s1)" and "a \<notin> set (held s1)" and "core_ok s2" and "evolves s1 s2"
  shows "\<exists>s3. streams_insert sid a s2 = Some s3 \<and> handles s s3"
proof -
  note f = evolves_fields [OF assms(9)]
  have eq: "streams_get sid s2 = None" "a \<in> set (addresses s2)" "a \<notin> set (held s2)"
    "length (a_streams s2) < max_num_streams (a_config s2)" "\<not> own_id (a_mode s2) sid"
    using assms f by (auto simp: streams_get_def handles_def same_io_def)
  with streams_insert_ok [OF assms(8), of sid a] have
    "streams_insert sid a s2 = Some (s2\<lparr>a_streams := a_streams s2 @ [(sid, a)]\<rparr>)"
    "quiet s2 (s2\<lparr>a_streams := a_streams s2 @ [(sid, a)]\<rparr>)"
    by auto
  with quiet_evolves [OF assms(8,9)] assms(4) show ?thesis
    by (blast intro: handles_quiet_trans)
qed

lemma on_data_new_ok:
  assumes ok: "core_ok s" and new: "streams_get sid s = None" "length (a_streams s) < max_num_streams (a_config s)"
    and rem: "\<not> own_id (a_mode s) sid" and len: "length (fr_body f) \<le> unat DEFAULT_CREDIT"
  shows "\<exists>act s'. (do {
          let (st, s) = make_new_inbound_stream env sid DEFAULT_CREDIT s;
          let a = stm_shared st;
          (_, s) \<leftarrow> (if fin then cell_update_state a RecvClosed s else Some (Open False, s));
          sh \<leftarrow> cell a s;
          (case consume_receive_window (frame_body_len f) sh of
             Err _ \<Rightarrow> do {
               s \<leftarrow> drop_handle (e_ch env) (held s) (length (w_handles s) - 1) s;
               Some (ActTerminate frame_protocol_error, s) }
           | Ok sh \<Rightarrow> do {
               buf \<leftarrow> chunks_push (fr_body f) (sh_buffer sh);
               let s = put_cell a (sh\<lparr>sh_buffer := buf\<rparr>) s;
               s \<leftarrow> streams_insert sid a s;
               Some (ActNew st, s) }) }) = Some (act, s') \<and> handles s s' \<and> (\<exists>st. act = ActNew st)"
proof -
  obtain st s1 where mk: "make_new_inbound_stream env sid DEFAULT_CREDIT s = (st, s1)"
    by (rule prod.exhaust)
  let ?a = "stm_shared st"
  have "0 < max_num_streams (a_config s)"
    using new(2) by simp
  from make_new_inbound_ok [OF ok this mk] obtain now where
    h1: "handles s s1" "a_streams s1 = a_streams s" "?a \<in> set (addresses s1)" "?a \<notin> set (held s1)"
    and c1: "cell ?a s1 = Some (shared_new DEFAULT_CREDIT DEFAULT_CREDIT (a_config s) now)"
    by blast
  let ?sh = "shared_new DEFAULT_CREDIT DEFAULT_CREDIT (a_config s) now"
  have ok1: "core_ok s1"
    using h1(1) by (simp add: handles_def)
  from maybe_finish_ok [OF ok1 h1(3) c1, of fin] obtain old s2 st2 where
    fin: "(if fin then cell_update_state ?a RecvClosed s1 else Some (Open False, s1)) = Some (old, s2)"
    and s2: "core_ok s2" "evolves s1 s2" and c2: "cell ?a s2 = Some (?sh\<lparr>sh_state := st2\<rparr>)"
    by blast
  let ?sh2 = "?sh\<lparr>sh_state := st2\<rparr>"
  have body: "length (fr_body f) < 2 ^ 32"
    using len by simp
  obtain sh3 where sh3: "consume_receive_window (frame_body_len f) ?sh2 = Ok sh3"
    using len unat_frame_body_len [OF body]
    by (auto simp: consume_receive_window_def fc_consume_receive_window_def checked_sub_def
        shared_new_def fc_new_def word_le_nat_alt)
  have ad2: "?a \<in> set (addresses s2)"
    using h1(3) evolves_fields(2) [OF s2(2)] by simp
  with core_ok_cell [OF s2(1), of ?a] c2 have ok2: "cell_ok (a_config s2) (rtt_get (w_rtt s2)) ?sh2"
    by auto
  then have sok2: "shared_ok (rtt_get (w_rtt s2)) ?sh2" and cfg2: "fc_config (sh_flow ?sh2) = a_config s2"
    by (simp_all add: cell_ok_def)
  from receive_data_ok [OF sok2 body sh3] obtain buf fc where
    buf: "chunks_push (fr_body f) (sh_buffer ?sh2) = Some buf" "sh3 = ?sh2\<lparr>sh_flow := fc\<rparr>"
      "fc = (sh_flow ?sh2)\<lparr>fc_receive_window := fc_receive_window fc\<rparr>"
      "shared_ok (rtt_get (w_rtt s2)) (sh3\<lparr>sh_buffer := buf\<rparr>)"
    by blast
  have fc: "fc_config fc = fc_config (sh_flow ?sh2)" "fc_extra fc = fc_extra (sh_flow ?sh2)"
    by (subst buf(3), simp add: fc_extra_def)+
  have s3: "core_ok (put_cell ?a (sh3\<lparr>sh_buffer := buf\<rparr>) s2)"
    "evolves s2 (put_cell ?a (sh3\<lparr>sh_buffer := buf\<rparr>) s2)"
    using core_ok_put [OF s2(1) c2, of "sh3\<lparr>sh_buffer := buf\<rparr>"] buf(2,4) fc cfg2
    by (simp_all add: cell_ok_def)
  from insert_new_ok [OF new rem h1(1,2,3,4) s3(1) evolves_trans [OF s2(2) s3(2)]] obtain s4 where
    s4: "streams_insert sid ?a (put_cell ?a (sh3\<lparr>sh_buffer := buf\<rparr>) s2) = Some s4" "handles s s4"
    by blast
  have b3: "chunks_push (fr_body f) (sh_buffer sh3) = Some buf"
    using buf(1,2) by simp
  show ?thesis
    using s4(2) by (simp add: mk fin c2 sh3 b3 s4(1))
qed

lemma remove_if_ok:
  assumes "core_ok s"
  shows "\<exists>s'. (if b then streams_remove sid s else Some s) = Some s' \<and> quiet s s'"
  using streams_remove_ok [OF assms, of sid] quiet_refl [OF assms] by auto

text \<open>A step on a cell the map holds.\<close>

lemma held_cell_ok:
  assumes "core_ok s" and "streams_get sid s = Some a"
  shows "\<exists>sh. cell a s = Some sh \<and> shared_ok (rtt_get (w_rtt s)) sh \<and> fc_config (sh_flow sh) = a_config s"
  using core_ok_cell [OF assms(1), of a] held_get [OF assms(2)] by (auto simp: cell_ok_def)

lemma quiet_wakes:
  assumes "core_ok s" and "a \<in> set (held s)"
  shows "\<exists>s'. wake_reader a s = Some s' \<and> quiet s s' \<and> held s' = held s"
    and "\<exists>s'. wake_writer a s = Some s' \<and> quiet s s' \<and> held s' = held s"
proof -
  have a: "a \<in> set (held s) \<union> set (addresses s)"
    using assms(2) by simp
  have step: "quiet s s' \<and> held s' = held s"
    if "world_inv (a_config s) (set (held s) \<union> set (addresses s)) s'" "evolves s s'" for s'
    using quiet_evolves [OF core_ok_evolves_same [OF assms(1) that(2,1)] that(2)] evolves_fields(1) [OF that(2)]
    by simp
  show "\<exists>s'. wake_reader a s = Some s' \<and> quiet s s' \<and> held s' = held s"
    using wake_reader_ok [OF core_ok_inv [OF assms(1)] a] step by blast
  show "\<exists>s'. wake_writer a s = Some s' \<and> quiet s s' \<and> held s' = held s"
    using wake_writer_ok [OF core_ok_inv [OF assms(1)] a] step by blast
qed

lemma on_data_old_ok:
  assumes ok: "core_ok s" and get: "streams_get sid s = Some a" and body: "length (fr_body f) < 2 ^ 32"
  shows "\<exists>act s'. (do {
            sh \<leftarrow> cell a s;
            (case consume_receive_window (frame_body_len f) sh of
               Err _ \<Rightarrow> Some (ActTerminate frame_protocol_error, s)
             | Ok sh \<Rightarrow> do {
                 let sh = (if fin then snd (update_state RecvClosed sh) else sh);
                 let closed = (fin \<and> sh_state sh = Closed);
                 buf \<leftarrow> chunks_push (fr_body f) (sh_buffer sh);
                 s \<leftarrow> wake_reader a (put_cell a (sh\<lparr>sh_buffer := buf\<rparr>) s);
                 s \<leftarrow> (if closed then streams_remove sid s else Some s);
                 Some (ActNone, s) }) }) = Some (act, s') \<and> quiet s s' \<and> action_ok act"
proof -
  obtain sh where sh: "cell a s = Some sh" "shared_ok (rtt_get (w_rtt s)) sh"
    "fc_config (sh_flow sh) = a_config s"
    using held_cell_ok [OF ok get] by blast
  show ?thesis
  proof (cases "consume_receive_window (frame_body_len f) sh")
    case (Err e)
    with sh(1) ok show ?thesis by (simp add: quiet_refl frame_ok_ctors)
  next
    case (Ok sh1)
    from receive_data_ok [OF sh(2) body Ok] obtain buf fc where
      buf: "chunks_push (fr_body f) (sh_buffer sh) = Some buf" "sh1 = sh\<lparr>sh_flow := fc\<rparr>"
        "fc = (sh_flow sh)\<lparr>fc_receive_window := fc_receive_window fc\<rparr>"
        "shared_ok (rtt_get (w_rtt s)) (sh1\<lparr>sh_buffer := buf\<rparr>)"
      by blast
    let ?sh2 = "if fin then snd (update_state RecvClosed sh1) else sh1"
    let ?sh3 = "?sh2\<lparr>sh_buffer := buf\<rparr>"
    have fc: "fc_config fc = fc_config (sh_flow sh)" "fc_extra fc = fc_extra (sh_flow sh)"
      by (subst buf(3), simp add: fc_extra_def)+
    have le: "sh_state sh \<le> sh_state ?sh3" "sh_extra ?sh3 = sh_extra sh"
      "cell_ok (a_config s) (rtt_get (w_rtt s)) ?sh3"
      using buf(2,4) fc sh(3) by (auto simp: update_state_def le_next_state cell_ok_def shared_ok_def)
    then have s1: "core_ok (put_cell a ?sh3 s)" "evolves s (put_cell a ?sh3 s)"
      using core_ok_put [OF ok sh(1)] by blast+
    have "a \<in> set (held (put_cell a ?sh3 s))"
      using held_get [OF get] evolves_fields(1) [OF s1(2)] by simp
    from quiet_wakes(1) [OF s1(1) this] obtain s2 where
      s2: "wake_reader a (put_cell a ?sh3 s) = Some s2" "quiet (put_cell a ?sh3 s) s2"
      by blast
    then have "core_ok s2"
      by (simp add: quiet_def)
    from remove_if_ok [OF this, of "fin \<and> sh_state ?sh2 = Closed" sid] obtain s3 where
      s3: "(if fin \<and> sh_state ?sh2 = Closed then streams_remove sid s2 else Some s2) = Some s3"
        "quiet s2 s3"
      by blast
    have q: "quiet s s3"
      using quiet_trans [OF quiet_evolves [OF s1] quiet_trans [OF s2(2) s3(2)]] .
    have "sh_buffer ?sh2 = sh_buffer sh"
      using buf(2) by (simp add: update_state_def)
    then show ?thesis
      using sh(1) Ok buf(1) s2(1) s3(1) q by (simp add: Let_def del: if_split)
  qed
qed

lemma on_data_ok:
  assumes ok: "core_ok s" and body: "length (fr_body f) < 2 ^ 32"
  shows "\<exists>act s'. on_data env f s = Some (act, s') \<and> handles s s' \<and> action_ok act"
proof -
  let ?sid = "hdr_stream_id (fr_header f)" and ?fl = "hdr_flags (fr_header f)"
  consider (rst) "flags_contains ?fl RST"
    | (syn) "\<not> flags_contains ?fl RST" "flags_contains ?fl SYN"
    | (other) "\<not> flags_contains ?fl RST" "\<not> flags_contains ?fl SYN"
    by blast
  then show ?thesis
  proof cases
    case rst
    with on_reset_ok [OF ok, of ?sid] show ?thesis
      by (auto simp: on_data_def intro: handles_quiet)
  next
    case syn
    show ?thesis
    proof (cases "is_valid_remote_id ?sid Data s \<and> \<not> contains_key ?sid s
        \<and> length (a_streams s) \<noteq> max_num_streams (a_config s) \<and> length (fr_body f) \<le> unat DEFAULT_CREDIT")
      case False
      with syn ok show ?thesis
        by (auto simp: on_data_def Let_def frame_ok_ctors intro!: handles_quiet quiet_refl)
    next
      case True
      then have new: "streams_get ?sid s = None" "\<not> own_id (a_mode s) ?sid"
        "length (a_streams s) < max_num_streams (a_config s)"
        using ok remote_not_own [of Data ?sid s] by (auto simp: contains_key_def core_ok_def map_ok_def)
      with True on_data_new_ok [OF ok new(1,3,2), of f "flags_contains ?fl FIN"] syn show ?thesis
        by (auto simp: on_data_def Let_def)
    qed
  next
    case other
    show ?thesis
    proof (cases "streams_get ?sid s")
      case None
      with other ok show ?thesis
        by (auto simp: on_data_def intro!: handles_quiet quiet_refl)
    next
      case (Some a)
      with other on_data_old_ok [OF ok Some body, of "flags_contains ?fl FIN"] show ?thesis
        by (auto simp: on_data_def Let_def intro: handles_quiet)
    qed
  qed
qed

lemma on_window_update_new_ok:
  assumes ok: "core_ok s" and new: "streams_get sid s = None" "length (a_streams s) < max_num_streams (a_config s)"
    and rem: "\<not> own_id (a_mode s) sid"
  shows "\<exists>act s'. (do {
              let (st, s) = make_new_inbound_stream env sid credit s;
              (_, s) \<leftarrow> (if fin then cell_update_state (stm_shared st) RecvClosed s
                        else Some (Open False, s));
              s \<leftarrow> streams_insert sid (stm_shared st) s;
              Some (ActNew st, s) }) = Some (act, s') \<and> handles s s' \<and> (\<exists>st. act = ActNew st)"
proof -
  obtain st s1 where mk: "make_new_inbound_stream env sid credit s = (st, s1)"
    by (rule prod.exhaust)
  let ?a = "stm_shared st"
  have "0 < max_num_streams (a_config s)"
    using new(2) by simp
  from make_new_inbound_ok [OF ok this mk] obtain sh where
    h1: "handles s s1" "a_streams s1 = a_streams s" "?a \<in> set (addresses s1)" "?a \<notin> set (held s1)"
    and c1: "cell ?a s1 = Some sh"
    by blast
  have ok1: "core_ok s1"
    using h1(1) by (simp add: handles_def)
  from maybe_finish_ok [OF ok1 h1(3) c1, of fin] obtain old s2 where
    fin: "(if fin then cell_update_state ?a RecvClosed s1 else Some (Open False, s1)) = Some (old, s2)"
    and s2: "core_ok s2" "evolves s1 s2"
    by blast
  from insert_new_ok [OF new rem h1(1,2,3,4) s2] obtain s3 where
    s3: "streams_insert sid ?a s2 = Some s3" "handles s s3"
    by blast
  then show ?thesis
    by (simp add: mk fin)
qed

lemma on_window_update_old_ok:
  assumes ok: "core_ok s" and get: "streams_get sid s = Some a"
  shows "\<exists>act s'. (do {
            sh \<leftarrow> cell a s;
            (case increase_send_window_by credit sh of
               Err _ \<Rightarrow> Some (ActTerminate frame_protocol_error, s)
             | Ok sh \<Rightarrow> do {
                 let sh = (if fin then snd (update_state RecvClosed sh) else sh);
                 let closed = (fin \<and> sh_state sh = Closed);
                 let s = put_cell a sh s;
                 s \<leftarrow> (if fin then wake_reader a s else Some s);
                 s \<leftarrow> wake_writer a s;
                 s \<leftarrow> (if closed then streams_remove sid s else Some s);
                 Some (ActNone, s) }) }) = Some (act, s') \<and> quiet s s' \<and> action_ok act"
proof -
  obtain sh where sh: "cell a s = Some sh" "shared_ok (rtt_get (w_rtt s)) sh"
    "fc_config (sh_flow sh) = a_config s"
    using held_cell_ok [OF ok get] by blast
  show ?thesis
  proof (cases "increase_send_window_by credit sh")
    case (Err e)
    with sh(1) ok show ?thesis by (simp add: quiet_refl frame_ok_ctors)
  next
    case (Ok sh1)
    then obtain w where sh1: "sh1 = sh\<lparr>sh_flow := (sh_flow sh)\<lparr>fc_send_window := w\<rparr>\<rparr>"
      by (auto simp: increase_send_window_by_def fc_increase_send_window_by_def
          split: result.splits option.splits)
    let ?sh2 = "if fin then snd (update_state RecvClosed sh1) else sh1"
    have le: "sh_state sh \<le> sh_state ?sh2" "sh_extra ?sh2 = sh_extra sh"
      "cell_ok (a_config s) (rtt_get (w_rtt s)) ?sh2"
      using sh sh1 by (auto simp: update_state_def le_next_state cell_ok_def shared_ok_def fc_ok_def fc_extra_def)
    then have s1: "core_ok (put_cell a ?sh2 s)" "evolves s (put_cell a ?sh2 s)"
      using core_ok_put [OF ok sh(1)] by blast+
    have a1: "a \<in> set (held (put_cell a ?sh2 s))"
      using held_get [OF get] evolves_fields(1) [OF s1(2)] by simp
    obtain s2 where s2: "(if fin then wake_reader a (put_cell a ?sh2 s) else Some (put_cell a ?sh2 s)) = Some s2"
      "quiet (put_cell a ?sh2 s) s2" "held s2 = held (put_cell a ?sh2 s)"
      using quiet_wakes(1) [OF s1(1) a1] quiet_refl [OF s1(1)] by (cases fin) auto
    then have s2': "core_ok s2" "a \<in> set (held s2)"
      using a1 by (auto simp: quiet_def)
    from quiet_wakes(2) [OF this] obtain s3 where
      s3: "wake_writer a s2 = Some s3" "quiet s2 s3"
      by blast
    then have "core_ok s3"
      by (simp add: quiet_def)
    from remove_if_ok [OF this, of "fin \<and> sh_state ?sh2 = Closed" sid] obtain s4 where
      s4: "(if fin \<and> sh_state ?sh2 = Closed then streams_remove sid s3 else Some s3) = Some s4"
        "quiet s3 s4"
      by blast
    have "quiet s s4"
      using quiet_trans [OF quiet_evolves [OF s1] quiet_trans [OF s2(2) quiet_trans [OF s3(2) s4(2)]]] .
    then show ?thesis
      using sh(1) Ok s2(1) s3(1) s4(1) by (simp add: Let_def del: if_split)
  qed
qed

lemma on_window_update_ok:
  assumes ok: "core_ok s"
  shows "\<exists>act s'. on_window_update env f s = Some (act, s') \<and> handles s s' \<and> action_ok act"
proof -
  let ?sid = "hdr_stream_id (fr_header f)" and ?fl = "hdr_flags (fr_header f)"
  consider (rst) "flags_contains ?fl RST"
    | (syn) "\<not> flags_contains ?fl RST" "flags_contains ?fl SYN"
    | (other) "\<not> flags_contains ?fl RST" "\<not> flags_contains ?fl SYN"
    by blast
  then show ?thesis
  proof cases
    case rst
    with on_reset_ok [OF ok, of ?sid] show ?thesis
      by (auto simp: on_window_update_def intro: handles_quiet)
  next
    case syn
    show ?thesis
    proof (cases "is_valid_remote_id ?sid WindowUpdate s \<and> \<not> contains_key ?sid s
        \<and> length (a_streams s) \<noteq> max_num_streams (a_config s)
        \<and> checked_add (hdr_credit (fr_header f)) DEFAULT_CREDIT \<noteq> None")
      case False
      with syn ok show ?thesis
        by (auto simp: on_window_update_def Let_def frame_ok_ctors intro!: handles_quiet quiet_refl)
    next
      case True
      then obtain credit where credit: "checked_add (hdr_credit (fr_header f)) DEFAULT_CREDIT = Some credit"
        by auto
      from True have new: "streams_get ?sid s = None" "\<not> own_id (a_mode s) ?sid"
        "length (a_streams s) < max_num_streams (a_config s)"
        using ok remote_not_own [of WindowUpdate ?sid s] by (auto simp: contains_key_def core_ok_def map_ok_def)
      with True credit on_window_update_new_ok [OF ok new(1,3,2), of credit "flags_contains ?fl FIN"] syn
      show ?thesis
        by (auto simp: on_window_update_def Let_def)
    qed
  next
    case other
    show ?thesis
    proof (cases "streams_get ?sid s")
      case None
      with other ok show ?thesis
        by (auto simp: on_window_update_def intro!: handles_quiet quiet_refl)
    next
      case (Some a)
      with other on_window_update_old_ok [OF ok Some, where fin = "flags_contains ?fl FIN"
            and credit = "hdr_credit (fr_header f)"]
      show ?thesis
        by (auto simp: on_window_update_def Let_def intro: handles_quiet)
    qed
  qed
qed

lemma handle_pong_ok:
  "handle_pong t1 t2 n r = (act :: stream action, r') \<Longrightarrow>
     action_ok act \<and> (rtt_value r' = rtt_value r \<or> rtt_value r' \<noteq> None \<and> rtt_ok (rtt_value r'))"
  by (auto simp: handle_pong_def frame_ok_ctors split: rtt_state.splits if_splits)

lemma core_ok_rtt:
  assumes "core_ok s" and "rtt_value r = rtt_value (w_rtt s) \<or> rtt_value r \<noteq> None \<and> rtt_ok (rtt_value r)"
  shows "core_ok (s\<lparr>w_rtt := r\<rparr>)"
  using assms world_ok_rtt [of "a_config s" "held s" s r]
  by (simp add: core_ok_def map_ok_def ack_backlog_def)

lemma on_ping_ok:
  assumes "core_ok s" and "on_ping env f s = (act, s')"
  shows "handles s s' \<and> action_ok act"
proof (cases "flags_contains (hdr_flags (fr_header f)) ACK")
  case True
  obtain r where p: "handle_pong (e_clock env (w_ticks s)) (e_clock env (Suc (w_ticks s)))
      (frame_ping_id f) (w_rtt s) = (act, r)" and s': "s' = s\<lparr>w_rtt := r, w_ticks := w_ticks s + 2\<rparr>"
    using True assms(2) by (auto simp: on_ping_def Let_def split: prod.splits)
  have "core_ok (s\<lparr>w_rtt := r\<rparr>)"
    using core_ok_rtt [OF assms(1)] handle_pong_ok [OF p] by blast
  with s' handle_pong_ok [OF p] show ?thesis
    by (simp add: handles_def same_io_def)
next
  case False
  with assms show ?thesis
    by (auto simp: on_ping_def Let_def handles_def same_io_def frame_ok_def frame_new_def header_ping_def
        split: if_splits)
qed

lemma ack_ok:
  assumes ok: "core_ok s"
  shows "\<exists>s'. (if b then do {
             s \<leftarrow> (case streams_get sid s of
                     None \<Rightarrow> Some s
                   | Some a \<Rightarrow> do { (_, s) \<leftarrow> cell_update_state a (Open True) s; Some s });
             Some (s\<lparr>w_woken := wake (a_new_outbound_stream_waker s) (w_woken s),
                     a_new_outbound_stream_waker := None\<rparr>) }
           else Some s) = Some s' \<and> quiet s s'"
proof (cases "b \<and> streams_get sid s \<noteq> None")
  case False
  with ok show ?thesis by (auto simp: quiet_def same_io_def)
next
  case True
  then obtain a where a: "streams_get sid s = Some a" and b: b
    by auto
  have "a \<in> set (held s) \<union> set (addresses s)"
    using held_get [OF a] by simp
  from cell_update_state_ok [OF core_ok_inv [OF ok] this, of "Open True"] obtain old s1 where
    s1: "cell_update_state a (Open True) s = Some (old, s1)" "evolves s s1"
      "world_inv (a_config s) (set (held s) \<union> set (addresses s)) s1"
    by auto
  from quiet_evolves [OF core_ok_evolves_same [OF ok s1(2,3)] s1(2)] have "quiet s s1" .
  then show ?thesis
    using a b s1(1) by (simp add: quiet_def same_io_def)
qed

lemma on_frame_ok:
  assumes ok: "core_ok s" and f: "frame_ok f"
  shows "\<exists>r s'. on_frame env f s = Some (r, s') \<and> handles s s' \<and> (\<forall>act. r = Ok act \<longrightarrow> action_ok act)"
proof -
  let ?sid = "hdr_stream_id (fr_header f)" and ?fl = "hdr_flags (fr_header f)"
  let ?tag = "hdr_tag (fr_header f)"
  from ack_ok [OF ok, of "flags_contains ?fl ACK \<and> ?tag \<in> {Data, WindowUpdate}" ?sid] obtain s1 where
    a: "(if flags_contains ?fl ACK \<and> ?tag \<in> {Data, WindowUpdate} then do {
             s \<leftarrow> (case streams_get ?sid s of
                     None \<Rightarrow> Some s
                   | Some a \<Rightarrow> do { (_, s) \<leftarrow> cell_update_state a (Open True) s; Some s });
             Some (s\<lparr>w_woken := wake (a_new_outbound_stream_waker s) (w_woken s),
                     a_new_outbound_stream_waker := None\<rparr>) }
           else Some s) = Some s1" and q: "quiet s s1"
    by blast
  then have ok1: "core_ok s1"
    by (simp add: quiet_def)
  have body: "length (fr_body f) < 2 ^ 32"
    using f unat_u32_bound [of "hdr_length (fr_header f)"] by (auto simp: frame_ok_def split: if_splits)
  show ?thesis
  proof (cases "\<not> flags_contains ?fl SYN \<and> ?tag \<in> {Data, WindowUpdate} \<and> \<not> contains_key ?sid s1")
    case True
    with a q show ?thesis
      by (simp add: on_frame_def Let_def handles_quiet del: if_split)
  next
    case False
    have red: "on_frame env f s =
       (case ?tag of
         Data \<Rightarrow> do { f \<leftarrow> frame_into_data f; (act, s) \<leftarrow> on_data env f s1; Some (Ok act, s) }
       | WindowUpdate \<Rightarrow> do {
           f \<leftarrow> frame_into_window_update f; (act, s) \<leftarrow> on_window_update env f s1; Some (Ok act, s) }
       | Ping \<Rightarrow> do { f \<leftarrow> frame_into_ping f; let (act, s) = on_ping env f s1; Some (Ok act, s) }
       | GoAway \<Rightarrow> Some (Err Closed_Error, s1))"
      unfolding on_frame_def Let_def a Option.bind.simps if_not_P [OF False] ..
    show ?thesis
    proof (cases ?tag)
      case Data
      with red on_data_ok [OF ok1 body] q show ?thesis
        by (auto intro: quiet_handles_trans)
    next
      case WindowUpdate
      with red on_window_update_ok [OF ok1, of f] q show ?thesis
        by (auto intro: quiet_handles_trans)
    next
      case Ping
      obtain act s2 where p: "on_ping env f s1 = (act, s2)"
        by (rule prod.exhaust)
      with Ping red on_ping_ok [OF ok1 p] q show ?thesis
        by (auto intro: quiet_handles_trans)
    next
      case GoAway
      with red q show ?thesis
        by (auto intro: handles_quiet)
    qed
  qed
qed

end

end
