(* ===== verification/Active_Poll.thy ===== *)
theory Active_Poll
  imports Active_Inv
begin

text \<open>
  The poll loop of the active connection: whatever the remote sends and the streams do, \<open>poll\<close>
  returns, does not panic and keeps the invariant.
\<close>

text \<open>Reading and writing are independent: writing, flushing and closing keep the input.\<close>

locale duplex_env = conn_env +
  assumes write_inp: "inp (snd (op_poll_write (e_io env) bs io)) = inp io"
    and flush_inp: "inp (snd (op_poll_flush (e_io env) io)) = inp io"
    and close_inp: "inp (snd (op_poll_close (e_io env) io)) = inp io"
begin

abbreviation input :: "'a sock \<Rightarrow> bytes" where
  "input k \<equiv> partial_frame (sock_read k) @ inp (io_inner k)"

definition wrote :: "'a sock \<Rightarrow> 'a sock \<Rightarrow> bool" where
  "wrote k k' \<longleftrightarrow> wstate_ok (sock_write k') \<and> sock_read k' = sock_read k \<and> inp (io_inner k') = inp (io_inner k)"

lemma wrote_trans: "wrote k l \<Longrightarrow> wrote l m \<Longrightarrow> wrote k m"
  by (simp add: wrote_def)

lemma write_count: "op_poll_write (e_io env) bs io = (Ready (Ok n), io') \<Longrightarrow> n \<le> length bs \<and> inp io' = inp io"
  using sink.write_ok [of bs io n io'] write_inp [of bs io] by simp

lemma write_other: "op_poll_write (e_io env) bs io = (r, io') \<Longrightarrow> inp io' = inp io"
  using write_inp [of bs io] by simp

lemma write_step_total:
  assumes "wstate_ok (sock_write k)"
  shows "\<exists>x. write_step (e_io env) k = Some x \<and>
    (case x of Return r l \<Rightarrow> wrote k l
     | Continue l \<Rightarrow> wrote k l \<and> write_work (sock_write l) < write_work (sock_write k))"
proof (cases "sock_write k")
  case (WHeader header buffer offset)
  then show ?thesis
    using assms
    by (auto simp: write_step_def wrote_def uadd_def split: prod.splits poll.splits result.splits
        dest!: write_count dest: write_other)
next
  case (WBody buffer offset)
  then show ?thesis
    using assms
    by (auto simp: write_step_def wrote_def uadd_def split: prod.splits poll.splits result.splits
        dest!: write_count dest: write_other)
qed (use assms in \<open>auto simp: write_step_def wrote_def\<close>)

lemma poll_ready_total:
  assumes "wstate_ok (sock_write k)"
  shows "\<exists>r l. io_poll_ready (e_io env) k = Some (r, l) \<and> wrote k l"
  unfolding io_poll_ready_def
proof (rule run_loop_total [where I = "\<lambda>l. wstate_ok (sock_write l) \<and> wrote k l"
      and m = "\<lambda>l. write_work (sock_write l)"])
  show "wstate_ok (sock_write k) \<and> wrote k k"
    using assms by (simp add: wrote_def)
  fix l
  assume l: "wstate_ok (sock_write l) \<and> wrote k l"
  show "\<exists>x. write_step (e_io env) l = Some x"
    using write_step_total [of l] l by blast
  show "(wstate_ok (sock_write t) \<and> wrote k t) \<and> write_work (sock_write t) < write_work (sock_write l)"
    if "write_step (e_io env) l = Some (Continue t)" for t
    using write_step_total [of l] l that by (auto simp: wrote_def)
  show "wrote k t" if "write_step (e_io env) l = Some (Return r t)" for r t
    using write_step_total [of l] l that by (auto intro: wrote_trans)
qed

lemma poll_flush_total:
  assumes "wstate_ok (sock_write k)"
  shows "\<exists>r l. io_poll_flush (e_io env) k = Some (r, l) \<and> wrote k l"
proof -
  obtain r l where l: "io_poll_ready (e_io env) k = Some (r, l)" "wrote k l"
    using poll_ready_total [OF assms] by blast
  then show ?thesis
    using flush_inp [of "io_inner l"]
    by (auto simp: io_poll_flush_def wrote_def split: poll.splits result.splits prod.splits)
qed

lemma poll_next_total:
  assumes "wstate_ok (sock_write k)" and "rstate_ok (sock_read k)"
  shows "\<exists>r l. io_poll_next (e_io env) k = Some (r, l) \<and> sock_write l = sock_write k
    \<and> rstate_ok (sock_read l)
    \<and> (case r of Ready (Some (Ok f)) \<Rightarrow> frame_ok f \<and> length (input l) + 12 \<le> length (input k)
       | _ \<Rightarrow> True)"
proof -
  have "source.source_inv (input k) k"
    using assms(2) by (simp add: source.source_inv_def)
  from source.poll_next_source [OF this] obtain r l where
    l: "io_poll_next (e_io env) k = Some (r, l)" "source.read_return_ok (input k) k r l"
    by blast
  show ?thesis
  proof (cases "\<exists>f. r = Ready (Some (Ok f))")
    case True
    then obtain f where [simp]: "r = Ready (Some (Ok f))" by blast
    have "frame_ok f" "input k = frame_bytes f @ inp (io_inner l)" "sock_read l = RInit"
      "sock_write l = sock_write k"
      using l(2) by (auto simp: source.read_return_ok_def)
    with l(1) show ?thesis
      by (simp add: frame_bytes_def)
  next
    case False
    with l show ?thesis
      by (auto simp: source.read_return_ok_def source.source_inv_def split: poll.splits option.splits result.splits)
  qed
qed

text \<open>
  What the loop has left to do: input to read, commands and ends of channels to take, frames to
  send, a ping that may fall due.
\<close>

definition work :: "('a, 'b) active \<Rightarrow> nat" where
  "work s = 4 * length (input (a_socket s)) + 4 * mux.backlog (w_chan s)
     + (if a_pending_read_frame s = None then 0 else 2) + (if a_pending_write_frame s = None then 0 else 2)
     + (case rtt_state (w_rtt s) of Waiting _ \<Rightarrow> 1 | AwaitingPong _ _ \<Rightarrow> 0)"

abbreviation ok :: "('a, 'b) active \<Rightarrow> bool" where
  "ok \<equiv> active_ok queued"

text \<open>A round of the loop: it ends, or there is less left to do than \<open>n\<close>.\<close>

definition same_conf :: "('a, 'b) active \<Rightarrow> ('a, 'b) active \<Rightarrow> bool" where
  "same_conf s t \<longleftrightarrow> a_config t = a_config s \<and> a_mode t = a_mode s"

definition round_ok ::
    "('a, 'b) active \<Rightarrow> nat \<Rightarrow> ((stream, connection_error) result poll, ('a, 'b) active) flow run \<Rightarrow> bool" where
  "round_ok s n x \<longleftrightarrow> (\<exists>y. x = Some y \<and>
     (case y of Return r t \<Rightarrow> ok t \<and> same_conf s t | Continue t \<Rightarrow> ok t \<and> same_conf s t \<and> work t < n))"

lemma same_conf_simps [simp]:
  "same_conf s s" "same_conf s (t\<lparr>a_socket := y2\<rparr>) = same_conf s t" "same_conf s (t\<lparr>w_chan := y3\<rparr>) = same_conf s t"
  "same_conf s (t\<lparr>a_pending_read_frame := y5\<rparr>) = same_conf s t"
  "same_conf s (t\<lparr>a_pending_write_frame := y6\<rparr>) = same_conf s t"
  "same_conf s (t\<lparr>w_rtt := y7\<rparr>) = same_conf s t" "same_conf s (t\<lparr>w_ticks := y8\<rparr>) = same_conf s t"
  by (simp_all add: same_conf_def)

lemma same_conf_start:
  "same_conf (s\<lparr>a_socket := y2\<rparr>) = same_conf s" "same_conf (s\<lparr>w_chan := y3\<rparr>) = same_conf s"
  "same_conf (s\<lparr>a_no_streams_waker := y4\<rparr>) = same_conf s"
  "same_conf (s\<lparr>w_rtt := y7\<rparr>) = same_conf s" "same_conf (s\<lparr>w_ticks := y8\<rparr>) = same_conf s"
  by (simp_all add: fun_eq_iff same_conf_def)

lemma round_ok_start [simp]:
  "round_ok (s\<lparr>a_socket := y2\<rparr>) = round_ok s" "round_ok (s\<lparr>w_chan := y3\<rparr>) = round_ok s"
  "round_ok (s\<lparr>a_no_streams_waker := y4\<rparr>) = round_ok s"
  "round_ok (s\<lparr>w_rtt := y7\<rparr>) = round_ok s" "round_ok (s\<lparr>w_ticks := y8\<rparr>) = round_ok s"
  unfolding round_ok_def [abs_def] same_conf_start by (rule refl)+

lemma same_conf_trans: "same_conf s t \<Longrightarrow> same_conf t u \<Longrightarrow> same_conf s u"
  by (simp add: same_conf_def)

lemma handles_conf: "handles s t \<Longrightarrow> same_conf s t"
  by (simp add: handles_def same_io_def same_conf_def)

lemma ok_handles:
  assumes "ok s" and "handles s s'"
  shows "ok s'"
  using assms by (auto simp: active_ok_def handles_def io_ok_def same_io_def)

lemma work_handles:
  assumes "handles s s'"
  shows "work s' \<le> work s + 5"
  using assms
  by (auto simp: work_def handles_def same_io_def mux.backlog_def split: rtt_state.splits)

lemma active_read_ok:
  assumes "ok s" and "work s \<le> n"
  shows "round_ok s n (active_read env s)"
proof (cases "a_pending_read_frame s")
  case (Some f)
  with assms show ?thesis by (simp add: active_read_def round_ok_def)
next
  case None
  have w: "wstate_ok (sock_write (a_socket s))" "rstate_ok (sock_read (a_socket s))"
    using assms(1) by (auto simp: active_ok_def io_ok_def)
  from poll_next_total [OF this] obtain r k where
    k: "io_poll_next (e_io env) (a_socket s) = Some (r, k)" "sock_write k = sock_write (a_socket s)"
      "rstate_ok (sock_read k)"
    and f: "case r of Ready (Some (Ok f)) \<Rightarrow> frame_ok f \<and> length (input k) + 12 \<le> length (input (a_socket s))
      | _ \<Rightarrow> True"
    by blast
  have ok1: "ok (s\<lparr>a_socket := k\<rparr>)"
    using assms(1) k w by (simp add: active_ok_def io_ok_def)
  show ?thesis
  proof (cases "\<exists>f. r = Ready (Some (Ok f))")
    case False
    with k(1) None ok1 show ?thesis
      by (auto simp: active_read_def round_ok_def Let_def split: poll.splits option.splits result.splits)
  next
    case True
    then obtain f where r: "r = Ready (Some (Ok f))"
      by blast
    with f have fok: "frame_ok f" and len: "length (input k) + 12 \<le> length (input (a_socket s))"
      by simp_all
    have "core_ok (s\<lparr>a_socket := k\<rparr>)"
      using ok1 by (simp add: active_ok_def)
    from on_frame_ok [OF this fok] obtain q s' where
      s': "on_frame env f (s\<lparr>a_socket := k\<rparr>) = Some (q, s')" "handles (s\<lparr>a_socket := k\<rparr>) s'"
        "\<forall>act. q = Ok act \<longrightarrow> action_ok act"
      by blast
    have ok2: "ok s'"
      using ok_handles [OF ok1 s'(2)] .
    have "work (s\<lparr>a_socket := k\<rparr>) + 48 \<le> work s"
      using len by (simp add: work_def)
    then have small: "work s' + 43 \<le> n"
      using work_handles [OF s'(2)] assms(2) by simp
    have conf: "same_conf s s'"
      using handles_conf [OF s'(2)] by (simp add: same_conf_def)
    have pend: "ok (s'\<lparr>a_pending_read_frame := Some g\<rparr>) \<and> work (s'\<lparr>a_pending_read_frame := Some g\<rparr>) < n"
      if "frame_ok g" for g
      using ok2 small that by (auto simp: active_ok_def io_ok_def work_def split: if_splits)
    show ?thesis
      using k(1) None r s'(1,3) ok2 small pend conf
      by (auto simp: active_read_def round_ok_def split: result.splits action.splits)
  qed
qed

lemma active_commands_ok:
  assumes "ok s" and "work s \<le> n"
  shows "round_ok s n (active_commands env cx s)"
proof (cases "a_pending_write_frame s")
  case (Some f)
  with active_read_ok [OF assms] show ?thesis by (simp add: active_commands_def)
next
  case None
  obtain r ch where rx: "mx_poll_next (e_ch env) cx (w_chan s) = (r, ch)"
    by (rule prod.exhaust)
  have q: "\<forall>c \<in># queued ch. cmd_ok c" "\<forall>sid c. r = Ready (Some (sid, Some c)) \<longrightarrow> cmd_ok c"
    using mux.poll_next_cmd_ok [OF rx] assms(1) by (auto simp: active_ok_def)
  note b = mux.poll_next_backlog [OF rx]
  have ok1: "ok (s\<lparr>w_chan := ch\<rparr>)"
    using assms(1) q(1) by (simp add: active_ok_def io_ok_def)
  have send: "ok (s\<lparr>w_chan := ch, a_pending_write_frame := Some f\<rparr>)
      \<and> work (s\<lparr>w_chan := ch, a_pending_write_frame := Some f\<rparr>) < n"
    if "frame_ok f" "Suc (mux.backlog ch) = mux.backlog (w_chan s)" for f
    using that assms ok1 None by (simp add: active_ok_def io_ok_def work_def)
  consider "r = Pending" | "r = Ready None" | sid where "r = Ready (Some (sid, None))"
    | sid f where "r = Ready (Some (sid, Some (SendFrame f)))"
    | sid a where "r = Ready (Some (sid, Some (CloseStream a)))"
    by (metis option.exhaust poll.exhaust stream_command.exhaust surj_pair)
  then show ?thesis
  proof cases
    case 1
    have "work (s\<lparr>w_chan := ch\<rparr>) \<le> n"
      using b 1 assms(2) by (simp add: work_def)
    from active_read_ok [OF ok1 this] 1 rx None show ?thesis
      by (simp add: active_commands_def)
  next
    case 2
    have "work (s\<lparr>w_chan := ch, a_no_streams_waker := Some cx\<rparr>) \<le> n"
      "ok (s\<lparr>w_chan := ch, a_no_streams_waker := Some cx\<rparr>)"
      using b 2 assms(2) ok1 by (simp_all add: work_def active_ok_def io_ok_def)
    from active_read_ok [OF this(2,1)] 2 rx None show ?thesis
      by (simp add: active_commands_def)
  next
    case 3
    have "core_ok (s\<lparr>w_chan := ch\<rparr>)"
      using ok1 by (simp add: active_ok_def)
    from on_drop_stream_ok [OF this, of sid] obtain fo s' where
      d: "on_drop_stream sid (s\<lparr>w_chan := ch\<rparr>) = Some (fo, s')" "quiet (s\<lparr>w_chan := ch\<rparr>) s'"
        "\<forall>g. fo = Some g \<longrightarrow> frame_ok g"
      by blast
    have ok2: "ok s'"
      using ok_handles [OF ok1 handles_quiet [OF d(2)]] .
    have conf: "same_conf s s'"
      using handles_conf [OF handles_quiet [OF d(2)]] by (simp add: same_conf_def)
    have "work s' + 4 \<le> n"
      using d(2) b 3 assms(2) by (auto simp: work_def quiet_def same_io_def)
    then show ?thesis
      using 3 rx None d(1,3) ok2 conf
      by (auto simp: active_commands_def round_ok_def active_ok_def io_ok_def work_def
          split: option.splits if_splits)
  next
    case 4
    with q(2) have "frame_ok f"
      by simp
    with send [of f] 4 b rx None show ?thesis
      by (simp add: active_commands_def round_ok_def)
  next
    case 5
    with send [OF frame_ok_ctors(1), of sid a] b rx None show ?thesis
      by (simp add: active_commands_def round_ok_def)
  qed
qed

lemma active_flush_ok:
  assumes "ok s" and "work s \<le> n"
  shows "round_ok s n (active_flush env cx s)"
proof -
  have "wstate_ok (sock_write (a_socket s))"
    using assms(1) by (simp add: active_ok_def io_ok_def)
  from poll_flush_total [OF this] obtain r k where
    k: "io_poll_flush (e_io env) (a_socket s) = Some (r, k)" "wrote (a_socket s) k"
    by blast
  have s1: "ok (s\<lparr>a_socket := k\<rparr>)" "work (s\<lparr>a_socket := k\<rparr>) \<le> n"
    using assms k(2) by (auto simp: active_ok_def io_ok_def wrote_def work_def)
  from active_commands_ok [OF this] k(1) s1(1) show ?thesis
    by (auto simp: active_flush_def round_ok_def Let_def split: poll.splits result.splits)
qed

lemma wstate_ok_start_send: "frame_ok f \<Longrightarrow> wstate_ok (sock_write (io_start_send f k))"
  using unat_u32_bound [of "hdr_length (fr_header f)"]
  by (auto simp: io_start_send_def frame_ok_def split: if_splits)

lemma start_send_fields: "sock_read (io_start_send f k) = sock_read k" "io_inner (io_start_send f k) = io_inner k"
  by (simp_all add: io_start_send_def)

lemma next_ping_effect:
  assumes "next_ping t1 t2 r = (p, r')"
  shows "rtt_value r' = rtt_value r \<and>
    (case p of None \<Rightarrow> r' = r
     | Some f \<Rightarrow> frame_ok f \<and> (\<exists>t. rtt_state r = Waiting t) \<and> (\<exists>t n. rtt_state r' = AwaitingPong t n))"
  using assms by (auto simp: next_ping_def Let_def frame_ok_ctors split: rtt_state.splits if_splits)

lemma core_ok_socket_rtt [simp]: "core_ok (s\<lparr>a_socket := k, w_rtt := rt\<rparr>) = core_ok (s\<lparr>w_rtt := rt\<rparr>)"
  by (simp add: core_ok_def world_ok_def world_inv_def map_ok_def ack_backlog_def)

lemma active_step_ok:
  assumes "ok s"
  shows "round_ok s (work s) (active_step env cx s)"
proof -
  have "wstate_ok (sock_write (a_socket s))"
    using assms(1) by (simp add: active_ok_def io_ok_def)
  from poll_ready_total [OF this] obtain r k where
    k: "io_poll_ready (e_io env) (a_socket s) = Some (r, k)" "wrote (a_socket s) k"
    by blast
  let ?s1 = "s\<lparr>a_socket := k\<rparr>"
  have s1: "ok ?s1" "work ?s1 \<le> work s"
    using assms k(2) by (auto simp: active_ok_def io_ok_def wrote_def work_def)
  show ?thesis
  proof (cases "is_ready r")
    case False
    with active_flush_ok [OF s1, of cx] k(1) show ?thesis
      by (simp add: active_step_def)
  next
    case True
    obtain p rt where p: "next_ping (e_clock env (w_ticks s)) (e_clock env (Suc (w_ticks s))) (w_rtt s) = (p, rt)"
      by (rule prod.exhaust)
    let ?s2 = "?s1\<lparr>w_rtt := rt, w_ticks := w_ticks s + 2\<rparr>"
    note np = next_ping_effect [OF p]
    have "core_ok (?s1\<lparr>w_rtt := rt\<rparr>)"
      using core_ok_rtt [of ?s1 rt] s1(1) np by (simp add: active_ok_def)
    then have s2: "ok ?s2"
      using s1(1) by (simp add: active_ok_def io_ok_def)
    have send: "ok (?s2\<lparr>a_socket := io_start_send f k\<rparr>)" if "frame_ok f" for f
      using s2 wstate_ok_start_send [OF that, of k]
      by (simp add: active_ok_def io_ok_def start_send_fields)
    show ?thesis
    proof (cases p)
      case (Some f)
      with np have "frame_ok f" "work (?s2\<lparr>a_socket := io_start_send f k\<rparr>) < work s"
        using s1(2) by (auto simp: work_def start_send_fields)
      with send k(1) True p Some show ?thesis
        by (simp add: active_step_def round_ok_def)
    next
      case None
      then have w2: "work ?s2 \<le> work s"
        using np s1(2) by (simp add: work_def)
      consider f where "a_pending_read_frame s = Some f"
        | f where "a_pending_read_frame s = None" "a_pending_write_frame s = Some f"
        | "a_pending_read_frame s = None" "a_pending_write_frame s = None"
        by fastforce
      then show ?thesis
      proof cases
        case 1
        then have "frame_ok f"
          using assms by (simp add: active_ok_def io_ok_def)
        with send [OF this] k(1) True p None 1 w2 show ?thesis
          by (auto simp: active_step_def round_ok_def work_def start_send_fields active_ok_def io_ok_def)
      next
        case 2
        then have "frame_ok f"
          using assms by (simp add: active_ok_def io_ok_def)
        with send [OF this] k(1) True p None 2 w2 show ?thesis
          by (auto simp: active_step_def round_ok_def work_def start_send_fields active_ok_def io_ok_def)
      next
        case 3
        with active_flush_ok [OF s2 w2, of cx] k(1) True p None show ?thesis
          by (simp add: active_step_def)
      qed
    qed
  qed
qed

lemma active_poll_ok:
  assumes "ok s"
  shows "\<exists>r s'. active_poll env cx s = Some (r, s') \<and> ok s' \<and> same_conf s s'"
  unfolding active_poll_def
proof (rule run_loop_total [where I = "\<lambda>t. ok t \<and> same_conf s t" and m = work])
  fix t
  assume t: "ok t \<and> same_conf s t"
  then have "ok t" ..
  from active_step_ok [OF this, of cx] obtain y where y: "active_step env cx t = Some y"
    "case y of Return r u \<Rightarrow> ok u \<and> same_conf t u | Continue u \<Rightarrow> ok u \<and> same_conf t u \<and> work u < work t"
    by (auto simp: round_ok_def)
  then show "\<exists>y. active_step env cx t = Some y"
    by blast
  show "(ok u \<and> same_conf s u) \<and> work u < work t" if "active_step env cx t = Some (Continue u)" for u
    using that y t same_conf_trans by auto
  show "ok u \<and> same_conf s u" if "active_step env cx t = Some (Return r u)" for r u
    using that y t same_conf_trans by auto
qed (simp add: assms)

end

end
