(* ===== verification/Active_System.thy ===== *)
theory Active_System
  imports Active_Poll
begin

text \<open>
  An active connection together with the handles of its streams: opening streams, the calls of
  handles interleaved with the connection's polls, and what holds of every state reached.
\<close>

subsection \<open>Opening streams\<close>

context conn_env
begin

lemma make_new_outbound_ok:
  assumes "core_ok s" and "0 < max_num_streams (a_config s)"
    and "make_new_outbound_stream env sid s = (st, s')"
  shows "handles s s' \<and> a_streams s' = a_streams s \<and> a_next_id s' = a_next_id s
    \<and> ack_backlog s' = ack_backlog s \<and> stm_id st = sid \<and> stm_flag st = Syn
    \<and> stm_shared st \<in> set (addresses s') \<and> stm_shared st \<notin> set (held s')
    \<and> w_handles s' = w_handles s @ [st]"
proof -
  obtain tx ch where ch: "mx_channel (e_ch env) sid (w_chan s) = (tx, ch)"
    by (rule prod.exhaust)
  let ?s1 = "s\<lparr>w_chan := ch, w_woken := wake (a_no_streams_waker s) (w_woken s), a_no_streams_waker := None\<rparr>"
  have new: "stream_new (e_ch env) (e_clock env) Syn sid (a_config ?s1) DEFAULT_CREDIT tx ?s1 = (st, s')"
    using assms(3) ch by (simp add: make_new_outbound_stream_def stream_new_outbound_def)
  have "core_ok ?s1" "0 < max_num_streams (a_config ?s1)"
    using assms by simp_all
  from core_ok_stream_new [OF this new] ch mux.channel_queued [of sid "w_chan s"]
    mux.clone_queued [of tx ch] show ?thesis
    by (auto simp: handles_def same_io_def ack_backlog_def)
qed

text \<open>What a call of \<open>poll_new_outbound\<close> did, by its result.\<close>

definition outbound_ok ::
    "waker \<Rightarrow> ('a, 'b) active \<Rightarrow> (stream, connection_error) result poll \<Rightarrow> ('a, 'b) active \<Rightarrow> bool" where
  "outbound_ok cx s r s' \<longleftrightarrow>
     (case r of
        Ready (Ok st) \<Rightarrow> stm_id st = a_next_id s \<and> stm_flag st = Syn \<and> \<not> contains_key (stm_id st) s
          \<and> a_streams s' = a_streams s @ [(stm_id st, stm_shared st)]
          \<and> w_handles s' = w_handles s @ [st] \<and> unat (a_next_id s') = unat (a_next_id s) + 2
      | Ready (Err e) \<Rightarrow> s' = s \<and>
          (e = TooManyStreams \<and> length (a_streams s) = max_num_streams (a_config s)
           \<or> e = NoMoreStreamIds \<and> 2 ^ 32 \<le> unat (a_next_id s) + 2)
      | Pending \<Rightarrow> ack_backlog s = MAX_ACK_BACKLOG \<and> s' = s\<lparr>a_new_outbound_stream_waker := Some cx\<rparr>)"

lemma own_id_plus_two: "own_id mode (n + 2) = own_id mode n"
proof -
  have "(n + 2) mod 2 = n mod (2 :: u32)"
    by (simp add: mod_2_eq_odd)
  then show ?thesis
    by (simp add: own_id_def is_client_def is_server_def split: mode.splits)
qed

lemma next_stream_id_ok:
  assumes "core_ok s" and "checked_add (a_next_id s) 2 = Some n"
  shows "core_ok (s\<lparr>a_next_id := n\<rparr>)" and "a_next_id s < n" and "own_id (a_mode s) (a_next_id s)"
    and "streams_get (a_next_id s) s = None"
proof -
  have n: "unat n = unat (a_next_id s) + 2" "n = a_next_id s + 2"
    using assms(2) unfolding checked_add_Some_iff [of "a_next_id s" 2 n]
    by simp (use assms(2) in \<open>simp add: checked_add_def split: if_splits\<close>)
  then show less: "a_next_id s < n"
    by (simp add: word_less_nat_alt)
  show own: "own_id (a_mode s) (a_next_id s)"
    using assms(1) by (simp add: core_ok_def map_ok_def)
  show "core_ok (s\<lparr>a_next_id := n\<rparr>)"
    using assms(1) less by (auto simp: core_ok_def world_ok_def map_ok_def ack_backlog_def n(2) own_id_plus_two
        intro: less_trans)
  show "streams_get (a_next_id s) s = None"
    using assms(1) own by (force simp: core_ok_def map_ok_def streams_get_def map_of_eq_None_iff)
qed

lemma poll_new_outbound_ok:
  assumes "core_ok s"
  shows "\<exists>r s'. active_poll_new_outbound env cx s = Some (r, s') \<and> handles s s' \<and> outbound_ok cx s r s'"
proof -
  have len: "length (a_streams s) \<le> max_num_streams (a_config s)" "ack_backlog s \<le> MAX_ACK_BACKLOG"
    using assms by (auto simp: core_ok_def map_ok_def)
  consider (full) "max_num_streams (a_config s) \<le> length (a_streams s)"
    | (wait) "length (a_streams s) < max_num_streams (a_config s)" "MAX_ACK_BACKLOG \<le> ack_backlog s"
    | (ids) "length (a_streams s) < max_num_streams (a_config s)" "ack_backlog s < MAX_ACK_BACKLOG"
        "checked_add (a_next_id s) 2 = None"
    | (new) n where "length (a_streams s) < max_num_streams (a_config s)" "ack_backlog s < MAX_ACK_BACKLOG"
        "checked_add (a_next_id s) 2 = Some n"
    by (metis not_le option.exhaust)
  then show ?thesis
  proof cases
    case full
    with len assms show ?thesis
      by (auto simp: active_poll_new_outbound_def outbound_ok_def intro: handles_quiet quiet_refl)
  next
    case wait
    with len assms show ?thesis
      by (auto simp: active_poll_new_outbound_def outbound_ok_def handles_def same_io_def)
  next
    case ids
    then have "2 ^ 32 \<le> unat (a_next_id s) + 2"
      by (simp add: checked_add_None_iff)
    with ids assms show ?thesis
      by (auto simp: active_poll_new_outbound_def outbound_ok_def next_stream_id_def Let_def
          intro: handles_quiet quiet_refl)
  next
    case (new n)
    note nx = next_stream_id_ok [OF assms new(3)]
    let ?sid = "a_next_id s" and ?s1 = "s\<lparr>a_next_id := n\<rparr>"
    obtain st s2 where mk: "make_new_outbound_stream env ?sid ?s1 = (st, s2)"
      by (rule prod.exhaust)
    have "0 < max_num_streams (a_config ?s1)"
      using new(1) by simp
    note m = make_new_outbound_ok [OF nx(1) this mk]
    have "ack_backlog ?s1 = ack_backlog s"
      by (simp add: ack_backlog_def)
    with m nx new have ins: "streams_insert ?sid (stm_shared st) s2
          = Some (s2\<lparr>a_streams := a_streams s2 @ [(?sid, stm_shared st)]\<rparr>)"
      "quiet s2 (s2\<lparr>a_streams := a_streams s2 @ [(?sid, stm_shared st)]\<rparr>)"
      using streams_insert_ok [of s2 ?sid "stm_shared st"]
      by (auto simp: handles_def same_io_def streams_get_def)
    let ?s3 = "s2\<lparr>a_streams := a_streams s2 @ [(?sid, stm_shared st)]\<rparr>"
    have "active_poll_new_outbound env cx s = Some (Ready (Ok st), ?s3)"
      using new nx(3) mk ins(1) by (simp add: active_poll_new_outbound_def next_stream_id_def Let_def)
    moreover have "handles s ?s3"
      using handles_quiet_trans [of ?s1 s2 ?s3] m ins(2) by (simp add: handles_def same_io_def)
    moreover have "unat n = unat (a_next_id s) + 2"
      using new(3) by (auto simp: checked_add_Some_iff)
    then have "outbound_ok cx s (Ready (Ok st)) ?s3"
      using m nx(4) by (simp add: outbound_ok_def contains_key_def)
    ultimately show ?thesis by blast
  qed
qed

end

subsection \<open>Calls on handles\<close>

lemma handle_call_fields:
  assumes "handle_call ops i c s = Some s'"
  shows "same_io s s' \<and> a_streams s' = a_streams s \<and> a_next_id s' = a_next_id s"
  using assms by (auto simp: handle_call_def put_cell_def same_io_def Let_def bind_eq_Some_conv)

lemma arc_drop_fields:
  "arc_drop a refs s = Some s' \<Longrightarrow> same_io s s' \<and> a_streams s' = a_streams s
     \<and> a_next_id s' = a_next_id s \<and> w_chan s' = w_chan s"
  by (auto simp: arc_drop_def same_io_def bind_eq_Some_conv split: if_splits)

lemma drop_handle_fields:
  assumes "drop_handle ops hs i s = Some s'"
  shows "same_io s s' \<and> a_streams s' = a_streams s \<and> a_next_id s' = a_next_id s
    \<and> w_chan s' = mx_drop ops (stm_window_update_sender (w_handles s ! i))
        (mx_drop ops (stm_sender (w_handles s ! i)) (w_chan s))"
  using arc_drop_fields [OF assms [unfolded drop_handle_def Let_def]] by (simp add: same_io_def)

lemma core_ok_states_up:
  assumes "core_ok s" and "world_ok (a_config s) (held s) s'" and "states_up s s'"
    and "same_io s s' \<and> a_streams s' = a_streams s \<and> a_next_id s' = a_next_id s"
  shows "core_ok s'"
proof -
  have "ack_backlog s' \<le> ack_backlog s"
  proof (rule ack_backlog_mono [where R = "\<lambda>_. True"])
    fix a sh'
    assume a: "a \<in> set (held s')" and c: "cell a s' = Some sh'"
    then obtain sh where "cell a s = Some sh"
      using assms(4) core_ok_cell [OF assms(1), of a] by auto
    with c assms(3) show "\<exists>sh. cell a s = Some sh \<and> sh_state sh \<le> sh_state sh'"
      by (auto simp: states_up_def)
  qed (use assms(4) in \<open>auto simp: same_io_def\<close>)
  with assms show ?thesis
    by (auto simp: core_ok_def map_ok_def same_io_def)
qed

context conn_env
begin

lemma handle_call_active_ok:
  assumes "active_ok queued s" and "i < length (w_handles s)" and "call_ok c"
  shows "\<exists>s'. handle_call (e_ch env) i c s = Some s' \<and> active_ok queued s'"
proof -
  have ok: "core_ok s" and w: "world_ok (a_config s) (held s) s"
    using assms(1) by (auto simp: active_ok_def core_ok_def)
  obtain s' where s': "handle_call (e_ch env) i c s = Some s'" "world_ok (a_config s) (held s) s'"
    "states_up s s'"
    using handle_call_ok [OF w assms(2,3), of "e_ch env"] by blast
  from s'(1) obtain sh x where "run_call (e_ch env) (rtt_get (w_rtt s)) c (handle_ctx (w_handles s ! i) sh s) = Some x"
    "w_chan s' = cx_chan x"
    by (auto simp: handle_call_def Let_def bind_eq_Some_conv)
  with mux.run_call_adds_ok have "mux.adds_ok (w_chan s) (w_chan s')"
    by (fastforce simp: handle_ctx_def)
  then have "\<forall>c \<in># queued (w_chan s'). cmd_ok c"
    using assms(1) by (auto simp: mux.adds_ok_def active_ok_def)
  moreover have "core_ok s'"
    using core_ok_states_up [OF ok s'(2,3) handle_call_fields [OF s'(1)]] .
  ultimately show ?thesis
    using s'(1) assms(1) handle_call_fields [OF s'(1)]
    by (auto simp: active_ok_def io_ok_def same_io_def)
qed

lemma drop_handle_active_ok:
  assumes "active_ok queued s" and "i < length (w_handles s)"
  shows "\<exists>s'. drop_handle (e_ch env) (held s) i s = Some s' \<and> active_ok queued s'"
proof -
  have ok: "core_ok s" and w: "world_ok (a_config s) (held s) s"
    using assms(1) by (auto simp: active_ok_def core_ok_def)
  obtain s' where s': "drop_handle (e_ch env) (held s) i s = Some s'" "world_ok (a_config s) (held s) s'"
    "states_up s s'"
    using drop_handle_ok [OF w assms(2), of "e_ch env"] by blast
  note f = drop_handle_fields [OF s'(1)]
  have "core_ok s'"
    using core_ok_states_up [OF ok s'(2,3)] f by blast
  with s'(1) assms(1) f mux.drop_queued show ?thesis
    by (auto simp: active_ok_def io_ok_def same_io_def)
qed

end

subsection \<open>Every state reached\<close>

text \<open>
  The life of an active connection: polls that do not end in an error, requests for outbound
  streams, and, in between, calls on the stream handles and their destruction, in any order.
\<close>

inductive reachable :: "('io, 'ch) env \<Rightarrow> ('io, 'ch) active \<Rightarrow> ('io, 'ch) active \<Rightarrow> bool" for env s0 where
  start: "reachable env s0 s0"
| poll: "reachable env s0 s \<Longrightarrow> active_poll env cx s = Some (r, s') \<Longrightarrow> (\<forall>e. r \<noteq> Ready (Err e)) \<Longrightarrow>
    reachable env s0 s'"
| outbound: "reachable env s0 s \<Longrightarrow> active_poll_new_outbound env cx s = Some (r, s') \<Longrightarrow>
    (\<forall>e. r \<noteq> Ready (Err e)) \<Longrightarrow> reachable env s0 s'"
| call: "reachable env s0 s \<Longrightarrow> i < length (w_handles s) \<Longrightarrow> call_ok c \<Longrightarrow>
    handle_call (e_ch env) i c s = Some s' \<Longrightarrow> reachable env s0 s'"
| drop: "reachable env s0 s \<Longrightarrow> i < length (w_handles s) \<Longrightarrow>
    drop_handle (e_ch env) (held s) i s = Some s' \<Longrightarrow> reachable env s0 s'"

context duplex_env
begin

lemma outbound_keeps_ok:
  assumes "ok s"
  shows "\<exists>r s'. active_poll_new_outbound env cx s = Some (r, s') \<and> ok s' \<and> same_conf s s'"
proof -
  have "core_ok s"
    using assms by (simp add: active_ok_def)
  from poll_new_outbound_ok [OF this, of cx] show ?thesis
    using ok_handles [OF assms] handles_conf by blast
qed

lemma reachable_ok:
  assumes "reachable env s0 s" and "ok s0"
  shows "ok s \<and> same_conf s0 s"
  using assms
proof (induction rule: reachable.induct)
  case start
  then show ?case by simp
next
  case (poll s cx r s')
  with active_poll_ok [of s cx] show ?case by (auto intro: same_conf_trans)
next
  case (outbound s cx r s')
  with outbound_keeps_ok [of s cx] show ?case by (auto intro: same_conf_trans)
next
  case (call s i c s')
  with handle_call_active_ok [of s i c] handle_call_fields [of "e_ch env" i c s s'] show ?case
    by (auto simp: same_io_def same_conf_def)
next
  case (drop s i s')
  with drop_handle_active_ok [of s i] drop_handle_fields [of "e_ch env" "held s" i s s'] show ?case
    by (auto simp: same_io_def same_conf_def)
qed

end

subsection \<open>A concrete environment\<close>

definition test_env :: "(pipe, chans) env" where
  "test_env = \<lparr>e_io = pipe_ops 4096, e_ch = list_mux, e_clock = id\<rparr>"

abbreviation chans_queued :: "chans \<Rightarrow> stream_command multiset" where
  "chans_queued c \<equiv> rx_queued (cs_rx c)"

abbreviation chans_ends :: "chans \<Rightarrow> nat" where
  "chans_ends c \<equiv> rx_ends (cs_rx c)"

interpretation test: duplex_env test_env pipe_out pipe_in chans_queued chans_ends
  unfolding duplex_env_def conn_env_def test_env_def env.simps
  by (intro conjI pipe_sink pipe_source list_mux.command_mux_axioms)
    (unfold_locales, simp_all add: pipe_ops_def)

end
