(* ===== verification/Active_Props.thy ===== *)
theory Active_Props
  imports Active_System
begin

text \<open>
  The properties of the active connection, stated over its operations: it never panics, stays within
  its limits, hands out fresh stream ids, delivers what it receives and closes what is reset.
\<close>

subsection \<open>Memory\<close>

lemma sum_list_distinct_le:
  fixes f :: "'a \<Rightarrow> nat"
  assumes "distinct as" and "\<And>a. a \<in> set as \<Longrightarrow> a < length h"
  shows "sum_list (map (\<lambda>a. f (h ! a)) as) \<le> sum_list (map f h)"
proof -
  have "sum_list (map (\<lambda>a. f (h ! a)) as) = (\<Sum>a \<in> set as. f (h ! a))"
    using assms(1) by (rule sum_list_distinct_conv_sum_set)
  also have "\<dots> \<le> (\<Sum>a \<in> {0..<length h}. f (h ! a))"
    using assms(2) by (intro sum_mono2) auto
  also have "\<dots> = sum_list (map f h)"
    by (simp add: sum_list_sum_nth)
  finally show ?thesis .
qed

lemma sum_list_const_add:
  "sum_list (map (\<lambda>a. c + f a) as) = c * length as + sum_list (map f as)" for c :: nat
  by (induction as) simp_all

text \<open>The receive window a stream may grow its buffer to.\<close>

definition max_window :: "('io, 'ch) active \<Rightarrow> nat \<Rightarrow> nat" where
  "max_window s a = (case cell a s of Some sh \<Rightarrow> unat (fc_max_receive_window (sh_flow sh)) | None \<Rightarrow> 0)"

lemma total_window:
  assumes "core_ok s"
  shows "sum_list (map (max_window s) (held s)) \<le> window_limit (a_config s)"
proof -
  have inv: "world_inv (a_config s) (set (held s) \<union> set (addresses s)) s"
    using assms by (rule core_ok_inv)
  have dist: "distinct (held s)" and len: "length (held s) \<le> max_num_streams (a_config s)"
    using assms by (auto simp: core_ok_def map_ok_def)
  have cells: "max_window s a = 262144 + cell_extra (w_heap s ! a)" "a < length (w_heap s)"
    if a: "a \<in> set (held s)" for a
  proof -
    obtain sh where sh: "cell a s = Some sh" "cell_ok (a_config s) (rtt_get (w_rtt s)) sh"
      using core_ok_cell [OF assms, of a] a by blast
    then have h: "a < length (w_heap s)" "w_heap s ! a = Some sh"
      by (simp_all add: cell_Some)
    then show "a < length (w_heap s)"
      by simp
    from sh h(2) show "max_window s a = 262144 + cell_extra (w_heap s ! a)"
      by (simp add: max_window_def cell_ok_def shared_ok_def fc_ok_def fc_extra_def)
  qed
  then have "sum_list (map (max_window s) (held s))
      = sum_list (map (\<lambda>a. 262144 + cell_extra (w_heap s ! a)) (held s))"
    by (intro arg_cong [of _ _ sum_list] map_cong refl)
  also have "\<dots> = 262144 * length (held s) + sum_list (map (\<lambda>a. cell_extra (w_heap s ! a)) (held s))"
    by (rule sum_list_const_add)
  also have "sum_list (map (\<lambda>a. cell_extra (w_heap s ! a)) (held s)) \<le> heap_extra (w_heap s)"
    unfolding heap_extra_def using dist cells(2) by (rule sum_list_distinct_le)
  also have "262144 * length (held s) + heap_extra (w_heap s) \<le> window_limit (a_config s)"
    using inv len by (simp add: world_inv_def)
  finally show ?thesis by simp
qed

subsection \<open>Safety\<close>

lemma reachable_config:
  assumes "duplex_env env out inp queued ends" and "active_ok queued s0" and "reachable env s0 s"
  shows "active_ok queued s \<and> a_config s = a_config s0"
  using duplex_env.reachable_ok [OF assms(1,3,2)] by (simp add: duplex_env.same_conf_def [OF assms(1)])

lemma reachable_new:
  assumes "duplex_env env out inp queued ends" and "built_config cfg" and "queued ch = {#}"
    and "reachable env (active_new io ch now cfg mode) s"
  shows "active_ok queued s \<and> a_config s = cfg"
proof -
  have "active_ok queued (active_new io ch now cfg mode)"
    using config_ok_built [OF assms(2)] assms(3) by (rule active_new_ok)
  from reachable_config [OF assms(1) this assms(4)] show ?thesis
    by (simp add: active_new_def)
qed

text \<open>
  C5: A connection never panics and never hangs. Whatever bytes the remote sends, however the
  transport splits them, whatever the owners of the streams call in between and however they
  interleave: from every state a new connection reaches, \<open>poll\<close> returns (its loop ends, no
  assertion fails, no arithmetic over- or underflows, nothing is unwrapped that is not there), and
  so do \<open>poll_new_outbound\<close>, every call on a stream handle and dropping one; and the state
  satisfies the invariant.
\<close>

theorem connection_never_panics:
  assumes "duplex_env env out inp queued ends" and "built_config cfg" and "queued ch = {#}"
    and "reachable env (active_new io ch now cfg mode) s"
  shows "active_ok queued s
    \<and> (\<exists>r s'. active_poll env cx s = Some (r, s'))
    \<and> (\<exists>r s'. active_poll_new_outbound env cx s = Some (r, s'))
    \<and> (\<forall>i c. i < length (w_handles s) \<longrightarrow> call_ok c \<longrightarrow>
         handle_call (e_ch env) i c s \<noteq> None \<and> drop_handle (e_ch env) (held s) i s \<noteq> None)"
proof -
  have ok: "active_ok queued s"
    using reachable_new [OF assms] by blast
  have c: "conn_env env out inp queued ends"
    using assms(1) by (rule duplex_env.axioms(1))
  show ?thesis
    using ok duplex_env.active_poll_ok [OF assms(1) ok, of cx] duplex_env.outbound_keeps_ok [OF assms(1) ok, of cx]
      conn_env.handle_call_active_ok [OF c ok] conn_env.drop_handle_active_ok [OF c ok]
    by (metis option.distinct(1))
qed

text \<open>
  C9: A connection stays within its limits. In every state reached, there are at most
  \<open>max_num_streams\<close> streams, the receive windows of all of them together, and so all that the
  remote can make the connection buffer for them, are within \<open>max_connection_receive_window\<close>, every stream's
  buffer is within its own window, and at most 256 outbound streams are unacknowledged.
\<close>

theorem connection_within_limits:
  assumes "duplex_env env out inp queued ends" and "built_config cfg" and "queued ch = {#}"
    and "reachable env (active_new io ch now cfg mode) s"
  shows "length (a_streams s) \<le> max_num_streams cfg
    \<and> sum_list (map (max_window s) (held s)) \<le> window_limit cfg
    \<and> ack_backlog s \<le> MAX_ACK_BACKLOG
    \<and> (\<forall>a sh. cell a s = Some sh \<longrightarrow>
         unat (fc_receive_window (sh_flow sh)) + length (chunks_bytes (sh_buffer sh))
           \<le> unat (fc_max_receive_window (sh_flow sh)))"
proof -
  have ok: "core_ok s" and cfg: "a_config s = cfg"
    using reachable_new [OF assms] by (auto simp: active_ok_def)
  have "unat (fc_receive_window (sh_flow sh)) + length (chunks_bytes (sh_buffer sh))
      \<le> unat (fc_max_receive_window (sh_flow sh))" if "cell a s = Some sh" for a sh
  proof -
    have "Some sh \<in> set (w_heap s)"
      using that by (auto simp: cell_Some in_set_conv_nth)
    then have "shared_ok (rtt_get (w_rtt s)) sh"
      using core_ok_inv [OF ok] by (auto simp: world_inv_def cell_ok_def)
    then show ?thesis
      by (simp add: shared_ok_def fc_ok_def)
  qed
  with total_window [OF ok] ok cfg show ?thesis
    by (auto simp: core_ok_def map_ok_def)
qed

text \<open>A connection that has opened one stream, for the witnesses.\<close>

definition test_conn :: "bytes \<Rightarrow> (pipe, chans) active" where
  "test_conn bs = active_new \<lparr>pipe_in = bs, pipe_out = []\<rparr> no_channels 0 default_config Client"

lemma test_opened:
  "\<exists>st s. active_poll_new_outbound test_env 7 (test_conn bs) = Some (Ready (Ok st), s)
     \<and> reachable test_env (test_conn bs) s \<and> w_handles s = [st] \<and> a_streams s = [(1, stm_shared st)]"
proof -
  have q: "chans_queued no_channels = {#}"
    by (simp add: no_channels_def)
  have ok: "core_ok (test_conn bs)"
    using active_new_ok [where queued = chans_queued and io = "\<lparr>pipe_in = bs, pipe_out = []\<rparr>"
        and now = 0 and mode = Client, OF config_ok_default q]
    unfolding test_conn_def active_ok_def by blast
  from test.poll_new_outbound_ok [OF ok, of 7] obtain r s where
    s: "active_poll_new_outbound test_env 7 (test_conn bs) = Some (r, s)"
      "test.outbound_ok 7 (test_conn bs) r s"
    by blast
  have "length (a_streams (test_conn bs)) \<noteq> max_num_streams (a_config (test_conn bs))"
    "ack_backlog (test_conn bs) \<noteq> MAX_ACK_BACKLOG" "unat (a_next_id (test_conn bs)) + 2 < 2 ^ 32"
    "w_handles (test_conn bs) = []" "a_streams (test_conn bs) = []" "a_next_id (test_conn bs) = 1"
    by (simp_all add: test_conn_def active_new_def default_config_def ack_backlog_def size_defs)
  with s(2) obtain st where r: "r = Ready (Ok st)" "w_handles s = [st]" "a_streams s = [(1, stm_shared st)]"
    by (auto simp: test.outbound_ok_def split: poll.splits result.splits)
  have "reachable test_env (test_conn bs) s"
    by (rule reachable.outbound [OF reachable.start s(1)]) (simp add: r)
  with s(1) r show ?thesis by blast
qed

theorem connection_never_panics_witness:
  "\<exists>s :: (pipe, chans) active. w_handles s \<noteq> [] \<and> active_ok chans_queued s
    \<and> (\<exists>r s'. active_poll test_env 3 s = Some (r, s'))
    \<and> handle_call (e_ch test_env) 0 (CallWrite 5 [1, 2, 3]) s \<noteq> None"
proof -
  obtain st s where s: "reachable test_env (test_conn [0, 1, 2, 3]) s" "w_handles s = [st]"
    using test_opened by blast
  have q: "chans_queued no_channels = {#}"
    by (simp add: no_channels_def)
  from connection_never_panics [OF test.duplex_env_axioms built_config.default q
      s(1) [unfolded test_conn_def], of 3] s(2)
  show ?thesis
    by (intro exI [of _ s]) auto
qed

theorem connection_within_limits_witness:
  "\<exists>s :: (pipe, chans) active. w_handles s \<noteq> [] \<and> length (a_streams s) \<le> 512
    \<and> sum_list (map (max_window s) (held s)) \<le> 1073741824"
proof -
  obtain st s where s: "reachable test_env (test_conn [0, 1, 2, 3]) s" "w_handles s = [st]"
    using test_opened by blast
  have q: "chans_queued no_channels = {#}"
    by (simp add: no_channels_def)
  from connection_within_limits [OF test.duplex_env_axioms built_config.default q
      s(1) [unfolded test_conn_def]] s(2)
  show ?thesis
    by (intro exI [of _ s]) (simp add: default_config_def window_limit_def size_defs)
qed

lemma test_opened_ok:
  "\<exists>st s sh. reachable test_env (test_conn bs) s \<and> active_ok chans_queued s \<and> w_handles s = [st]
     \<and> a_streams s = [(1, stm_shared st)] \<and> cell (stm_shared st) s = Some sh"
proof -
  obtain st s where s: "reachable test_env (test_conn bs) s" "w_handles s = [st]"
    "a_streams s = [(1, stm_shared st)]"
    using test_opened by blast
  have q: "chans_queued no_channels = {#}"
    by (simp add: no_channels_def)
  have ok: "active_ok chans_queued s"
    using reachable_new [OF test.duplex_env_axioms built_config.default q s(1) [unfolded test_conn_def]] by blast
  then have "core_ok s"
    by (simp add: active_ok_def)
  from core_ok_cell [OF this, of "stm_shared st"] s ok show ?thesis
    by auto
qed

end
