(* ===== verification/Shutdown.thy ===== *)
theory Shutdown
  imports Active_Props
begin

text \<open>
  The two ways a connection ends: \<open>Closing\<close> (\<^verbatim>\<open>yamux/src/connection/closing.rs\<close>), which sends what
  is queued and a final \<open>GoAway\<close> and then closes the socket, and \<open>Cleanup\<close>
  (\<^verbatim>\<open>yamux/src/connection/cleanup.rs\<close>), which drops what is queued after an error. Both own the
  receivers of the command channels, so their records extend the world shared with the stream
  handles, which live on. Closing and dropping a receiver wakes the tasks parked in its channel; this is
  the channel's, and \<open>w_woken\<close> does not show it. \<open>Active::close\<close> and \<open>Active::cleanup\<close> lead to them.
\<close>

subsection \<open>Closing\<close>

datatype closing_state =
  ClosingStreamReceiver
| DrainingStreamReceiver
| FlushingPendingFrames
| ClosingSocket

record ('io, 'ch) closing = "'ch world" +
  cl_state :: closing_state
  cl_pending_frames :: "frame list"
  cl_socket :: "'io sock"

definition closing_new ::
    "('ch, 'z) world_scheme \<Rightarrow> frame list \<Rightarrow> 'io sock \<Rightarrow> ('io, 'ch) closing" where
  "closing_new w pending_frames socket =
     world.extend (world.truncate w)
       \<lparr>cl_state = ClosingStreamReceiver, cl_pending_frames = pending_frames, cl_socket = socket\<rparr>"

text \<open>One round of the loop of \<open>Closing::poll\<close>.\<close>

definition closing_step ::
    "('io, 'ch) env \<Rightarrow> waker \<Rightarrow> ('io, 'ch) closing \<Rightarrow>
       ((unit, connection_error) result poll, ('io, 'ch) closing) flow run" where
  "closing_step env cx s =
     (case cl_state s of
        ClosingStreamReceiver \<Rightarrow>
          Some (Continue (s\<lparr>w_chan := mx_close_all (e_ch env) (w_chan s), cl_state := DrainingStreamReceiver\<rparr>))
      | DrainingStreamReceiver \<Rightarrow>
          Some (Continue (case mx_poll_next (e_ch env) cx (w_chan s) of
             (Ready (Some (_, Some (SendFrame f))), ch) \<Rightarrow>
               s\<lparr>w_chan := ch, cl_pending_frames := cl_pending_frames s @ [f]\<rparr>
           | (Ready (Some (sid, Some (CloseStream ack))), ch) \<Rightarrow>
               s\<lparr>w_chan := ch, cl_pending_frames := cl_pending_frames s @ [frame_close_stream sid ack]\<rparr>
           | (Ready (Some (_, None)), ch) \<Rightarrow> s\<lparr>w_chan := ch\<rparr>
           | (Ready None, ch) \<Rightarrow>
               s\<lparr>w_chan := ch, cl_pending_frames := cl_pending_frames s @ [frame_term],
                 cl_state := FlushingPendingFrames\<rparr>
           | (Pending, ch) \<Rightarrow>
               s\<lparr>w_chan := ch, cl_pending_frames := cl_pending_frames s @ [frame_term],
                 cl_state := FlushingPendingFrames\<rparr>))
      | FlushingPendingFrames \<Rightarrow> do {
          (r, socket) \<leftarrow> io_poll_ready (e_io env) (cl_socket s);
          let s = s\<lparr>cl_socket := socket\<rparr>;
          Some (case r of
             Pending \<Rightarrow> Return Pending s
           | Ready (Err e) \<Rightarrow> Return (Ready (Err (ConnIo e))) s
           | Ready (Ok _) \<Rightarrow>
               (case cl_pending_frames s of
                  f # fs \<Rightarrow> Continue (s\<lparr>cl_pending_frames := fs, cl_socket := io_start_send f socket\<rparr>)
                | [] \<Rightarrow> Continue (s\<lparr>cl_state := ClosingSocket\<rparr>))) }
      | ClosingSocket \<Rightarrow> do {
          (r, socket) \<leftarrow> io_poll_close (e_io env) (cl_socket s);
          let s = s\<lparr>cl_socket := socket\<rparr>;
          Some (case r of
             Pending \<Rightarrow> Return Pending s
           | Ready (Err e) \<Rightarrow> Return (Ready (Err (ConnIo e))) s
           | Ready (Ok _) \<Rightarrow> Return (Ready (Ok ())) s) })"

definition closing_poll ::
    "('io, 'ch) env \<Rightarrow> waker \<Rightarrow> ('io, 'ch) closing \<Rightarrow>
       ((unit, connection_error) result poll \<times> ('io, 'ch) closing) run" where
  "closing_poll env cx = run_loop (closing_step env cx)"

subsection \<open>Cleanup\<close>

datatype cleanup_state = CleanupClosingStreamReceiver | CleanupDrainingStreamReceiver

record 'ch cleanup = "'ch world" +
  cu_state :: cleanup_state
  cu_error :: "connection_error option"

definition cleanup_new :: "('ch, 'z) world_scheme \<Rightarrow> connection_error \<Rightarrow> 'ch cleanup" where
  "cleanup_new w error =
     world.extend (world.truncate w) \<lparr>cu_state = CleanupClosingStreamReceiver, cu_error = Some error\<rparr>"

text \<open>One round of the loop of \<open>Cleanup::poll\<close>; \<open>expect\<close> panics when the error was taken before.\<close>

definition cleanup_step ::
    "('io, 'ch) env \<Rightarrow> waker \<Rightarrow> 'ch cleanup \<Rightarrow> (connection_error poll, 'ch cleanup) flow run" where
  "cleanup_step env cx s =
     (case cu_state s of
        CleanupClosingStreamReceiver \<Rightarrow>
          Some (Continue (s\<lparr>w_chan := mx_close_all (e_ch env) (w_chan s), cu_state := CleanupDrainingStreamReceiver\<rparr>))
      | CleanupDrainingStreamReceiver \<Rightarrow>
          (case mx_poll_next (e_ch env) cx (w_chan s) of
             (Ready (Some _), ch) \<Rightarrow> Some (Continue (s\<lparr>w_chan := ch\<rparr>))
           | (_, ch) \<Rightarrow> do {
               e \<leftarrow> cu_error s;
               Some (Return (Ready e) (s\<lparr>w_chan := ch, cu_error := None\<rparr>)) }))"

definition cleanup_poll ::
    "('io, 'ch) env \<Rightarrow> waker \<Rightarrow> 'ch cleanup \<Rightarrow> (connection_error poll \<times> 'ch cleanup) run" where
  "cleanup_poll env cx = run_loop (cleanup_step env cx)"

subsection \<open>Leaving the active state\<close>

text \<open>
  The map of streams is a field \<open>close\<close> does not move: it is dropped, and with it its \<open>Arc\<close>s, but
  the states of the streams stay as they are and nobody is woken.
\<close>

fun drop_arcs :: "nat list \<Rightarrow> ('ch, 'z) world_scheme \<Rightarrow> ('ch, 'z) world_scheme run" where
  "drop_arcs [] s = Some s"
| "drop_arcs (a # as) s = do { s \<leftarrow> arc_drop a (as @ addresses s) s; drop_arcs as s }"

definition option_list :: "'a option \<Rightarrow> 'a list" where
  "option_list x = (case x of None \<Rightarrow> [] | Some y \<Rightarrow> [y])"

definition active_close :: "('io, 'ch) active \<Rightarrow> ('io, 'ch) closing run" where
  "active_close s = do {
     let pending_frames = option_list (a_pending_read_frame s) @ option_list (a_pending_write_frame s);
     w \<leftarrow> drop_arcs (held s) (world.truncate s);
     Some (closing_new w pending_frames (a_socket s)) }"

definition active_cleanup :: "('io, 'ch) active \<Rightarrow> connection_error \<Rightarrow> 'ch cleanup run" where
  "active_cleanup s error = do {
     s \<leftarrow> drop_all_streams s;
     Some (cleanup_new s error) }"

subsection \<open>What is still to be sent\<close>

fun command_frames :: "(u32 \<times> stream_command option) list \<Rightarrow> frame list" where
  "command_frames [] = []"
| "command_frames ((_, Some (SendFrame f)) # xs) = f # command_frames xs"
| "command_frames ((sid, Some (CloseStream ack)) # xs) = frame_close_stream sid ack # command_frames xs"
| "command_frames ((_, None) # xs) = command_frames xs"

definition frames_bytes :: "frame list \<Rightarrow> bytes" where
  "frames_bytes fs = concat (map frame_bytes fs)"

lemma frames_bytes_simps [simp]:
  "frames_bytes [] = []" "frames_bytes (f # fs) = frame_bytes f @ frames_bytes fs"
  "frames_bytes (fs @ gs) = frames_bytes fs @ frames_bytes gs"
  by (simp_all add: frames_bytes_def)

text \<open>What the transport has accepted, what is left of the current frame, what is waiting.\<close>

definition wire :: "('io \<Rightarrow> bytes) \<Rightarrow> ('io, 'ch) closing \<Rightarrow> bytes" where
  "wire out s = out (io_inner (cl_socket s)) @ unsent (sock_write (cl_socket s)) @ frames_bytes (cl_pending_frames s)"

text \<open>\<open>bs\<close> is \<open>pre\<close>, the commands the receivers yield, and the final frame.\<close>

definition drain_plan ::
    "('io, 'ch) env \<Rightarrow> waker \<Rightarrow> 'ch \<Rightarrow> bytes \<Rightarrow> bytes \<Rightarrow> bool" where
  "drain_plan env cx ch pre bs \<longleftrightarrow> (\<exists>items ch'. drains (e_ch env) cx ch items ch'
     \<and> bs = pre @ frames_bytes (command_frames items @ [frame_term]))"

lemma drain_plan_stop:
  assumes "mx_poll_next (e_ch env) cx ch = (r, ch1)" and "r = Pending \<or> r = Ready None"
  shows "drain_plan env cx ch pre bs \<longleftrightarrow> bs = pre @ frame_bytes frame_term"
proof -
  have "drains (e_ch env) cx ch items ch' \<longleftrightarrow> items = [] \<and> ch' = ch1" for items ch'
    using assms by (subst drains.simps) auto
  then show ?thesis
    by (simp add: drain_plan_def)
qed

lemma drain_plan_item:
  assumes "mx_poll_next (e_ch env) cx ch = (Ready (Some x), ch1)"
  shows "drain_plan env cx ch pre bs \<longleftrightarrow> drain_plan env cx ch1 (pre @ frames_bytes (command_frames [x])) bs"
proof -
  have d: "drains (e_ch env) cx ch items ch' \<longleftrightarrow> (\<exists>xs. items = x # xs \<and> drains (e_ch env) cx ch1 xs ch')" for items ch'
    using assms by (subst drains.simps) auto
  show ?thesis
    unfolding drain_plan_def d by (cases "[x]" rule: command_frames.cases) (auto, force+)
qed

text \<open>\<open>bs\<close> is what the transport will have got in the end.\<close>

definition closing_plan ::
    "('io, 'ch) env \<Rightarrow> ('io \<Rightarrow> bytes) \<Rightarrow> waker \<Rightarrow> bytes \<Rightarrow> ('io, 'ch) closing \<Rightarrow> bool" where
  "closing_plan env out cx bs s \<longleftrightarrow>
     (case cl_state s of
        ClosingStreamReceiver \<Rightarrow> drain_plan env cx (mx_close_all (e_ch env) (w_chan s)) (wire out s) bs
      | DrainingStreamReceiver \<Rightarrow> drain_plan env cx (w_chan s) (wire out s) bs
      | FlushingPendingFrames \<Rightarrow> bs = wire out s
      | ClosingSocket \<Rightarrow> bs = wire out s \<and> cl_pending_frames s = [])"

definition closing_ok :: "config \<Rightarrow> ('ch \<Rightarrow> stream_command multiset) \<Rightarrow> ('io, 'ch) closing \<Rightarrow> bool" where
  "closing_ok cfg queued s \<longleftrightarrow> world_ok cfg [] s \<and> wstate_ok (sock_write (cl_socket s))
     \<and> (\<forall>f \<in> set (cl_pending_frames s). frame_ok f) \<and> (\<forall>c \<in># queued (w_chan s). cmd_ok c)"

definition cleanup_ok :: "config \<Rightarrow> 'ch cleanup \<Rightarrow> bool" where
  "cleanup_ok cfg s \<longleftrightarrow> world_ok cfg [] s \<and> cu_error s \<noteq> None"

lemma world_ok_closing_fields [simp]:
  "world_ok cfg as (s\<lparr>cl_state := y1\<rparr>) = world_ok cfg as s"
  "world_ok cfg as (s\<lparr>cl_pending_frames := y2\<rparr>) = world_ok cfg as s"
  "world_ok cfg as (s\<lparr>cl_socket := y3\<rparr>) = world_ok cfg as s"
  by (simp_all add: world_ok_def world_inv_def)

lemma world_ok_cleanup_fields [simp]:
  "world_ok cfg as (s\<lparr>cu_state := z1\<rparr>) = world_ok cfg as s"
  "world_ok cfg as (s\<lparr>cu_error := z2\<rparr>) = world_ok cfg as s"
  by (simp_all add: world_ok_def world_inv_def)

text \<open>What a future that ends a connection leaves alone.\<close>

definition same_world :: "('ch, 'z) world_scheme \<Rightarrow> ('ch, 'y) world_scheme \<Rightarrow> bool" where
  "same_world s t \<longleftrightarrow> world.truncate t = (world.truncate s)\<lparr>w_chan := w_chan t\<rparr>"

context duplex_env
begin

lemma drains_total: "\<exists>items ch'. drains (e_ch env) cx ch items ch'"
proof (induction "mux.backlog ch" arbitrary: ch rule: less_induct)
  case less
  obtain r ch1 where p: "mx_poll_next (e_ch env) cx ch = (r, ch1)"
    by (rule prod.exhaust)
  consider "r = Pending" | "r = Ready None" | x where "r = Ready (Some x)"
    by (metis option.exhaust poll.exhaust)
  then show ?case
  proof cases
    case (3 x)
    with mux.poll_next_backlog [OF p] have "mux.backlog ch1 < mux.backlog ch"
      by simp
    from less [OF this] 3 p show ?thesis
      by (metis drains.item)
  qed (use p in \<open>auto intro: drains.intros\<close>)
qed

definition closing_work :: "('a, 'b) closing \<Rightarrow> nat" where
  "closing_work s =
     (case cl_state s of
        ClosingStreamReceiver \<Rightarrow> 2 * mux.backlog (w_chan s) + length (cl_pending_frames s) + 5
      | DrainingStreamReceiver \<Rightarrow> 2 * mux.backlog (w_chan s) + length (cl_pending_frames s) + 4
      | FlushingPendingFrames \<Rightarrow> length (cl_pending_frames s) + 1
      | ClosingSocket \<Rightarrow> 0)"

lemma poll_close_total:
  assumes "wstate_ok (sock_write k)"
  shows "\<exists>r l. io_poll_close (e_io env) k = Some (r, l) \<and> wrote k l"
proof -
  obtain r l where l: "io_poll_ready (e_io env) k = Some (r, l)" "wrote k l"
    using poll_ready_total [OF assms] by blast
  then show ?thesis
    using close_inp [of "io_inner l"]
    by (auto simp: io_poll_close_def wrote_def split: poll.splits result.splits prod.splits)
qed

text \<open>A round of \<open>Closing::poll\<close>: it ends, or there is less left to do.\<close>

definition closing_round ::
    "config \<Rightarrow> ('a, 'b) closing \<Rightarrow> ((unit, connection_error) result poll, ('a, 'b) closing) flow \<Rightarrow> bool" where
  "closing_round cfg s y \<longleftrightarrow>
     (case y of
        Return r t \<Rightarrow> closing_ok cfg queued t \<and> same_world s t
          \<and> cl_state t \<in> {FlushingPendingFrames, ClosingSocket}
      | Continue t \<Rightarrow> closing_ok cfg queued t \<and> same_world s t \<and> closing_work t < closing_work s)"

lemma closing_drain_ok:
  assumes "closing_ok cfg queued s" and "cl_state s = DrainingStreamReceiver"
  shows "\<exists>y. closing_step env cx s = Some y \<and> closing_round cfg s y"
proof -
  obtain r ch where p: "mx_poll_next (e_ch env) cx (w_chan s) = (r, ch)"
    by (rule prod.exhaust)
  have q: "\<forall>c \<in># queued ch. cmd_ok c" "\<forall>sid c. r = Ready (Some (sid, Some c)) \<longrightarrow> cmd_ok c"
    using mux.poll_next_cmd_ok [OF p] assms(1) by (auto simp: closing_ok_def)
  note b = mux.poll_next_backlog [OF p]
  consider "r = Pending" | "r = Ready None" | sid where "r = Ready (Some (sid, None))"
    | sid f where "r = Ready (Some (sid, Some (SendFrame f)))"
    | sid a where "r = Ready (Some (sid, Some (CloseStream a)))"
    by (metis option.exhaust poll.exhaust stream_command.exhaust surj_pair)
  then show ?thesis
    using assms p q b
    by cases (auto simp: closing_step_def closing_round_def closing_ok_def closing_work_def same_world_def
        world.defs frame_ok_ctors)
qed

lemma closing_step_ok:
  assumes "closing_ok cfg queued s"
  shows "\<exists>y. closing_step env cx s = Some y \<and> closing_round cfg s y"
proof -
  have w: "wstate_ok (sock_write (cl_socket s))"
    using assms by (simp add: closing_ok_def)
  show ?thesis
  proof (cases "cl_state s")
    case ClosingStreamReceiver
    with assms mux.close_queued [of "w_chan s"] show ?thesis
      by (auto simp: closing_step_def closing_round_def closing_ok_def closing_work_def same_world_def
          world.defs mux.backlog_def)
  next
    case DrainingStreamReceiver
    with assms show ?thesis by (rule closing_drain_ok)
  next
    case FlushingPendingFrames
    obtain r l where l: "io_poll_ready (e_io env) (cl_socket s) = Some (r, l)" "wrote (cl_socket s) l"
      using poll_ready_total [OF w] by blast
    with assms FlushingPendingFrames show ?thesis
      by (auto simp: closing_step_def closing_round_def closing_ok_def closing_work_def same_world_def
          world.defs wrote_def wstate_ok_start_send Let_def split: poll.splits result.splits list.splits)
  next
    case ClosingSocket
    obtain r l where l: "io_poll_close (e_io env) (cl_socket s) = Some (r, l)" "wrote (cl_socket s) l"
      using poll_close_total [OF w] by blast
    with assms ClosingSocket show ?thesis
      by (auto simp: closing_step_def closing_round_def closing_ok_def same_world_def world.defs wrote_def Let_def
          split: poll.splits result.splits)
  qed
qed

lemma same_world_trans: "same_world s t \<Longrightarrow> same_world t u \<Longrightarrow> same_world s u"
  by (simp add: same_world_def)

lemma closing_poll_ok:
  assumes "closing_ok cfg queued s"
  shows "\<exists>r t. closing_poll env cx s = Some (r, t) \<and> closing_ok cfg queued t \<and> same_world s t
    \<and> cl_state t \<in> {FlushingPendingFrames, ClosingSocket}"
  unfolding closing_poll_def
proof (rule run_loop_total [where I = "\<lambda>t. closing_ok cfg queued t \<and> same_world s t" and m = closing_work])
  show "closing_ok cfg queued s \<and> same_world s s"
    using assms by (simp add: same_world_def world.defs)
  fix t :: "('a, 'b) closing"
  assume t: "closing_ok cfg queued t \<and> same_world s t"
  then obtain y where y: "closing_step env cx t = Some y" "closing_round cfg t y"
    using closing_step_ok by blast
  then show "\<exists>y. closing_step env cx t = Some y" by blast
  show "(closing_ok cfg queued u \<and> same_world s u) \<and> closing_work u < closing_work t"
    if "closing_step env cx t = Some (Continue u)" for u
    using that y t by (auto simp: closing_round_def intro: same_world_trans)
  show "closing_ok cfg queued u \<and> same_world s u \<and> cl_state u \<in> {FlushingPendingFrames, ClosingSocket}"
    if "closing_step env cx t = Some (Return r u)" for r u
    using that y t by (auto simp: closing_round_def intro: same_world_trans)
qed

lemma cleanup_poll_ok:
  assumes "cleanup_ok cfg s"
  shows "\<exists>t. cleanup_poll env cx s = Some (Ready (the (cu_error s)), t) \<and> world_ok cfg [] t \<and> same_world s t"
proof -
  let ?m = "\<lambda>t. mux.backlog (w_chan t) + (if cu_state t = CleanupClosingStreamReceiver then 1 else 0)"
  have "\<exists>r t. run_loop (cleanup_step env cx) s = Some (r, t) \<and>
      r = Ready (the (cu_error s)) \<and> world_ok cfg [] t \<and> same_world s t"
  proof (rule run_loop_total [where I = "\<lambda>t. cleanup_ok cfg t \<and> same_world s t \<and> cu_error t = cu_error s"
        and m = ?m])
    show "cleanup_ok cfg s \<and> same_world s s \<and> cu_error s = cu_error s"
      using assms by (simp add: same_world_def world.defs)
    fix t
    assume t: "cleanup_ok cfg t \<and> same_world s t \<and> cu_error t = cu_error s"
    obtain r ch where p: "mx_poll_next (e_ch env) cx (w_chan t) = (r, ch)"
      by (rule prod.exhaust)
    note b = mux.poll_next_backlog [OF p]
    obtain e where e: "cu_error t = Some e"
      using t by (auto simp: cleanup_ok_def)
    show "\<exists>y. cleanup_step env cx t = Some y"
      using p e by (auto simp: cleanup_step_def split: cleanup_state.splits poll.splits option.splits)
    show "(cleanup_ok cfg u \<and> same_world s u \<and> cu_error u = cu_error s) \<and> ?m u < ?m t"
      if "cleanup_step env cx t = Some (Continue u)" for u
      using that p b e t mux.close_queued [of "w_chan t"]
      by (auto simp: cleanup_step_def cleanup_ok_def same_world_def world.defs mux.backlog_def
          split: cleanup_state.splits poll.splits option.splits)
    show "r' = Ready (the (cu_error s)) \<and> world_ok cfg [] u \<and> same_world s u"
      if "cleanup_step env cx t = Some (Return r' u)" for r' u
      using that p e t
      by (auto simp: cleanup_step_def cleanup_ok_def same_world_def world.defs
          split: cleanup_state.splits poll.splits option.splits)
  qed
  then show ?thesis
    by (simp add: cleanup_poll_def)
qed

text \<open>Every round keeps to the plan, as long as the transport does not claim more than it was given.\<close>

definition on_plan :: "waker \<Rightarrow> bytes \<Rightarrow> ('a, 'b) closing \<Rightarrow> bool" where
  "on_plan cx bs s \<longleftrightarrow> wstate_ok (sock_write (cl_socket s)) \<and> sock_write (cl_socket s) \<noteq> WPoisoned
     \<and> (\<forall>f \<in> set (cl_pending_frames s). frame_ok f) \<and> (\<forall>c \<in># queued (w_chan s). cmd_ok c)
     \<and> closing_plan env out cx bs s"

lemma closing_step_item:
  assumes "cl_state s = DrainingStreamReceiver" and "mx_poll_next (e_ch env) cx (w_chan s) = (Ready (Some x), ch)"
  shows "closing_step env cx s = Some (Continue (s\<lparr>w_chan := ch,
    cl_pending_frames := cl_pending_frames s @ command_frames [x]\<rparr>))"
  using assms by (cases "[x]" rule: command_frames.cases) (auto simp: closing_step_def)

lemma on_plan_drain:
  assumes "on_plan cx bs s" and "cl_state s = DrainingStreamReceiver"
    and "closing_step env cx s = Some (Continue t)"
  shows "on_plan cx bs t"
proof -
  obtain r ch where p: "mx_poll_next (e_ch env) cx (w_chan s) = (r, ch)"
    by (rule prod.exhaust)
  have q: "\<forall>c \<in># queued ch. cmd_ok c" "\<forall>sid c. r = Ready (Some (sid, Some c)) \<longrightarrow> cmd_ok c"
    using mux.poll_next_cmd_ok [OF p] assms(1) unfolding on_plan_def by blast+
  have pl: "drain_plan env cx (w_chan s) (wire out s) bs"
    using assms(1,2) by (simp add: on_plan_def closing_plan_def)
  consider "r = Pending \<or> r = Ready None" | x where "r = Ready (Some x)"
    by (metis option.exhaust poll.exhaust)
  then show ?thesis
  proof cases
    case 1
    have "closing_step env cx s = Some (Continue (s\<lparr>w_chan := ch,
        cl_pending_frames := cl_pending_frames s @ [frame_term], cl_state := FlushingPendingFrames\<rparr>))"
      using 1 p assms(2) by (auto simp: closing_step_def)
    with drain_plan_stop [OF p 1] pl assms(1,3) q show ?thesis
      by (auto simp: on_plan_def closing_plan_def wire_def frame_ok_ctors)
  next
    case (2 x)
    have t: "t = s\<lparr>w_chan := ch, cl_pending_frames := cl_pending_frames s @ command_frames [x]\<rparr>"
      using closing_step_item [OF assms(2) p [unfolded 2]] assms(3) by simp
    have "drain_plan env cx ch (wire out t) bs"
      using pl unfolding drain_plan_item [OF p [unfolded 2]] by (simp add: t wire_def)
    moreover have "\<forall>f \<in> set (command_frames [x]). frame_ok f"
      using q(2) 2 by (cases "[x]" rule: command_frames.cases) (auto simp: frame_ok_ctors)
    ultimately show ?thesis
      using assms(1,2) q(1) by (auto simp: on_plan_def closing_plan_def t)
  qed
qed

lemma frame_body_bound: "frame_ok f \<Longrightarrow> length (fr_body f) < 2 ^ 64"
  using unat_u32_bound [of "hdr_length (fr_header f)"] by (auto simp: frame_ok_def split: if_splits)

lemma on_plan_step:
  assumes "on_plan cx bs s" and "closing_step env cx s = Some y"
  shows "case y of Continue t \<Rightarrow> on_plan cx bs t
    | Return r t \<Rightarrow> on_plan cx bs t \<and> cl_state t \<in> {FlushingPendingFrames, ClosingSocket}
        \<and> (r = Ready (Ok ()) \<longrightarrow> out (io_inner (cl_socket t)) = bs)"
proof (cases "cl_state s")
  case ClosingStreamReceiver
  with assms mux.close_queued [of "w_chan s"] show ?thesis
    by (auto simp: closing_step_def on_plan_def closing_plan_def wire_def)
next
  case DrainingStreamReceiver
  with assms on_plan_drain [of cx bs s] show ?thesis
    by (auto simp: closing_step_def)
next
  case FlushingPendingFrames
  have inv: "sink.sink_inv (out (io_inner (cl_socket s)) @ unsent (sock_write (cl_socket s))) (cl_socket s)"
    using assms(1) by (simp add: on_plan_def sink.sink_inv_def)
  have "length (fr_body f) < 18446744073709551616" if "f \<in> set (cl_pending_frames s)" for f
    using that assms(1) frame_body_bound [of f] by (simp add: on_plan_def)
  with sink.poll_ready_sink [OF inv] assms FlushingPendingFrames show ?thesis
    by (auto simp: closing_step_def on_plan_def closing_plan_def wire_def sink.sink_inv_def Let_def
        frame_bytes_def io_start_send_def split: poll.splits result.splits list.splits)
next
  case ClosingSocket
  have inv: "sink.sink_inv (out (io_inner (cl_socket s)) @ unsent (sock_write (cl_socket s))) (cl_socket s)"
    using assms(1) by (simp add: on_plan_def sink.sink_inv_def)
  from sink.poll_close_sink [OF this] assms ClosingSocket show ?thesis
    by (auto simp: closing_step_def on_plan_def closing_plan_def wire_def sink.sink_inv_def Let_def
        split: poll.splits result.splits)
qed

lemma on_plan_poll:
  assumes "on_plan cx bs s" and "closing_poll env cx s = Some (r, t)"
  shows "on_plan cx' bs t \<and> (r = Ready (Ok ()) \<longrightarrow> out (io_inner (cl_socket t)) = bs)"
proof -
  have "on_plan cx bs t \<and> cl_state t \<in> {FlushingPendingFrames, ClosingSocket}
      \<and> (r = Ready (Ok ()) \<longrightarrow> out (io_inner (cl_socket t)) = bs)"
    by (rule run_loop_rule [where I = "on_plan cx bs", OF assms(2) [unfolded closing_poll_def] assms(1)])
      (drule (1) on_plan_step, simp)+
  then show ?thesis
    by (auto simp: on_plan_def closing_plan_def)
qed

lemma on_plan_start:
  assumes "closing_ok cfg queued s" and "sock_write (cl_socket s) \<noteq> WPoisoned"
    and "cl_state s = ClosingStreamReceiver"
  shows "\<exists>items ch'. drains (e_ch env) cx (mx_close_all (e_ch env) (w_chan s)) items ch'
    \<and> on_plan cx (wire out s @ frames_bytes (command_frames items @ [frame_term])) s"
  using assms drains_total [of cx "mx_close_all (e_ch env) (w_chan s)"]
  by (auto simp: on_plan_def closing_plan_def closing_ok_def drain_plan_def)

end

subsection \<open>Leaving the active state keeps the world in order\<close>

lemma drop_arcs_ok:
  assumes "world_inv cfg (set as \<union> set (addresses s)) s"
  shows "\<exists>h acc. drop_arcs as s = Some (s\<lparr>w_heap := h, w_acc := acc\<rparr>)
    \<and> world_inv cfg (set (addresses s)) (s\<lparr>w_heap := h, w_acc := acc\<rparr>)
    \<and> (\<forall>a \<in> set (addresses s). cell a (s\<lparr>w_heap := h, w_acc := acc\<rparr>) = cell a s)"
  using assms
proof (induction as arbitrary: s)
  case Nil
  then show ?case
    by (auto intro!: exI [of _ "w_heap s"] exI [of _ "w_acc s"])
next
  case (Cons a as)
  from Cons.prems have "world_inv cfg (insert a (set (as @ addresses s))) s"
    by simp
  from world_inv_arc_drop [OF this] obtain h acc where
    d: "arc_drop a (as @ addresses s) s = Some (s\<lparr>w_heap := h, w_acc := acc\<rparr>)"
      "world_inv cfg (set (as @ addresses s)) (s\<lparr>w_heap := h, w_acc := acc\<rparr>)"
    and c: "\<forall>b. cell b (s\<lparr>w_heap := h, w_acc := acc\<rparr>) = (if b = a \<and> a \<notin> set (as @ addresses s) then None else cell b s)"
    by blast
  let ?s1 = "s\<lparr>w_heap := h, w_acc := acc\<rparr>"
  have "world_inv cfg (set as \<union> set (addresses ?s1)) ?s1"
    using d(2) by simp
  from Cons.IH [OF this] obtain h' acc' where
    "drop_arcs as ?s1 = Some (?s1\<lparr>w_heap := h', w_acc := acc'\<rparr>)"
    "world_inv cfg (set (addresses s)) (?s1\<lparr>w_heap := h', w_acc := acc'\<rparr>)"
    "\<forall>b \<in> set (addresses s). cell b (?s1\<lparr>w_heap := h', w_acc := acc'\<rparr>) = cell b ?s1"
    by auto
  moreover have "cell b ?s1 = cell b s" if "b \<in> set (addresses s)" for b
    using that c by auto
  ultimately show ?case
    using d(1) by (intro exI [of _ h'] exI [of _ acc']) simp
qed

text \<open>What closing a stream from the connection's side makes of its cell, and whom it wakes.\<close>

definition shut :: "shared \<Rightarrow> shared" where
  "shut sh = sh\<lparr>sh_state := Closed, sh_reader := None, sh_writer := None\<rparr>"

definition wakers_of :: "nat \<Rightarrow> ('io, 'ch) active \<Rightarrow> waker list" where
  "wakers_of a s =
     (case cell a s of None \<Rightarrow> [] | Some sh \<Rightarrow> option_list (sh_reader sh) @ option_list (sh_writer sh))"

lemma shut_fields [simp]:
  "sh_state (shut sh) = Closed" "sh_reader (shut sh) = None" "sh_writer (shut sh) = None"
  "sh_buffer (shut sh) = sh_buffer sh" "sh_flow (shut sh) = sh_flow sh"
  by (simp_all add: shut_def)

lemma close_and_wake:
  assumes "cell a s = Some sh"
  shows "do { (_, s) \<leftarrow> cell_update_state a Closed s; s \<leftarrow> wake_reader a s; s \<leftarrow> wake_writer a s; k s }
    = k ((put_cell a (shut sh) s)\<lparr>w_woken := w_woken s @ wakers_of a s\<rparr>)"
proof -
  have a: "a < length (w_heap s)"
    using assms by (simp add: cell_Some)
  have "next_state (sh_state sh) Closed = Closed"
    by (cases "sh_state sh") simp_all
  with assms a show ?thesis
    by (simp add: cell_update_state_def wake_reader_def wake_writer_def update_state_def cell_put_cell
        put_cell_def shut_def wakers_of_def wake_def option_list_def cell_def split: option.splits)
qed

lemma closed_top: "st \<le> Closed"
  using le_next_state [of Closed st] by (cases st) simp_all

lemma drain_streams_ok:
  assumes "world_inv cfg (set (map snd es) \<union> set (addresses s)) s" and "distinct (map snd es)"
  shows "\<exists>s'. drain_streams es s = Some s' \<and> world_inv cfg (set (addresses s)) s'
    \<and> evolves s s' \<and> w_woken s' = w_woken s @ concat (map (\<lambda>(_, a). wakers_of a s) es)
    \<and> (\<forall>a \<in> set (addresses s). cell a s' =
         (if a \<in> set (map snd es) then map_option shut (cell a s) else cell a s))"
  using assms
proof (induction es arbitrary: s)
  case Nil
  then show ?case by (auto intro: evolves_refl)
next
  case (Cons e es)
  obtain sid a where e: "e = (sid, a)"
    by (rule prod.exhaust)
  let ?R = "set (map snd (e # es)) \<union> set (addresses s)"
  obtain sh where sh: "cell a s = Some sh" "cell_ok cfg (rtt_get (w_rtt s)) sh"
    using world_inv_cell [OF Cons.prems(1), of a] by (auto simp: e)
  let ?s1 = "(put_cell a (shut sh) s)\<lparr>w_woken := w_woken s @ wakers_of a s\<rparr>"
  have "world_inv cfg ?R (put_cell a (shut sh) s)"
    using sh by (intro world_inv_put_same [OF Cons.prems(1) sh(1)]) (auto simp: cell_ok_def shut_def)
  then have "world_inv cfg (insert a (set (map snd es @ addresses s))) ?s1"
    by (simp add: e)
  from world_inv_arc_drop [OF this] obtain h acc where
    d: "arc_drop a (map snd es @ addresses s) ?s1 = Some (?s1\<lparr>w_heap := h, w_acc := acc\<rparr>)"
      "world_inv cfg (set (map snd es @ addresses s)) (?s1\<lparr>w_heap := h, w_acc := acc\<rparr>)"
    and c: "\<forall>b. cell b (?s1\<lparr>w_heap := h, w_acc := acc\<rparr>) =
        (if b = a \<and> a \<notin> set (map snd es @ addresses s) then None else cell b ?s1)"
    by blast
  let ?s2 = "?s1\<lparr>w_heap := h, w_acc := acc\<rparr>"
  have len: "a < length (w_heap s)"
    using sh(1) by (simp add: cell_Some)
  have a: "a \<notin> set (map snd es)"
    using Cons.prems(2) by (auto simp: e)
  have w: "wakers_of b ?s2 = wakers_of b s" if "b \<in> set (map snd es)" for b
    using that a c len by (auto simp: wakers_of_def cell_put_cell)
  have "world_inv cfg (set (map snd es) \<union> set (addresses ?s2)) ?s2" "distinct (map snd es)"
    using d(2) Cons.prems(2) by simp_all
  from Cons.IH [OF this] obtain s' where
    s': "drain_streams es ?s2 = Some s'" "world_inv cfg (set (addresses s)) s'" "evolves ?s2 s'"
      "w_woken s' = w_woken ?s2 @ concat (map (\<lambda>(_, a). wakers_of a ?s2) es)"
    and c': "\<forall>b \<in> set (addresses s). cell b s' =
        (if b \<in> set (map snd es) then map_option shut (cell b ?s2) else cell b ?s2)"
    by auto
  have "drain_streams (e # es) s = Some s'"
    unfolding e drain_streams.simps close_and_wake [OF sh(1)] using d(1) s'(1) by simp
  moreover have "concat (map (\<lambda>(_, a). wakers_of a ?s2) es) = concat (map (\<lambda>(_, a). wakers_of a s) es)"
    by (intro arg_cong [where f = concat] map_cong [OF refl]) (use w in force)
  then have "w_woken s' = w_woken s @ concat (map (\<lambda>(_, a). wakers_of a s) (e # es))"
    using s'(4) by (simp add: e)
  moreover have "evolves s ?s2"
    using c len sh(1) by (auto simp: evolves_def cell_put_cell closed_top split: if_splits)
  moreover have "cell b s' = (if b \<in> set (map snd (e # es)) then map_option shut (cell b s) else cell b s)"
    if "b \<in> set (addresses s)" for b
  proof -
    have "cell b ?s2 = (if b = a then Some (shut sh) else cell b s)"
      using that c len by (cases "b = a") (simp_all add: cell_put_cell)
    with bspec [OF c' that] a sh(1) show ?thesis
      by (cases "b = a") (simp_all add: e)
  qed
  ultimately show ?case
    using s'(2,3) by (intro exI [of _ s']) (blast intro: evolves_trans)
qed

lemma world_inv_truncate [simp]: "world_inv cfg refs (world.truncate s) = world_inv cfg refs s"
  by (simp add: world_inv_def world.defs)

lemma world_ok_truncate [simp]: "world_ok cfg as (world.truncate s) = world_ok cfg as s"
  by (simp add: world_ok_def) (simp add: world.defs)

lemma cell_truncate [simp]: "cell a (world.truncate s) = cell a s"
  by (simp add: cell_def world.defs)

lemma closing_new_fields [simp]:
  "world.truncate (closing_new w fs k) = world.truncate w" "w_chan (closing_new w fs k) = w_chan w"
  "cl_state (closing_new w fs k) = ClosingStreamReceiver" "cl_pending_frames (closing_new w fs k) = fs"
  "cl_socket (closing_new w fs k) = k" "cell a (closing_new w fs k) = cell a w"
  by (simp_all add: closing_new_def world.defs cell_def)

lemma cleanup_new_fields [simp]:
  "world.truncate (cleanup_new w e) = world.truncate w" "w_chan (cleanup_new w e) = w_chan w"
  "cu_state (cleanup_new w e) = CleanupClosingStreamReceiver" "cu_error (cleanup_new w e) = Some e"
  "cell a (cleanup_new w e) = cell a w" "w_woken (cleanup_new w e) = w_woken w"
  by (simp_all add: cleanup_new_def world.defs cell_def)

lemma world_ok_new [simp]:
  "world_ok cfg as (closing_new w fs k) = world_ok cfg as w" "world_ok cfg as (cleanup_new w e) = world_ok cfg as w"
  using world_ok_truncate [of cfg as "closing_new w fs k"] world_ok_truncate [of cfg as "cleanup_new w e"]
  by simp_all

lemma active_close_ok:
  assumes "active_ok queued s"
  shows "\<exists>t. active_close s = Some t \<and> closing_ok (a_config s) queued t
    \<and> cl_state t = ClosingStreamReceiver \<and> w_chan t = w_chan s \<and> cl_socket t = a_socket s
    \<and> cl_pending_frames t = option_list (a_pending_read_frame s) @ option_list (a_pending_write_frame s)
    \<and> w_woken t = w_woken s \<and> w_handles t = w_handles s
    \<and> (\<forall>a \<in> set (addresses s). cell a t = cell a s)"
proof -
  have w: "world_ok (a_config s) (held s) s"
    using assms by (simp add: active_ok_def core_ok_def)
  let ?w = "world.truncate s"
  have ad: "addresses ?w = addresses s"
    by (simp add: world.defs)
  have "world_inv (a_config s) (set (held s) \<union> set (addresses ?w)) ?w"
    using w by (simp add: world_ok_def ad)
  from drop_arcs_ok [OF this] obtain h acc where
    d: "drop_arcs (held s) ?w = Some (?w\<lparr>w_heap := h, w_acc := acc\<rparr>)"
      "world_inv (a_config s) (set (addresses s)) (?w\<lparr>w_heap := h, w_acc := acc\<rparr>)"
      "\<forall>a \<in> set (addresses s). cell a (?w\<lparr>w_heap := h, w_acc := acc\<rparr>) = cell a s"
    by (auto simp: ad)
  let ?w' = "?w\<lparr>w_heap := h, w_acc := acc\<rparr>"
  let ?fs = "option_list (a_pending_read_frame s) @ option_list (a_pending_write_frame s)"
  have "world_ok (a_config s) [] ?w'"
    using d(2) w ad by (simp add: world_ok_def)
  moreover have f: "w_chan ?w' = w_chan s" "w_woken ?w' = w_woken s" "w_handles ?w' = w_handles s"
    by (simp_all add: world.defs)
  moreover have "\<forall>f \<in> set ?fs. frame_ok f"
    using assms by (auto simp: active_ok_def io_ok_def option_list_def split: option.splits)
  ultimately have "closing_ok (a_config s) queued (closing_new ?w' ?fs (a_socket s))"
    using assms by (simp add: closing_ok_def active_ok_def io_ok_def)
  moreover have "w_woken (closing_new ?w' ?fs (a_socket s)) = w_woken s"
    "w_handles (closing_new ?w' ?fs (a_socket s)) = w_handles s"
    using f by (simp_all add: closing_new_def world.defs)
  ultimately show ?thesis
    using d(1,3) f by (auto simp: active_close_def)
qed

lemma active_cleanup_ok:
  assumes "core_ok s"
  shows "\<exists>t. active_cleanup s e = Some t \<and> cleanup_ok (a_config s) t \<and> cu_error t = Some e
    \<and> cu_state t = CleanupClosingStreamReceiver \<and> w_chan t = w_chan s \<and> w_handles t = w_handles s
    \<and> w_woken t = w_woken s @ concat (map (\<lambda>(_, a). wakers_of a s) (a_streams s))
    \<and> (\<forall>a \<in> set (addresses s). cell a t =
         (if a \<in> set (held s) then map_option shut (cell a s) else cell a s))"
proof -
  let ?s0 = "s\<lparr>a_streams := []\<rparr>"
  have w: "world_ok (a_config s) (held s) s" "distinct (held s)"
    using assms by (auto simp: core_ok_def map_ok_def)
  then have "world_inv (a_config s) (set (held s) \<union> set (addresses ?s0)) ?s0"
    by (simp add: world_ok_def)
  from drain_streams_ok [OF this w(2)] obtain s' where
    s': "drain_streams (a_streams s) ?s0 = Some s'" "world_inv (a_config s) (set (addresses s)) s'"
      "evolves ?s0 s'" "w_woken s' = w_woken s @ concat (map (\<lambda>(_, a). wakers_of a ?s0) (a_streams s))"
    and c: "\<forall>a \<in> set (addresses s). cell a s' =
        (if a \<in> set (held s) then map_option shut (cell a s) else cell a s)"
    by auto
  note f = evolves_fields(2,3) [OF s'(3)]
  have "world_ok (a_config s) [] s'"
    using s'(2) w(1) f by (simp add: world_ok_def)
  moreover have "wakers_of a ?s0 = wakers_of a s" for a
    by (simp add: wakers_of_def)
  moreover have "w_handles (cleanup_new s' e) = w_handles s"
    using f by (simp add: cleanup_new_def world.defs)
  ultimately show ?thesis
    using s'(1,4) c f
    by (auto simp: active_cleanup_def drop_all_streams_def cleanup_ok_def)
qed

end
