(* ===== verification/Closing_Run.thy ===== *)
theory Closing_Run
  imports Shutdown
begin

text \<open>
  Closing a connection from its start to its end: what the remote gets, that the close finishes when
  the transport makes progress, and what cleaning up after an error does to the streams.
\<close>

subsection \<open>Driving a close to its end\<close>

text \<open>A task that polls the future until it is ready, at most once for each waker.\<close>

fun closing_drive ::
    "('io, 'ch) env \<Rightarrow> waker list \<Rightarrow> ('io, 'ch) closing \<Rightarrow>
       ((unit, connection_error) result poll \<times> ('io, 'ch) closing) run" where
  "closing_drive env [] s = Some (Pending, s)"
| "closing_drive env (cx # cxs) s = do {
     (r, s) \<leftarrow> closing_poll env cx s;
     if r = Pending then closing_drive env cxs s else Some (r, s) }"

context duplex_env
begin

lemma on_plan_prefix: "on_plan cx bs s \<Longrightarrow> \<exists>rest. out (io_inner (cl_socket s)) @ rest = bs"
  by (auto simp: on_plan_def closing_plan_def drain_plan_def wire_def split: closing_state.splits)

lemma closing_drive_ok:
  assumes "closing_ok cfg queued s"
  shows "\<exists>r t. closing_drive env cxs s = Some (r, t) \<and> closing_ok cfg queued t \<and> same_world s t"
  using assms
proof (induction cxs arbitrary: s)
  case Nil
  then show ?case by (simp add: same_world_def world.defs)
next
  case (Cons cx cxs)
  from closing_poll_ok [OF Cons.prems, of cx] obtain r t where
    t: "closing_poll env cx s = Some (r, t)" "closing_ok cfg queued t" "same_world s t"
    by blast
  with Cons.IH [OF t(2)] show ?case
    by (auto intro: same_world_trans)
qed

lemma on_plan_drive:
  assumes "on_plan (hd (cxs @ [cx])) bs s" and "closing_drive env cxs s = Some (r, t)"
  shows "(\<exists>rest. out (io_inner (cl_socket t)) @ rest = bs)
    \<and> (r = Ready (Ok ()) \<longrightarrow> out (io_inner (cl_socket t)) = bs)"
  using assms
proof (induction cxs arbitrary: s)
  case Nil
  then show ?case by (auto dest: on_plan_prefix)
next
  case (Cons cx' cxs)
  from Cons.prems(2) obtain r1 s1 where p: "closing_poll env cx' s = Some (r1, s1)"
    and rest: "(if r1 = Pending then closing_drive env cxs s1 else Some (r1, s1)) = Some (r, t)"
    by (auto simp: bind_eq_Some_conv)
  note pl = on_plan_poll [OF _ p, of bs]
  show ?case
  proof (cases "r1 = Pending")
    case True
    with Cons.IH [of s1] Cons.prems(1) pl rest show ?thesis by simp
  next
    case False
    with Cons.prems(1) pl [of cx'] rest show ?thesis
      by (auto dest: on_plan_prefix)
  qed
qed

end

subsection \<open>A transport that makes progress\<close>

text \<open>
  \<open>stalls io\<close> bounds how often the transport still answers \<open>Pending\<close> to a write or a close; it
  reports no error and takes at least one byte otherwise.
\<close>

locale fair_sink = byte_sink ops out
  for ops :: "'io io_ops" and out :: "'io \<Rightarrow> bytes" +
  fixes stalls :: "'io \<Rightarrow> nat"
  assumes write_fair: "op_poll_write ops bs io = (r, io') \<Longrightarrow> bs \<noteq> [] \<Longrightarrow>
      (case r of Pending \<Rightarrow> stalls io' < stalls io | Ready (Ok n) \<Rightarrow> 0 < n \<and> stalls io' \<le> stalls io
       | Ready (Err _) \<Rightarrow> False)"
    and close_fair: "op_poll_close ops io = (c, io') \<Longrightarrow>
      (case c of Pending \<Rightarrow> stalls io' < stalls io | Ready (Ok _) \<Rightarrow> True | Ready (Err _) \<Rightarrow> False)"
begin

definition writable :: "'io sock \<Rightarrow> bool" where
  "writable k \<longleftrightarrow> wstate_ok (sock_write k) \<and> sock_write k \<noteq> WPoisoned"

text \<open>Either blocked, with one stall less to come, or done.\<close>

definition progress :: "'io sock \<Rightarrow> (unit, io_error) result poll \<Rightarrow> 'io sock \<Rightarrow> bool" where
  "progress k r l \<longleftrightarrow> writable l \<and> (case r of
     Pending \<Rightarrow> stalls (io_inner l) < stalls (io_inner k)
   | Ready (Ok _) \<Rightarrow> stalls (io_inner l) \<le> stalls (io_inner k)
   | Ready (Err _) \<Rightarrow> False)"

lemma write_step_fair:
  assumes "writable k" and "write_step ops k = Some y"
  shows "case y of Return r l \<Rightarrow> progress k r l
    | Continue l \<Rightarrow> writable l \<and> stalls (io_inner l) \<le> stalls (io_inner k)"
proof (cases "sock_write k")
  case (WHeader header buffer offset)
  obtain r io where "op_poll_write ops (drop offset header) (io_inner k) = (r, io)"
    by (rule prod.exhaust)
  with WHeader assms write_fair [of "drop offset header" "io_inner k" r io]
    write_ok [of "drop offset header" "io_inner k" _ io] show ?thesis
    by (auto simp: write_step_def writable_def progress_def uadd_def split: poll.splits result.splits if_splits)
next
  case (WBody buffer offset)
  obtain r io where "op_poll_write ops (drop offset buffer) (io_inner k) = (r, io)"
    by (rule prod.exhaust)
  with WBody assms write_fair [of "drop offset buffer" "io_inner k" r io]
    write_ok [of "drop offset buffer" "io_inner k" _ io] show ?thesis
    by (auto simp: write_step_def writable_def progress_def uadd_def split: poll.splits result.splits if_splits)
qed (use assms in \<open>auto simp: write_step_def writable_def progress_def\<close>)

lemma poll_ready_fair:
  assumes "writable k" and "io_poll_ready ops k = Some (r, l)"
  shows "progress k r l"
proof (rule run_loop_rule [where I = "\<lambda>l. writable l \<and> stalls (io_inner l) \<le> stalls (io_inner k)",
      OF assms(2) [unfolded io_poll_ready_def]])
  fix m r l
  assume m: "writable m \<and> stalls (io_inner m) \<le> stalls (io_inner k)" "write_step ops m = Some (Return r l)"
  with write_step_fair [of m] show "progress k r l"
    by (auto simp: progress_def split: poll.splits result.splits)
qed (use assms(1) write_step_fair in fastforce)+

lemma poll_close_fair:
  assumes "writable k" and "io_poll_close ops k = Some (r, l)"
  shows "writable l \<and> (case r of Pending \<Rightarrow> stalls (io_inner l) < stalls (io_inner k)
    | Ready (Ok _) \<Rightarrow> True | Ready (Err _) \<Rightarrow> False)"
proof -
  from assms(2) obtain r1 l1 where l1: "io_poll_ready ops k = Some (r1, l1)"
    by (auto simp: io_poll_close_def bind_eq_Some_conv)
  obtain c io where "op_poll_close ops (io_inner l1) = (c, io)"
    by (rule prod.exhaust)
  with poll_ready_fair [OF assms(1) l1] l1 assms(2) close_fair [of "io_inner l1" c io] show ?thesis
    by (auto simp: io_poll_close_def progress_def writable_def split: poll.splits result.splits)
qed

end

locale fair_env = duplex_env + fair: fair_sink "e_io env" out stalls
  for stalls
begin

definition closing_progress ::
    "('a, 'b) closing \<Rightarrow> (unit, connection_error) result poll \<Rightarrow> ('a, 'b) closing \<Rightarrow> bool" where
  "closing_progress s r t \<longleftrightarrow> fair.writable (cl_socket t) \<and>
     (r = Ready (Ok ()) \<or> r = Pending \<and> stalls (io_inner (cl_socket t)) < stalls (io_inner (cl_socket s)))"

lemma closing_step_fair:
  assumes "fair.writable (cl_socket s)" and "\<forall>f \<in> set (cl_pending_frames s). frame_ok f"
    and "closing_step env cx s = Some y"
  shows "case y of Return r t \<Rightarrow> closing_progress s r t
    | Continue t \<Rightarrow> fair.writable (cl_socket t)
        \<and> stalls (io_inner (cl_socket t)) \<le> stalls (io_inner (cl_socket s))"
proof (cases "cl_state s")
  case ClosingStreamReceiver
  with assms show ?thesis by (auto simp: closing_step_def)
next
  case DrainingStreamReceiver
  with assms show ?thesis
    by (auto simp: closing_step_def split: prod.splits poll.splits option.splits stream_command.splits)
next
  case FlushingPendingFrames
  from assms(3) FlushingPendingFrames obtain r l where l: "io_poll_ready (e_io env) (cl_socket s) = Some (r, l)"
    by (auto simp: closing_step_def bind_eq_Some_conv)
  have w: "fair.writable (io_start_send f l)" if "frame_ok f" for f
    using wstate_ok_start_send [OF that, of l] by (simp add: fair.writable_def io_start_send_def)
  show ?thesis
    using fair.poll_ready_fair [OF assms(1) l] assms(2,3) FlushingPendingFrames l w
    by (auto simp: closing_step_def fair.progress_def closing_progress_def start_send_fields Let_def
        split: poll.splits result.splits list.splits)
next
  case ClosingSocket
  from assms(3) ClosingSocket obtain r l where l: "io_poll_close (e_io env) (cl_socket s) = Some (r, l)"
    by (auto simp: closing_step_def bind_eq_Some_conv)
  show ?thesis
    using fair.poll_close_fair [OF assms(1) l] assms(3) ClosingSocket l
    by (auto simp: closing_step_def closing_progress_def Let_def split: poll.splits result.splits)
qed

lemma closing_poll_fair:
  assumes "closing_ok cfg queued s" and "fair.writable (cl_socket s)" and "closing_poll env cx s = Some (r, t)"
  shows "closing_progress s r t"
proof (rule run_loop_rule [where I = "\<lambda>t. closing_ok cfg queued t \<and> fair.writable (cl_socket t)
      \<and> stalls (io_inner (cl_socket t)) \<le> stalls (io_inner (cl_socket s))",
      OF assms(3) [unfolded closing_poll_def]])
  fix m :: "('a, 'b) closing" and u
  assume m: "closing_ok cfg queued m \<and> fair.writable (cl_socket m)
      \<and> stalls (io_inner (cl_socket m)) \<le> stalls (io_inner (cl_socket s))"
    and u: "closing_step env cx m = Some (Continue u)"
  have "closing_ok cfg queued u"
    using closing_step_ok [of cfg m cx] m u by (auto simp: closing_round_def)
  moreover have "\<forall>f \<in> set (cl_pending_frames m). frame_ok f"
    using m by (simp add: closing_ok_def)
  ultimately show "closing_ok cfg queued u \<and> fair.writable (cl_socket u)
      \<and> stalls (io_inner (cl_socket u)) \<le> stalls (io_inner (cl_socket s))"
    using closing_step_fair [of m cx, OF _ _ u] m by auto
next
  fix m :: "('a, 'b) closing" and r u
  assume m: "closing_ok cfg queued m \<and> fair.writable (cl_socket m)
      \<and> stalls (io_inner (cl_socket m)) \<le> stalls (io_inner (cl_socket s))"
    and u: "closing_step env cx m = Some (Return r u)"
  have "\<forall>f \<in> set (cl_pending_frames m). frame_ok f"
    using m by (simp add: closing_ok_def)
  with closing_step_fair [of m cx, OF _ _ u] m show "closing_progress s r u"
    by (auto simp: closing_progress_def)
qed (use assms in simp)

lemma closing_drive_fair:
  assumes "closing_ok cfg queued s" and "fair.writable (cl_socket s)"
    and "stalls (io_inner (cl_socket s)) < length cxs"
  shows "\<exists>t. closing_drive env cxs s = Some (Ready (Ok ()), t)"
  using assms
proof (induction cxs arbitrary: s)
  case (Cons cx cxs)
  obtain r t where t: "closing_poll env cx s = Some (r, t)" "closing_ok cfg queued t"
    using closing_poll_ok [OF Cons.prems(1), of cx] by blast
  from closing_poll_fair [OF Cons.prems(1,2) t(1)] Cons.IH [OF t(2)] Cons.prems(3) t(1) show ?case
    by (auto simp: closing_progress_def)
qed simp

end

subsection \<open>A slow transport\<close>

text \<open>The pipe, which is not ready for the first \<open>sl_stalls\<close> writes and closes.\<close>

record slow =
  sl_pipe :: pipe
  sl_stalls :: nat

definition slow_ops :: "nat \<Rightarrow> slow io_ops" where
  "slow_ops k =
     \<lparr>op_poll_read = (\<lambda>n s. let (r, p) = op_poll_read (pipe_ops k) n (sl_pipe s) in (r, s\<lparr>sl_pipe := p\<rparr>)),
      op_poll_write = (\<lambda>bs s. if 0 < sl_stalls s then (Pending, s\<lparr>sl_stalls := sl_stalls s - 1\<rparr>)
        else let (r, p) = op_poll_write (pipe_ops k) bs (sl_pipe s) in (r, s\<lparr>sl_pipe := p\<rparr>)),
      op_poll_flush = (\<lambda>s. (Ready (Ok ()), s)),
      op_poll_close = (\<lambda>s. if 0 < sl_stalls s then (Pending, s\<lparr>sl_stalls := sl_stalls s - 1\<rparr>)
        else (Ready (Ok ()), s))\<rparr>"

definition slow_env :: "(slow, chans) env" where
  "slow_env = \<lparr>e_io = slow_ops 5, e_ch = list_mux, e_clock = id\<rparr>"

abbreviation slow_out :: "slow \<Rightarrow> bytes" where
  "slow_out s \<equiv> pipe_out (sl_pipe s)"

abbreviation slow_in :: "slow \<Rightarrow> bytes" where
  "slow_in s \<equiv> pipe_in (sl_pipe s)"

lemma slow_sink: "byte_sink (slow_ops k) slow_out"
  by unfold_locales (auto simp: slow_ops_def pipe_ops_def min_def split: if_splits)

lemma slow_source: "0 < k \<Longrightarrow> byte_source (slow_ops k) slow_in"
  by unfold_locales (auto simp: slow_ops_def pipe_ops_def min_def split: if_splits)

lemma slow_fair: "0 < k \<Longrightarrow> fair_sink (slow_ops k) slow_out sl_stalls"
  by (intro fair_sink.intro slow_sink) (unfold_locales, auto simp: slow_ops_def pipe_ops_def split: if_splits)

interpretation slow: duplex_env slow_env slow_out slow_in chans_queued chans_ends
  unfolding duplex_env_def conn_env_def slow_env_def env.simps
  by (intro conjI slow_sink slow_source list_mux.command_mux_axioms)
    (unfold_locales, simp_all add: slow_ops_def pipe_ops_def)

interpretation slow: fair_env slow_env slow_out slow_in chans_queued chans_ends sl_stalls
  by (intro fair_env.intro slow.duplex_env_axioms) (simp add: slow_env_def slow_fair)

subsection \<open>Properties\<close>

text \<open>What \<open>close\<close> still has to send of an active connection, the commands \<open>items\<close> included.\<close>

definition farewell ::
    "('io \<Rightarrow> bytes) \<Rightarrow> ('io, 'ch) active \<Rightarrow> (u32 \<times> stream_command option) list \<Rightarrow> bytes" where
  "farewell out s items =
     out (io_inner (a_socket s)) @ unsent (sock_write (a_socket s))
       @ frames_bytes (option_list (a_pending_read_frame s) @ option_list (a_pending_write_frame s)
           @ command_frames items @ [frame_term])"

lemma closing_start:
  assumes "duplex_env env out inp queued ends" and "active_ok queued s"
    and "sock_write (a_socket s) \<noteq> WPoisoned"
  shows "\<exists>t items ch'. active_close s = Some t \<and> closing_ok (a_config s) queued t
    \<and> cl_socket t = a_socket s
    \<and> drains (e_ch env) cx (mx_close_all (e_ch env) (w_chan s)) items ch'
    \<and> duplex_env.on_plan env out queued cx (farewell out s items) t"
proof -
  obtain t where t: "active_close s = Some t" "closing_ok (a_config s) queued t"
    "cl_state t = ClosingStreamReceiver" "w_chan t = w_chan s" "cl_socket t = a_socket s"
    "cl_pending_frames t = option_list (a_pending_read_frame s) @ option_list (a_pending_write_frame s)"
    using active_close_ok [OF assms(2)] by blast
  have "sock_write (cl_socket t) \<noteq> WPoisoned"
    using assms(3) t(5) by simp
  from duplex_env.on_plan_start [OF assms(1) t(2) this t(3), of cx] obtain items ch' where
    "drains (e_ch env) cx (mx_close_all (e_ch env) (w_chan t)) items ch'"
    "duplex_env.on_plan env out queued cx (wire out t @ frames_bytes (command_frames items @ [frame_term])) t"
    by blast
  moreover have "wire out t @ frames_bytes (command_frames items @ [frame_term]) = farewell out s items"
    using t(5,6) by (simp add: wire_def farewell_def)
  ultimately show ?thesis
    using t by auto
qed

text \<open>
  C11: A graceful close loses nothing and ends with a \<open>GoAway\<close>. However often the future is polled
  and however the transport splits and delays the writes, what the transport has accepted is always
  a prefix of: what was sent before, the rest of the frame being written, the pending frames, one
  frame for every command the streams had queued, and the final frame; and when the future is ready,
  it is all of it. The commands are \<open>items\<close>, what the closed receivers yield one after
  another when they are polled until they have no more, in this order and each with the id of its stream,
  and they are all that was queued.
\<close>

theorem closing_delivers:
  assumes "duplex_env env out inp queued ends" and "closing_mux (e_ch env) queued ends all_closed"
    and "active_ok queued s" and "sock_write (a_socket s) \<noteq> WPoisoned"
  shows "\<exists>t items ch'. active_close s = Some t \<and> mset (commands_of items) = queued (w_chan s)
    \<and> drains (e_ch env) cx (mx_close_all (e_ch env) (w_chan s)) items ch'
    \<and> (\<forall>cxs. \<exists>r u. closing_drive env (cx # cxs) t = Some (r, u)
         \<and> (\<exists>rest. out (io_inner (cl_socket u)) @ rest = farewell out s items)
         \<and> (r = Ready (Ok ()) \<longrightarrow> out (io_inner (cl_socket u)) = farewell out s items))"
proof -
  from closing_start [OF assms(1,3,4), of cx] obtain t items ch' where
    t: "active_close s = Some t" "closing_ok (a_config s) queued t"
      "drains (e_ch env) cx (mx_close_all (e_ch env) (w_chan s)) items ch'"
      "duplex_env.on_plan env out queued cx (farewell out s items) t"
    by blast
  have "mset (commands_of items) = queued (mx_close_all (e_ch env) (w_chan s))"
    using closing_mux.drains_all [OF assms(2) t(3)] closing_mux.close_all [OF assms(2)] by blast
  also have "\<dots> = queued (w_chan s)"
    using command_mux.close_queued [OF closing_mux.axioms(1) [OF assms(2)]] by blast
  finally have "mset (commands_of items) = queued (w_chan s)" .
  moreover have "\<exists>r u. closing_drive env (cx # cxs) t = Some (r, u)
         \<and> (\<exists>rest. out (io_inner (cl_socket u)) @ rest = farewell out s items)
         \<and> (r = Ready (Ok ()) \<longrightarrow> out (io_inner (cl_socket u)) = farewell out s items)" for cxs
    using duplex_env.closing_drive_ok [OF assms(1) t(2), of "cx # cxs"]
      duplex_env.on_plan_drive [OF assms(1), of "cx # cxs"] t(4) by fastforce
  ultimately show ?thesis
    using t(1,3) by blast
qed

text \<open>
  C12: A graceful close finishes. If the transport reports no error and answers \<open>Pending\<close> at most
  \<open>stalls\<close> times in all, the close has succeeded after at most \<open>stalls + 1\<close> polls.
\<close>

theorem closing_finishes:
  assumes "fair_env env out inp queued ends stalls" and "active_ok queued s"
    and "sock_write (a_socket s) \<noteq> WPoisoned" and "stalls (io_inner (a_socket s)) < length cxs"
  shows "\<exists>t u. active_close s = Some t \<and> closing_drive env cxs t = Some (Ready (Ok ()), u)"
proof -
  have d: "duplex_env env out inp queued ends"
    using assms(1) by (rule fair_env.axioms(1))
  from closing_start [OF d assms(2,3)] obtain t where
    t: "active_close s = Some t" "closing_ok (a_config s) queued t" "cl_socket t = a_socket s"
    by blast
  moreover have "fair_sink.writable (cl_socket t)"
    using t assms(3) by (simp add: fair_sink.writable_def [OF fair_env.axioms(2) [OF assms(1)]] closing_ok_def)
  ultimately show ?thesis
    using fair_env.closing_drive_fair [OF assms(1) t(2)] assms(4) by fastforce
qed

text \<open>
  C33: Cleaning up after an error closes and wakes everyone. Every stream of the connection that is
  still in use is closed for reading and writing but keeps the data it has buffered, every task
  registered in the cell of one of them is woken, in the order of the map, and the cleanup future is ready at its
  first poll, with the very error, whatever is queued.
\<close>

theorem cleanup_closes_and_wakes:
  assumes "duplex_env env out inp queued ends" and "active_ok queued s"
  shows "\<exists>t u. active_cleanup s e = Some t \<and> cleanup_poll env cx t = Some (Ready e, u)
    \<and> w_woken u = w_woken s @ concat (map (\<lambda>(_, a). wakers_of a s) (a_streams s))
    \<and> (\<forall>a sh. a \<in> set (held s) \<longrightarrow> a \<in> set (addresses s) \<longrightarrow> cell a s = Some sh \<longrightarrow>
         cell a u = Some (sh\<lparr>sh_state := Closed, sh_reader := None, sh_writer := None\<rparr>))"
proof -
  have "core_ok s"
    using assms(2) by (simp add: active_ok_def)
  from active_cleanup_ok [OF this, of e] obtain t where
    t: "active_cleanup s e = Some t" "cleanup_ok (a_config s) t" "cu_error t = Some e"
      "w_woken t = w_woken s @ concat (map (\<lambda>(_, a). wakers_of a s) (a_streams s))"
      "\<forall>a \<in> set (addresses s). cell a t = (if a \<in> set (held s) then map_option shut (cell a s) else cell a s)"
    by blast
  from duplex_env.cleanup_poll_ok [OF assms(1) t(2), of cx] obtain u where
    u: "cleanup_poll env cx t = Some (Ready e, u)" "same_world t u"
    using t(3) by auto
  have "w_woken u = w_woken t" "cell a u = cell a t" for a
    using u(2) by (auto simp: same_world_def cell_def world.defs)
  moreover have "cell a t = Some (shut sh)"
    if "a \<in> set (held s)" "a \<in> set (addresses s)" "cell a s = Some sh" for a sh
    using bspec [OF t(5) that(2)] that by simp
  ultimately show ?thesis
    using t(1,4) u(1) unfolding shut_def by (intro exI [of _ t] exI [of _ u]) simp
qed

text \<open>A connection on the slow transport, with a command waiting, for the witnesses.\<close>

definition slow_conn :: "(slow, chans) active" where
  "slow_conn = (active_new \<lparr>sl_pipe = \<lparr>pipe_in = [], pipe_out = []\<rparr>, sl_stalls = 3\<rparr> no_channels 0 default_config Client)
     \<lparr>w_chan := \<lparr>cs_rx = [tagged_new 1 \<lparr>rc_queue = [CloseStream False], rc_senders = [0], rc_closed = False\<rparr>],
                cs_next = 1\<rparr>\<rparr>"

lemma slow_conn_ok: "active_ok chans_queued slow_conn"
proof -
  have "chans_queued no_channels = {#}"
    by (simp add: no_channels_def)
  from active_new_ok [where queued = chans_queued and now = 0 and mode = Client
      and io = "\<lparr>sl_pipe = \<lparr>pipe_in = [], pipe_out = []\<rparr>, sl_stalls = 3\<rparr>", OF config_ok_default this]
  show ?thesis
    by (simp add: slow_conn_def active_ok_def io_ok_def tagged_new_def)
qed

lemma slow_conn_fields:
  "sock_write (a_socket slow_conn) \<noteq> WPoisoned" "sl_stalls (io_inner (a_socket slow_conn)) = 3"
  "chans_queued (w_chan slow_conn) = {#CloseStream False#}"
  by (simp_all add: slow_conn_def active_new_def io_new_def tagged_new_def)

theorem closing_delivers_witness:
  "\<exists>t items. active_close slow_conn = Some t \<and> mset (commands_of items) = {#CloseStream False#}
    \<and> (\<exists>r u. closing_drive slow_env [4, 5] t = Some (r, u)
         \<and> (\<exists>rest. slow_out (io_inner (cl_socket u)) @ rest = farewell slow_out slow_conn items))"
proof -
  have m: "closing_mux (e_ch slow_env) chans_queued chans_ends (\<lambda>s. rx_closed (cs_rx s))"
    by (simp add: slow_env_def list_mux.closing_mux_axioms)
  from closing_delivers [OF slow.duplex_env_axioms m slow_conn_ok slow_conn_fields(1), of 4]
  show ?thesis
    unfolding slow_conn_fields(3) by blast
qed

theorem closing_finishes_witness:
  "\<exists>t u. active_close slow_conn = Some t \<and> closing_drive slow_env [4, 5, 6, 7] t = Some (Ready (Ok ()), u)"
  using closing_finishes [OF slow.fair_env_axioms slow_conn_ok slow_conn_fields(1), of "[4, 5, 6, 7]"]
  by (simp add: slow_conn_fields)

theorem cleanup_closes_and_wakes_witness:
  "\<exists>(s :: (pipe, chans) active) sh t u. a_streams s \<noteq> [] \<and> active_cleanup s NoMoreStreamIds = Some t
    \<and> cleanup_poll test_env 3 t = Some (Ready NoMoreStreamIds, u)
    \<and> cell (snd (hd (a_streams s))) u = Some sh \<and> sh_state sh = Closed"
proof -
  obtain st and s :: "(pipe, chans) active" and sh where s: "active_ok chans_queued s" "w_handles s = [st]"
    "a_streams s = [(1, stm_shared st)]" "cell (stm_shared st) s = Some sh"
    using test_opened_ok [of "[]"] by blast
  from cleanup_closes_and_wakes [OF test.duplex_env_axioms s(1), of NoMoreStreamIds 3] s(2-) show ?thesis
    by (intro exI [of _ s]) fastforce
qed

end
