(* ===== verification/Frame_Handling.thy ===== *)
theory Frame_Handling
  imports Active_Props
begin

text \<open>
  What the connection does with each kind of frame, in full: data for a stream, a reset, frames for
  streams it does not know, violations of the protocol, pings, and the end of a stream handle.
\<close>

lemma wake_reader_eq:
  "cell a s = Some sh \<Longrightarrow> wake_reader a s = Some ((put_cell a (sh\<lparr>sh_reader := None\<rparr>) s)
     \<lparr>w_woken := wake (sh_reader sh) (w_woken s)\<rparr>)"
  by (simp add: wake_reader_def)

lemma wake_writer_eq:
  "cell a s = Some sh \<Longrightarrow> wake_writer a s = Some ((put_cell a (sh\<lparr>sh_writer := None\<rparr>) s)
     \<lparr>w_woken := wake (sh_writer sh) (w_woken s)\<rparr>)"
  by (simp add: wake_writer_def)

lemma put_put_cell [simp]: "put_cell a sh' (put_cell a sh s) = put_cell a sh' s"
  by (simp add: put_cell_def)

lemma put_cell_woken [simp]: "put_cell a sh (s\<lparr>w_woken := w\<rparr>) = (put_cell a sh s)\<lparr>w_woken := w\<rparr>"
  by (simp add: put_cell_def)

lemma put_cell_active_fields [simp]:
  "a_streams (put_cell a sh s) = a_streams s" "a_mode (put_cell a sh s) = a_mode s"
  "a_config (put_cell a sh s) = a_config s" "a_socket (put_cell a sh s) = a_socket s"
  "a_next_id (put_cell a sh s) = a_next_id s"
  by (simp_all add: put_cell_def)

text \<open>Removing an entry whose stream the user still holds leaves its cell alone.\<close>

lemma streams_remove_keep:
  assumes "streams_get sid s = Some a" and "a \<in> set (addresses s)"
  shows "streams_remove sid s = Some (s\<lparr>a_streams := AList.delete sid (a_streams s)\<rparr>)"
  using assms by (simp add: streams_remove_def arc_drop_def Let_def)

text \<open>The stream's cell after a data frame has been taken in.\<close>

definition received :: "frame \<Rightarrow> shared \<Rightarrow> shared \<Rightarrow> bool" where
  "received f sh sh' \<longleftrightarrow>
     chunks_bytes (sh_buffer sh') = chunks_bytes (sh_buffer sh) @ fr_body f
     \<and> unat (fc_receive_window (sh_flow sh')) + length (fr_body f) = unat (fc_receive_window (sh_flow sh))
     \<and> send_window sh' = send_window sh
     \<and> sh_state sh' = (if flags_contains (hdr_flags (fr_header f)) FIN
          then next_state (sh_state sh) RecvClosed else sh_state sh)
     \<and> sh_reader sh' = None \<and> sh_writer sh' = sh_writer sh"

lemma shared_ok_held:
  assumes "core_ok s" and "streams_get sid s = Some a" and "cell a s = Some sh"
  shows "shared_ok (rtt_get (w_rtt s)) sh"
  using core_ok_cell [OF assms(1), of a] held_get [OF assms(2)] assms(3) by (auto simp: cell_ok_def)

lemma on_data_delivers:
  assumes ok: "core_ok s" and body: "length (fr_body f) < 2 ^ 32"
    and fl: "\<not> flags_contains (hdr_flags (fr_header f)) RST" "\<not> flags_contains (hdr_flags (fr_header f)) SYN"
    and get: "streams_get (hdr_stream_id (fr_header f)) s = Some a" and user: "a \<in> set (addresses s)"
    and sh: "cell a s = Some sh"
    and fits: "length (fr_body f) \<le> unat (fc_receive_window (sh_flow sh))"
  shows "\<exists>s' sh'. on_data env f s = Some (ActNone, s') \<and> cell a s' = Some sh' \<and> received f sh sh'
    \<and> w_woken s' = wake (sh_reader sh) (w_woken s)
    \<and> (\<forall>b. b \<noteq> a \<longrightarrow> cell b s' = cell b s)
    \<and> a_streams s' = (if flags_contains (hdr_flags (fr_header f)) FIN \<and> sh_state sh' = Closed
         then AList.delete (hdr_stream_id (fr_header f)) (a_streams s) else a_streams s)"
proof -
  let ?sid = "hdr_stream_id (fr_header f)"
  let ?fin = "flags_contains (hdr_flags (fr_header f)) FIN"
  have sok: "shared_ok (rtt_get (w_rtt s)) sh"
    using shared_ok_held [OF ok get sh] .
  obtain sh1 where sh1: "consume_receive_window (frame_body_len f) sh = Ok sh1"
    using fits unat_frame_body_len [OF body]
    by (auto simp: consume_receive_window_def fc_consume_receive_window_def checked_sub_def word_le_nat_alt)
  from receive_data_ok [OF sok body sh1] obtain buf fc where
    buf: "chunks_push (fr_body f) (sh_buffer sh) = Some buf"
      "chunks_bytes buf = chunks_bytes (sh_buffer sh) @ fr_body f" "sh1 = sh\<lparr>sh_flow := fc\<rparr>"
      "fc = (sh_flow sh)\<lparr>fc_receive_window := fc_receive_window fc\<rparr>"
      "unat (fc_receive_window fc) + length (fr_body f) = unat (fc_receive_window (sh_flow sh))"
    by blast
  have sw: "fc_send_window fc = fc_send_window (sh_flow sh)"
    by (subst buf(4)) simp
  have len: "a < length (w_heap s)"
    using sh by (simp add: cell_Some)
  define st where "st = (if ?fin then next_state (sh_state sh) RecvClosed else sh_state sh)"
  let ?sh3 = "sh\<lparr>sh_flow := fc, sh_state := st, sh_buffer := buf\<rparr>"
  let ?sh' = "?sh3\<lparr>sh_reader := None\<rparr>"
  let ?s1 = "(put_cell a ?sh' s)\<lparr>w_woken := wake (sh_reader sh) (w_woken s)\<rparr>"
  have sh2: "(if ?fin then snd (update_state RecvClosed sh1) else sh1) = sh\<lparr>sh_flow := fc, sh_state := st\<rparr>"
    by (simp add: st_def buf(3) update_state_def)
  have "wake_reader a (put_cell a ?sh3 s) = Some ?s1"
    using len by (simp add: wake_reader_eq [of a _ ?sh3] cell_put_cell)
  moreover define c where "c \<longleftrightarrow> ?fin \<and> st = Closed"
  ultimately have "on_data env f s = do {
      s \<leftarrow> (if c then streams_remove ?sid ?s1 else Some ?s1); Some (ActNone, s) }"
    using fl get sh sh1 buf(1) by (simp add: on_data_def Let_def sh2 del: if_split)
  moreover have "streams_remove ?sid ?s1 = Some (?s1\<lparr>a_streams := AList.delete ?sid (a_streams s)\<rparr>)"
    using streams_remove_keep [of ?sid ?s1 a] get user by (simp add: streams_get_def)
  moreover have "received f sh ?sh'"
    using buf sw by (simp add: received_def st_def send_window_def)
  moreover have "cell a ?s1 = Some ?sh'" "\<forall>b. b \<noteq> a \<longrightarrow> cell b ?s1 = cell b s"
    using len by (simp_all add: cell_put_cell)
  moreover have "(?fin \<and> sh_state ?sh' = Closed) = c"
    by (simp add: c_def)
  ultimately show ?thesis
    by (intro exI [of _ "if c then ?s1\<lparr>a_streams := AList.delete ?sid (a_streams s)\<rparr> else ?s1"]
        exI [of _ ?sh']) (cases c; auto)
qed

lemma on_data_overrun:
  assumes "length (fr_body f) < 2 ^ 32" and "\<not> flags_contains (hdr_flags (fr_header f)) RST"
    and "\<not> flags_contains (hdr_flags (fr_header f)) SYN"
    and "streams_get (hdr_stream_id (fr_header f)) s = Some a" and "cell a s = Some sh"
    and "unat (fc_receive_window (sh_flow sh)) < length (fr_body f)"
  shows "on_data env f s = Some (ActTerminate frame_protocol_error, s)"
  using assms unat_frame_body_len [OF assms(1)]
  by (simp add: on_data_def Let_def consume_receive_window_def fc_consume_receive_window_def
      checked_sub_def word_le_nat_alt)

text \<open>A well-formed frame without \<open>ACK\<close> for a known stream goes straight to its handler.\<close>

lemma on_frame_data:
  assumes "hdr_tag (fr_header f) = Data" and "\<not> flags_contains (hdr_flags (fr_header f)) ACK"
    and "contains_key (hdr_stream_id (fr_header f)) s"
  shows "on_frame env f s = do { (act, s) \<leftarrow> on_data env f s; Some (Ok act, s) }"
  using assms by (simp add: on_frame_def Let_def)

lemma body_bound: "frame_ok f \<Longrightarrow> length (fr_body f) < 2 ^ 32"
  using unat_u32_bound [of "hdr_length (fr_header f)"] by (auto simp: frame_ok_def split: if_splits)

text \<open>
  C22: Received data reaches its stream, exactly and within the window. A data frame without \<open>SYN\<close>, \<open>RST\<close> and \<open>ACK\<close>
  for a stream the user holds is appended byte for byte to that stream's buffer, its receive window shrinks by exactly the
  length of the body, its reader is woken, a \<open>FIN\<close> closes the reading side, and no other stream is
  touched; the stream leaves the map only when both sides have closed it. If the body exceeds the
  window, nothing changes and the connection answers with a protocol error.
\<close>

theorem data_delivered:
  assumes "active_ok queued s" and "frame_ok f" and "hdr_tag (fr_header f) = Data"
    and "\<not> flags_contains (hdr_flags (fr_header f)) RST" and "\<not> flags_contains (hdr_flags (fr_header f)) SYN"
    and "\<not> flags_contains (hdr_flags (fr_header f)) ACK"
    and "streams_get (hdr_stream_id (fr_header f)) s = Some a" and "a \<in> set (addresses s)"
    and "cell a s = Some sh"
  shows "if length (fr_body f) \<le> unat (fc_receive_window (sh_flow sh)) then
      \<exists>s' sh'. on_frame env f s = Some (Ok ActNone, s') \<and> cell a s' = Some sh' \<and> received f sh sh'
        \<and> w_woken s' = wake (sh_reader sh) (w_woken s)
        \<and> (\<forall>b. b \<noteq> a \<longrightarrow> cell b s' = cell b s)
        \<and> a_streams s' = (if flags_contains (hdr_flags (fr_header f)) FIN \<and> sh_state sh' = Closed
             then AList.delete (hdr_stream_id (fr_header f)) (a_streams s) else a_streams s)
    else on_frame env f s = Some (Ok (ActTerminate frame_protocol_error), s)"
proof -
  have ok: "core_ok s"
    using assms(1) by (simp add: active_ok_def)
  have key: "contains_key (hdr_stream_id (fr_header f)) s"
    using assms(7) by (simp add: contains_key_def)
  show ?thesis
  proof (cases "length (fr_body f) \<le> unat (fc_receive_window (sh_flow sh))")
    case True
    with on_data_delivers [OF ok body_bound [OF assms(2)] assms(4,5,7,8,9) True, of env] show ?thesis
      by (auto simp: on_frame_data [OF assms(3,6) key])
  next
    case False
    with on_data_overrun [OF body_bound [OF assms(2)] assms(4,5,7,9), of env] show ?thesis
      by (simp add: on_frame_data [OF assms(3,6) key])
  qed
qed

text \<open>A frame for the first stream of the test connection.\<close>

definition test_frame :: "tag \<Rightarrow> u16 \<Rightarrow> bytes \<Rightarrow> frame" where
  "test_frame t fl bs = \<lparr>fr_header = \<lparr>hdr_version = 0, hdr_tag = t, hdr_flags = fl, hdr_stream_id = 1,
     hdr_length = of_nat (length bs)\<rparr>, fr_body = bs\<rparr>"

theorem data_delivered_witness:
  "\<exists>s :: (pipe, chans) active. \<exists>a sh. cell a s = Some sh \<and>
    (if 2 \<le> unat (fc_receive_window (sh_flow sh)) then
      \<exists>s' sh'. on_frame test_env (test_frame Data 0 [8, 9]) s = Some (Ok ActNone, s')
        \<and> cell a s' = Some sh' \<and> chunks_bytes (sh_buffer sh') = chunks_bytes (sh_buffer sh) @ [8, 9]
     else on_frame test_env (test_frame Data 0 [8, 9]) s = Some (Ok (ActTerminate frame_protocol_error), s))"
proof -
  obtain st and s :: "(pipe, chans) active" and sh where s: "active_ok chans_queued s" "w_handles s = [st]"
    "a_streams s = [(1, stm_shared st)]" "cell (stm_shared st) s = Some sh"
    using test_opened_ok by blast
  let ?f = "test_frame Data 0 [8, 9]"
  have f: "frame_ok ?f" "hdr_tag (fr_header ?f) = Data"
    "\<not> flags_contains (hdr_flags (fr_header ?f)) RST" "\<not> flags_contains (hdr_flags (fr_header ?f)) SYN"
    "\<not> flags_contains (hdr_flags (fr_header ?f)) ACK" "fr_body ?f = [8, 9]"
    by (simp_all add: test_frame_def frame_ok_def flags_contains_def RST_def SYN_def ACK_def)
  have g: "streams_get (hdr_stream_id (fr_header ?f)) s = Some (stm_shared st)" "stm_shared st \<in> set (addresses s)"
    using s by (simp_all add: streams_get_def test_frame_def)
  from data_delivered [OF s(1) f(1-5) g s(4), of test_env] s(4) show ?thesis
    by (intro exI [of _ s] exI [of _ "stm_shared st"] exI [of _ sh]) (auto simp: f(6) received_def)
qed

text \<open>
  C34: Resets. A data or window-update frame with \<open>RST\<close> for a stream the user holds removes the
  stream from the map and closes it for good in both directions, and wakes the tasks waiting to
  read or write; whatever was buffered stays readable, and no other stream changes.
\<close>

theorem reset_closes_stream:
  assumes "hdr_tag (fr_header f) \<in> {Data, WindowUpdate}"
    and "flags_contains (hdr_flags (fr_header f)) RST" and "\<not> flags_contains (hdr_flags (fr_header f)) ACK"
    and "streams_get (hdr_stream_id (fr_header f)) s = Some a" and "a \<in> set (addresses s)"
    and "cell a s = Some sh"
  shows "\<exists>s'. on_frame env f s = Some (Ok ActNone, s')
    \<and> a_streams s' = AList.delete (hdr_stream_id (fr_header f)) (a_streams s)
    \<and> \<not> contains_key (hdr_stream_id (fr_header f)) s'
    \<and> cell a s' = Some (sh\<lparr>sh_state := Closed, sh_reader := None, sh_writer := None\<rparr>)
    \<and> w_woken s' = wake (sh_writer sh) (wake (sh_reader sh) (w_woken s))
    \<and> (\<forall>b. b \<noteq> a \<longrightarrow> cell b s' = cell b s)"
proof -
  let ?sid = "hdr_stream_id (fr_header f)"
  have len: "a < length (w_heap s)"
    using assms(6) by (simp add: cell_Some)
  have closed: "next_state t Closed = Closed" for t
    by (cases t) simp_all
  let ?sh = "sh\<lparr>sh_state := Closed, sh_reader := None, sh_writer := None\<rparr>"
  let ?s1 = "(put_cell a ?sh s)\<lparr>w_woken := wake (sh_writer sh) (wake (sh_reader sh) (w_woken s))\<rparr>"
  let ?s2 = "?s1\<lparr>a_streams := AList.delete ?sid (a_streams s)\<rparr>"
  have rm: "streams_remove ?sid ?s1 = Some ?s2"
    using streams_remove_keep [of ?sid ?s1 a] assms(4,5) by (simp add: streams_get_def)
  have "on_reset ?sid s = Some ?s2"
    using assms(4,6) len rm
    by (simp add: on_reset_def cell_update_state_def update_state_def closed cell_put_cell
        wake_reader_eq [of a _ "sh\<lparr>sh_state := Closed\<rparr>"]
        wake_writer_eq [of a _ "sh\<lparr>sh_state := Closed, sh_reader := None\<rparr>"])
  moreover have "contains_key ?sid s"
    using assms(4) by (simp add: contains_key_def)
  ultimately have "on_frame env f s = Some (Ok ActNone, ?s2)"
    using assms(1-3) by (auto simp: on_frame_def Let_def on_data_def on_window_update_def)
  then show ?thesis
    using len by (intro exI [of _ ?s2]) (simp add: cell_put_cell contains_key_def streams_get_def delete_conv)
qed

theorem reset_closes_stream_witness:
  "\<exists>s :: (pipe, chans) active. \<exists>a sh s'. contains_key 1 s \<and> cell a s = Some sh
     \<and> on_frame test_env (test_frame WindowUpdate 8 []) s = Some (Ok ActNone, s') \<and> \<not> contains_key 1 s'
     \<and> cell a s' = Some (sh\<lparr>sh_state := Closed, sh_reader := None, sh_writer := None\<rparr>)"
proof -
  obtain st and s :: "(pipe, chans) active" and sh where s: "w_handles s = [st]"
    "a_streams s = [(1, stm_shared st)]" "cell (stm_shared st) s = Some sh"
    using test_opened_ok by blast
  let ?f = "test_frame WindowUpdate 8 []"
  have f: "hdr_tag (fr_header ?f) \<in> {Data, WindowUpdate}" "flags_contains (hdr_flags (fr_header ?f)) RST"
    "\<not> flags_contains (hdr_flags (fr_header ?f)) ACK" and sid: "hdr_stream_id (fr_header ?f) = 1"
    by (simp_all add: test_frame_def flags_contains_def RST_def ACK_def)
  have g: "streams_get (hdr_stream_id (fr_header ?f)) s = Some (stm_shared st)" "stm_shared st \<in> set (addresses s)"
    using s by (simp_all add: streams_get_def sid)
  from reset_closes_stream [OF f g s(3), of test_env] s(3) g(1) show ?thesis
    unfolding sid contains_key_def by (metis option.distinct(1))
qed

text \<open>
  Frames for streams the connection does not know, and that do not open one, are dropped: nothing
  is answered, and nothing changes but that an \<open>ACK\<close> wakes the task waiting to open a stream.
\<close>

lemma unknown_frames_dropped:
  assumes "hdr_tag (fr_header f) \<in> {Data, WindowUpdate}"
    and "\<not> flags_contains (hdr_flags (fr_header f)) SYN"
    and "\<not> contains_key (hdr_stream_id (fr_header f)) s"
  shows "on_frame env f s = Some (Ok ActNone,
    if flags_contains (hdr_flags (fr_header f)) ACK
    then s\<lparr>w_woken := wake (a_new_outbound_stream_waker s) (w_woken s), a_new_outbound_stream_waker := None\<rparr>
    else s)"
proof -
  have "streams_get (hdr_stream_id (fr_header f)) s = None"
    using assms(3) by (simp add: contains_key_def)
  then show ?thesis
    using assms by (simp add: on_frame_def Let_def contains_key_def streams_get_def)
qed

subsection \<open>Streams the remote opens\<close>

lemma make_new_inbound_fields:
  assumes "make_new_inbound_stream env sid credit s = (st, s1)"
  shows "a_streams s1 = a_streams s \<and> w_handles s1 = w_handles s @ [st] \<and> stm_id st = sid \<and> stm_flag st = Ack
    \<and> stm_shared st = length (w_heap s) \<and> length (w_heap s1) = Suc (length (w_heap s))
    \<and> (\<exists>now. cell (stm_shared st) s1 = Some (shared_new DEFAULT_CREDIT credit (a_config s) now))
    \<and> (\<forall>b < length (w_heap s). cell b s1 = cell b s)"
  using assms
  by (auto simp: make_new_inbound_stream_def stream_new_inbound_def stream_new_def Let_def cell_def nth_append
      split: prod.splits)

text \<open>
  C35: Opening by the remote. A data frame with \<open>SYN\<close> and an id of the remote's parity that is not in
  use, while the stream limit is not reached and the body is within the default credit, opens exactly one stream: the
  handle returned still owes the \<open>ACK\<close>, the map gains the id, the buffer is the body, both windows
  start at the default credit less what has been received, \<open>FIN\<close> has closed the reading side, and all other streams are
  as before. A stream id of the wrong parity, one in use, a full map or a too long body is answered
  with an error and changes nothing.
\<close>

theorem inbound_stream_opened:
  assumes "hdr_tag (fr_header f) = Data" and "flags_contains (hdr_flags (fr_header f)) SYN"
    and "\<not> flags_contains (hdr_flags (fr_header f)) RST" and "\<not> flags_contains (hdr_flags (fr_header f)) ACK"
  shows "let sid = hdr_stream_id (fr_header f) in
    if is_valid_remote_id sid Data s \<and> \<not> contains_key sid s
       \<and> length (a_streams s) \<noteq> max_num_streams (a_config s) \<and> length (fr_body f) \<le> unat DEFAULT_CREDIT
    then \<exists>st s' sh. on_frame env f s = Some (Ok (ActNew st), s') \<and> stm_id st = sid \<and> stm_flag st = Ack
      \<and> a_streams s' = a_streams s @ [(sid, stm_shared st)] \<and> w_handles s' = w_handles s @ [st]
      \<and> cell (stm_shared st) s' = Some sh \<and> chunks_bytes (sh_buffer sh) = fr_body f
      \<and> unat (fc_receive_window (sh_flow sh)) + length (fr_body f) = unat DEFAULT_CREDIT
      \<and> send_window sh = DEFAULT_CREDIT
      \<and> sh_state sh = (if flags_contains (hdr_flags (fr_header f)) FIN then RecvClosed else Open False)
      \<and> (\<forall>b < length (w_heap s). cell b s' = cell b s)
    else \<exists>g. on_frame env f s = Some (Ok (ActTerminate g), s)
      \<and> g \<in> {frame_protocol_error, frame_internal_error}"
proof -
  let ?sid = "hdr_stream_id (fr_header f)" and ?fin = "flags_contains (hdr_flags (fr_header f)) FIN"
  have red: "on_frame env f s = do { (act, s) \<leftarrow> on_data env f s; Some (Ok act, s) }"
    using assms by (simp add: on_frame_def Let_def)
  show ?thesis
  proof (cases "is_valid_remote_id ?sid Data s \<and> \<not> contains_key ?sid s
       \<and> length (a_streams s) \<noteq> max_num_streams (a_config s) \<and> length (fr_body f) \<le> unat DEFAULT_CREDIT")
    case False
    with assms show ?thesis
      by (auto simp: red on_data_def Let_def)
  next
    case True
    then have body: "length (fr_body f) < 2 ^ 32" and get: "streams_get ?sid s = None"
      by (simp_all add: contains_key_def)
    obtain st s1 where mk: "make_new_inbound_stream env ?sid DEFAULT_CREDIT s = (st, s1)"
      by (rule prod.exhaust)
    note m = make_new_inbound_fields [OF mk]
    then obtain now where c1: "cell (stm_shared st) s1 = Some (shared_new DEFAULT_CREDIT DEFAULT_CREDIT (a_config s) now)"
      by blast
    define sh0 where "sh0 = (shared_new DEFAULT_CREDIT DEFAULT_CREDIT (a_config s) now)
      \<lparr>sh_state := (if ?fin then RecvClosed else Open False)\<rparr>"
    define s2 where "s2 = (if ?fin then put_cell (stm_shared st) sh0 s1 else s1)"
    have len: "stm_shared st < length (w_heap s1)"
      using c1 by (simp add: cell_Some)
    have st0: "sh_state (shared_new DEFAULT_CREDIT DEFAULT_CREDIT (a_config s) now) = Open False"
      by (simp add: shared_new_def)
    have fin: "\<exists>old. (if ?fin then cell_update_state (stm_shared st) RecvClosed s1 else Some (Open False, s1)) = Some (old, s2)"
      using c1 by (simp add: s2_def cell_update_state_def update_state_def sh0_def st0)
    have c2: "cell (stm_shared st) s2 = Some sh0"
      using c1 len st0 by (simp add: s2_def cell_put_cell sh0_def)
    have "shared_ok None sh0"
      unfolding sh0_def by (simp add: shared_new_ok)
    obtain sh1 where sh1: "consume_receive_window (frame_body_len f) sh0 = Ok sh1"
      using True unat_frame_body_len [OF body]
      by (auto simp: sh0_def shared_new_def fc_new_def consume_receive_window_def fc_consume_receive_window_def
          checked_sub_def word_le_nat_alt)
    from receive_data_ok [OF \<open>shared_ok None sh0\<close> body sh1] obtain buf fc where
      buf: "chunks_push (fr_body f) (sh_buffer sh0) = Some buf"
        "chunks_bytes buf = chunks_bytes (sh_buffer sh0) @ fr_body f" "sh1 = sh0\<lparr>sh_flow := fc\<rparr>"
        "fc = (sh_flow sh0)\<lparr>fc_receive_window := fc_receive_window fc\<rparr>"
        "unat (fc_receive_window fc) + length (fr_body f) = unat (fc_receive_window (sh_flow sh0))"
      by blast
    have sw: "fc_send_window fc = DEFAULT_CREDIT"
      by (subst buf(4)) (simp add: sh0_def shared_new_def fc_new_def)
    have init: "chunks_bytes (sh_buffer sh0) = []" "fc_receive_window (sh_flow sh0) = DEFAULT_CREDIT"
      by (simp_all add: sh0_def shared_new_def fc_new_def rx_buffer.new)
    let ?sh = "sh0\<lparr>sh_flow := fc, sh_buffer := buf\<rparr>"
    let ?s3 = "put_cell (stm_shared st) ?sh s2"
    let ?s4 = "?s3\<lparr>a_streams := a_streams s @ [(?sid, stm_shared st)]\<rparr>"
    have str: "a_streams s2 = a_streams s" "w_handles s2 = w_handles s @ [st]" "length (w_heap s2) = length (w_heap s1)"
      using m by (simp_all add: s2_def)
    have ins: "streams_insert ?sid (stm_shared st) ?s3 = Some ?s4"
      using get str(1) by (simp add: streams_insert_def streams_get_def Let_def alist_update_fresh)
    have "on_data env f s = Some (ActNew st, ?s4)"
      using True assms(2,3) mk fin c2 sh1 buf(1,3) ins by (auto simp: on_data_def Let_def)
    moreover have "cell b ?s4 = cell b s" if "b < length (w_heap s)" for b
      using that m len str(3) by (simp add: cell_put_cell s2_def)
    moreover have "cell (stm_shared st) ?s4 = Some ?sh"
      using len str(3) by (simp add: cell_put_cell)
    ultimately show ?thesis
      using True m buf init sw str
      by (auto simp: red Let_def send_window_def sh0_def intro!: exI [of _ ?s4])
  qed
qed

theorem inbound_stream_opened_witness:
  "\<exists>st s' sh. on_frame test_env (test_frame Data 1 [4]) ((test_conn [])\<lparr>a_mode := Server\<rparr>)
      = Some (Ok (ActNew st), s') \<and> stm_id st = 1 \<and> stm_flag st = Ack
    \<and> cell (stm_shared st) s' = Some sh \<and> chunks_bytes (sh_buffer sh) = [4]"
proof -
  let ?f = "test_frame Data 1 [4]" and ?s = "(test_conn [])\<lparr>a_mode := Server\<rparr>"
  have f: "hdr_tag (fr_header ?f) = Data" "flags_contains (hdr_flags (fr_header ?f)) SYN"
    "\<not> flags_contains (hdr_flags (fr_header ?f)) RST" "\<not> flags_contains (hdr_flags (fr_header ?f)) ACK"
    by (simp_all add: test_frame_def flags_contains_def RST_def SYN_def ACK_def)
  have "is_valid_remote_id (hdr_stream_id (fr_header ?f)) Data ?s" "\<not> contains_key (hdr_stream_id (fr_header ?f)) ?s"
    "length (a_streams ?s) \<noteq> max_num_streams (a_config ?s)" "length (fr_body ?f) \<le> unat DEFAULT_CREDIT"
    by (simp_all add: test_frame_def test_conn_def active_new_def is_valid_remote_id_def is_client_def is_server_def
        contains_key_def streams_get_def default_config_def)
  with inbound_stream_opened [OF f, of ?s test_env] show ?thesis
    by (auto simp: Let_def test_frame_def)
qed

text \<open>
  The id 0 stands for the session, but a client takes it for an id of the server: a \<open>SYN\<close> for it opens
  a stream.
\<close>

lemma client_accepts_stream_zero:
  assumes "a_mode s = Client"
  shows "is_valid_remote_id CONNECTION_ID Data s \<and> is_session CONNECTION_ID"
  using assms by (simp add: is_valid_remote_id_def is_server_def CONNECTION_ID_def is_session_def)

end
