(* ===== verification/Stream_Control.thy ===== *)
theory Stream_Control
  imports Frame_Handling
begin

text \<open>
  The rest of what the connection does for its streams: credit from the remote, streams that are
  opened here, streams whose handle was dropped, and pings.
\<close>

subsection \<open>Credit from the remote\<close>

text \<open>The stream's cell after a window update has been taken in.\<close>

definition credited :: "frame \<Rightarrow> shared \<Rightarrow> shared \<Rightarrow> bool" where
  "credited f sh sh' \<longleftrightarrow>
     unat (send_window sh') = unat (send_window sh) + unat (hdr_credit (fr_header f))
     \<and> sh_buffer sh' = sh_buffer sh
     \<and> fc_receive_window (sh_flow sh') = fc_receive_window (sh_flow sh)
     \<and> sh_state sh' = (if flags_contains (hdr_flags (fr_header f)) FIN
          then next_state (sh_state sh) RecvClosed else sh_state sh)
     \<and> sh_reader sh' = (if flags_contains (hdr_flags (fr_header f)) FIN then None else sh_reader sh)
     \<and> sh_writer sh' = None"

lemma on_window_update_credits:
  assumes fl: "\<not> flags_contains (hdr_flags (fr_header f)) RST" "\<not> flags_contains (hdr_flags (fr_header f)) SYN"
    and get: "streams_get (hdr_stream_id (fr_header f)) s = Some a" and user: "a \<in> set (addresses s)"
    and sh: "cell a s = Some sh"
    and fits: "unat (send_window sh) + unat (hdr_credit (fr_header f)) < 2 ^ 32"
  shows "\<exists>s' sh'. on_window_update env f s = Some (ActNone, s') \<and> cell a s' = Some sh' \<and> credited f sh sh'
    \<and> w_woken s' = wake (sh_writer sh)
        (if flags_contains (hdr_flags (fr_header f)) FIN then wake (sh_reader sh) (w_woken s) else w_woken s)
    \<and> (\<forall>b. b \<noteq> a \<longrightarrow> cell b s' = cell b s)
    \<and> a_streams s' = (if flags_contains (hdr_flags (fr_header f)) FIN \<and> sh_state sh' = Closed
         then AList.delete (hdr_stream_id (fr_header f)) (a_streams s) else a_streams s)"
proof -
  let ?sid = "hdr_stream_id (fr_header f)"
  let ?fin = "flags_contains (hdr_flags (fr_header f)) FIN"
  obtain fc where fc: "fc_increase_send_window_by (hdr_credit (fr_header f)) (sh_flow sh) = Ok fc"
    "unat (fc_send_window fc) = unat (send_window sh) + unat (hdr_credit (fr_header f))"
    "fc = (sh_flow sh)\<lparr>fc_send_window := fc_send_window fc\<rparr>"
    using fc_increase_send_window_by_cases [where i = "hdr_credit (fr_header f)" and fc = "sh_flow sh"] fits
    by (auto simp: send_window_def split: result.splits)
  have rw: "fc_receive_window fc = fc_receive_window (sh_flow sh)"
    by (subst fc(3)) simp
  have len: "a < length (w_heap s)"
    using sh by (simp add: cell_Some)
  define st where "st = (if ?fin then next_state (sh_state sh) RecvClosed else sh_state sh)"
  define rd where "rd = (if ?fin then None else sh_reader sh)"
  define wk where "wk = (if ?fin then wake (sh_reader sh) (w_woken s) else w_woken s)"
  let ?sh2 = "sh\<lparr>sh_flow := fc, sh_state := st\<rparr>"
  let ?sh' = "?sh2\<lparr>sh_reader := rd, sh_writer := None\<rparr>"
  let ?s2 = "(put_cell a (?sh2\<lparr>sh_reader := rd\<rparr>) s)\<lparr>w_woken := wk\<rparr>"
  let ?s1 = "(put_cell a ?sh' s)\<lparr>w_woken := wake (sh_writer sh) wk\<rparr>"
  have sh2: "(if ?fin then snd (update_state RecvClosed (sh\<lparr>sh_flow := fc\<rparr>)) else sh\<lparr>sh_flow := fc\<rparr>) = ?sh2"
    by (simp add: st_def update_state_def)
  have "(if ?fin then wake_reader a (put_cell a ?sh2 s) else Some (put_cell a ?sh2 s)) = Some ?s2"
  proof (cases ?fin)
    case True
    then show ?thesis
      using len by (simp add: rd_def wk_def wake_reader_eq [of a _ ?sh2] cell_put_cell)
  next
    case False
    then show ?thesis
      by (simp add: rd_def wk_def put_cell_def)
  qed
  moreover have "wake_writer a ?s2 = Some ?s1"
    using len by (simp add: wake_writer_eq [of a _ "?sh2\<lparr>sh_reader := rd\<rparr>"] cell_put_cell)
  moreover define c where "c \<longleftrightarrow> ?fin \<and> st = Closed"
  ultimately have "on_window_update env f s = do {
      s \<leftarrow> (if c then streams_remove ?sid ?s1 else Some ?s1); Some (ActNone, s) }"
    using fl get sh fc(1)
    by (simp add: on_window_update_def Let_def increase_send_window_by_def sh2 del: if_split)
  moreover have "streams_remove ?sid ?s1 = Some (?s1\<lparr>a_streams := AList.delete ?sid (a_streams s)\<rparr>)"
    using streams_remove_keep [of ?sid ?s1 a] get user by (simp add: streams_get_def)
  moreover have "credited f sh ?sh'"
    using fc(2) rw by (simp add: credited_def st_def rd_def send_window_def)
  moreover have "cell a ?s1 = Some ?sh'" "\<forall>b. b \<noteq> a \<longrightarrow> cell b ?s1 = cell b s"
    using len by (simp_all add: cell_put_cell)
  moreover have "(?fin \<and> sh_state ?sh' = Closed) = c"
    by (simp add: c_def)
  ultimately show ?thesis
    unfolding wk_def [symmetric]
    by (intro exI [of _ "if c then ?s1\<lparr>a_streams := AList.delete ?sid (a_streams s)\<rparr> else ?s1"]
        exI [of _ ?sh']) (cases c; auto)
qed

lemma on_window_update_overflow:
  assumes "\<not> flags_contains (hdr_flags (fr_header f)) RST" and "\<not> flags_contains (hdr_flags (fr_header f)) SYN"
    and "streams_get (hdr_stream_id (fr_header f)) s = Some a" and "cell a s = Some sh"
    and "2 ^ 32 \<le> unat (send_window sh) + unat (hdr_credit (fr_header f))"
  shows "on_window_update env f s = Some (ActTerminate frame_protocol_error, s)"
proof -
  have "fc_increase_send_window_by (hdr_credit (fr_header f)) (sh_flow sh) = Err InvalidWindowUpdate"
    using assms(5) by (simp add: fc_increase_send_window_by_def send_window_def checked_add_def)
  with assms show ?thesis
    by (simp add: on_window_update_def Let_def increase_send_window_by_def)
qed

text \<open>
  C36: Credit reaches its stream, exactly and without wrapping. A window update without \<open>SYN\<close>, \<open>RST\<close> and \<open>ACK\<close> for a stream the user holds raises
  that stream's send window by exactly the credit and wakes the task waiting to write; a \<open>FIN\<close> on
  it closes the reading side and wakes the reader; no other stream changes. If the window would
  exceed 32 bits, nothing changes and the connection answers with a protocol error.
\<close>

theorem credit_received:
  assumes "hdr_tag (fr_header f) = WindowUpdate"
    and "\<not> flags_contains (hdr_flags (fr_header f)) RST" and "\<not> flags_contains (hdr_flags (fr_header f)) SYN"
    and "\<not> flags_contains (hdr_flags (fr_header f)) ACK"
    and "streams_get (hdr_stream_id (fr_header f)) s = Some a" and "a \<in> set (addresses s)"
    and "cell a s = Some sh"
  shows "if unat (send_window sh) + unat (hdr_credit (fr_header f)) < 2 ^ 32 then
      \<exists>s' sh'. on_frame env f s = Some (Ok ActNone, s') \<and> cell a s' = Some sh' \<and> credited f sh sh'
        \<and> w_woken s' = wake (sh_writer sh)
            (if flags_contains (hdr_flags (fr_header f)) FIN then wake (sh_reader sh) (w_woken s) else w_woken s)
        \<and> (\<forall>b. b \<noteq> a \<longrightarrow> cell b s' = cell b s)
        \<and> a_streams s' = (if flags_contains (hdr_flags (fr_header f)) FIN \<and> sh_state sh' = Closed
             then AList.delete (hdr_stream_id (fr_header f)) (a_streams s) else a_streams s)
    else on_frame env f s = Some (Ok (ActTerminate frame_protocol_error), s)"
proof -
  have "contains_key (hdr_stream_id (fr_header f)) s"
    using assms(5) by (simp add: contains_key_def)
  then have fr: "on_frame env f s = do { (act, s) \<leftarrow> on_window_update env f s; Some (Ok act, s) }"
    using assms(1,4) by (simp add: on_frame_def Let_def)
  show ?thesis
  proof (cases "unat (send_window sh) + unat (hdr_credit (fr_header f)) < 2 ^ 32")
    case True
    with on_window_update_credits [OF assms(2,3,5,6,7) True, of env] show ?thesis
      by (auto simp: fr)
  next
    case False
    with on_window_update_overflow [OF assms(2,3,5,7), of env] show ?thesis
      by (simp add: fr)
  qed
qed

theorem credit_received_witness:
  "\<exists>s :: (pipe, chans) active. \<exists>a sh. cell a s = Some sh \<and>
    (if unat (send_window sh) < 2 ^ 32 then
       \<exists>s' sh'. on_frame test_env (test_frame WindowUpdate 0 []) s = Some (Ok ActNone, s') \<and> cell a s' = Some sh'
         \<and> send_window sh' = send_window sh
     else False)"
proof -
  obtain st and s :: "(pipe, chans) active" and sh where s: "w_handles s = [st]"
    "a_streams s = [(1, stm_shared st)]" "cell (stm_shared st) s = Some sh"
    using test_opened_ok by blast
  let ?f = "test_frame WindowUpdate 0 []"
  have f: "hdr_tag (fr_header ?f) = WindowUpdate"
    "\<not> flags_contains (hdr_flags (fr_header ?f)) RST" "\<not> flags_contains (hdr_flags (fr_header ?f)) SYN"
    "\<not> flags_contains (hdr_flags (fr_header ?f)) ACK" "hdr_credit (fr_header ?f) = 0"
    by (simp_all add: test_frame_def flags_contains_def RST_def SYN_def ACK_def hdr_credit_def)
  have g: "streams_get (hdr_stream_id (fr_header ?f)) s = Some (stm_shared st)" "stm_shared st \<in> set (addresses s)"
    using s by (simp_all add: streams_get_def test_frame_def)
  have lt: "unat (send_window sh) < 2 ^ 32"
    using unat_u32_bound by simp
  from credit_received [OF f(1-4) g s(3), of test_env] lt obtain s' sh' where
    "on_frame test_env ?f s = Some (Ok ActNone, s')" "cell (stm_shared st) s' = Some sh'" "credited ?f sh sh'"
    by (auto simp: f(5))
  with s(3) lt show ?thesis
    by (intro exI [of _ s] exI [of _ "stm_shared st"] exI [of _ sh]) (auto simp: credited_def f(5) word_unat_eq_iff)
qed

subsection \<open>Streams whose handle is gone\<close>

text \<open>
  C37: When the last sender of a stream is gone, the connection forgets the stream and tells the
  remote what it has to know: a stream nobody had closed is reset, one that only the remote had
  closed is finished, and for one that was closed here nothing is sent. A stream that was removed
  before is ignored.
\<close>

theorem dropped_stream_reported:
  assumes "active_ok queued s"
  shows "case streams_get sid s of
      None \<Rightarrow> on_drop_stream sid s = Some (None, s)
    | Some a \<Rightarrow> \<exists>sh fo s'. cell a s = Some sh \<and> on_drop_stream sid s = Some (fo, s')
        \<and> fo = (case sh_state sh of
             Open _ \<Rightarrow> Some (frame_new (hdr_rst (header_data sid 0)))
           | RecvClosed \<Rightarrow> Some (frame_new (hdr_fin (header_data sid 0)))
           | _ \<Rightarrow> None)
        \<and> a_streams s' = AList.delete sid (a_streams s)
        \<and> w_woken s' = wake (sh_writer sh) (wake (sh_reader sh) (w_woken s))
        \<and> (\<forall>b. b \<noteq> a \<longrightarrow> cell b s' = cell b s)"
proof (cases "streams_get sid s")
  case None
  then show ?thesis by (simp add: on_drop_stream_def)
next
  case (Some a)
  have ok: "core_ok s"
    using assms by (simp add: active_ok_def)
  obtain sh where sh: "cell a s = Some sh"
    using core_ok_cell [OF ok, of a] held_get [OF Some] by blast
  have len: "a < length (w_heap s)"
    using sh by (simp add: cell_Some)
  have closed: "next_state t Closed = Closed" for t
    by (cases t) simp_all
  let ?s0 = "s\<lparr>a_streams := AList.delete sid (a_streams s)\<rparr>"
  let ?sh = "sh\<lparr>sh_state := Closed, sh_reader := None, sh_writer := None\<rparr>"
  let ?s1 = "(put_cell a ?sh ?s0)\<lparr>w_woken := wake (sh_writer sh) (wake (sh_reader sh) (w_woken s))\<rparr>"
  let ?refs = "held ?s1 @ addresses ?s1"
  have e: "evolves ?s0 ?s1"
    using sh le_next_state [of Closed "sh_state sh"] closed [of "sh_state sh"]
    by (intro evolves_put) simp_all
  have "world_inv (a_config s) (set (held s) \<union> set (addresses s)) ?s0"
    using core_ok_inv [OF ok] by simp
  then have "world_inv (a_config s) (set (held s) \<union> set (addresses s)) ?s1"
    using world_inv_put_same [of "a_config s" _ ?s0 a sh ?sh] sh core_ok_cell [OF ok, of a] held_get [OF Some]
    by (auto simp: cell_ok_def)
  from remove_entry_ok [OF ok Some refl this e] obtain s2 where
    s2: "arc_drop a ?refs ?s1 = Some s2" "evolves ?s0 s2"
    by blast
  have "\<forall>b. b \<noteq> a \<longrightarrow> cell b s2 = cell b s" "w_woken s2 = w_woken ?s1"
    using s2(1) len by (auto simp: arc_drop_def cell_put_cell bind_eq_Some_conv cell_def put_cell_def split: if_splits)
  moreover have "on_drop_stream sid s = Some (case sh_state sh of
      Open _ \<Rightarrow> Some (frame_new (hdr_rst (header_data sid 0)))
    | RecvClosed \<Rightarrow> Some (frame_new (hdr_fin (header_data sid 0))) | _ \<Rightarrow> None, s2)"
    using Some sh len s2(1)
    by (simp add: on_drop_stream_def cell_update_state_def update_state_def closed cell_put_cell Let_def
        wake_reader_eq [of a _ "sh\<lparr>sh_state := Closed\<rparr>"]
        wake_writer_eq [of a _ "sh\<lparr>sh_state := Closed, sh_reader := None\<rparr>"])
  moreover have "a_streams s2 = AList.delete sid (a_streams s)"
    using evolves_fields(1) [OF s2(2)] by simp
  ultimately show ?thesis
    using Some sh by auto
qed

theorem dropped_stream_reported_witness:
  "\<exists>s :: (pipe, chans) active. \<exists>fo s'. contains_key 1 s \<and> on_drop_stream 1 s = Some (fo, s') \<and> a_streams s' = []"
proof -
  obtain st :: stream and s :: "(pipe, chans) active" where s: "active_ok chans_queued s" "a_streams s = [(1, stm_shared st)]"
    using test_opened_ok by blast
  from dropped_stream_reported [OF s(1), of 1] s(2) show ?thesis
    by (intro exI [of _ s]) (auto simp: streams_get_def contains_key_def)
qed

subsection \<open>Streams opened here\<close>

text \<open>
  C38: Opening a stream. \<open>poll_new_outbound\<close> returns a stream exactly when the stream limit is not
  reached, fewer than 256 streams wait for their acknowledgement and an id is left. Its id is of the connection's own parity, larger
  than every own id in use; the stream owes the \<open>SYN\<close>, is in the map, and the next id grows by two. Otherwise it waits for an acknowledgement, registered to be woken, or fails, and
  changes nothing else.
\<close>

theorem outbound_stream_opened:
  assumes "conn_env env out inp queued ends" and "active_ok queued s"
  shows "\<exists>r s'. active_poll_new_outbound env cx s = Some (r, s') \<and>
    (if length (a_streams s) = max_num_streams (a_config s) then r = Ready (Err TooManyStreams) \<and> s' = s
     else if ack_backlog s = MAX_ACK_BACKLOG then
       r = Pending \<and> s' = s\<lparr>a_new_outbound_stream_waker := Some cx\<rparr>
     else if 2 ^ 32 \<le> unat (a_next_id s) + 2 then r = Ready (Err NoMoreStreamIds) \<and> s' = s
     else \<exists>st. r = Ready (Ok st) \<and> stm_id st = a_next_id s \<and> stm_flag st = Syn
       \<and> own_id (a_mode s) (stm_id st) \<and> \<not> contains_key (stm_id st) s
       \<and> (\<forall>sid. contains_key sid s \<longrightarrow> own_id (a_mode s) sid \<longrightarrow> sid < stm_id st)
       \<and> a_streams s' = a_streams s @ [(stm_id st, stm_shared st)] \<and> w_handles s' = w_handles s @ [st]
       \<and> unat (a_next_id s') = unat (a_next_id s) + 2)"
proof -
  have ok: "core_ok s"
    using assms(2) by (simp add: active_ok_def)
  have lim: "length (a_streams s) \<le> max_num_streams (a_config s)" "ack_backlog s \<le> MAX_ACK_BACKLOG"
    and own: "own_id (a_mode s) (a_next_id s)"
    and below: "\<forall>sid \<in> set (map fst (a_streams s)). own_id (a_mode s) sid \<longrightarrow> sid < a_next_id s"
    using ok by (auto simp: core_ok_def map_ok_def)
  from conn_env.poll_new_outbound_ok [OF assms(1) ok, of cx] obtain r s' where
    s': "active_poll_new_outbound env cx s = Some (r, s')" "conn_env.outbound_ok cx s r s'"
    by blast
  note ob = s'(2) [unfolded conn_env.outbound_ok_def [OF assms(1)]]
  have key: "sid < a_next_id s" if "contains_key sid s" "own_id (a_mode s) sid" for sid
    using that below by (force simp: contains_key_def streams_get_def dest: map_of_SomeD)
  consider (full) "length (a_streams s) = max_num_streams (a_config s)"
    | (wait) "length (a_streams s) \<noteq> max_num_streams (a_config s)" "ack_backlog s = MAX_ACK_BACKLOG"
    | (ids) "length (a_streams s) \<noteq> max_num_streams (a_config s)" "ack_backlog s \<noteq> MAX_ACK_BACKLOG"
        "2 ^ 32 \<le> unat (a_next_id s) + 2"
    | (new) "length (a_streams s) \<noteq> max_num_streams (a_config s)" "ack_backlog s \<noteq> MAX_ACK_BACKLOG"
        "unat (a_next_id s) + 2 < 2 ^ 32"
    by linarith
  then show ?thesis
  proof cases
    case full
    then show ?thesis by (simp add: active_poll_new_outbound_def)
  next
    case wait
    with lim show ?thesis by (simp add: active_poll_new_outbound_def)
  next
    case ids
    then have "checked_add (a_next_id s) 2 = None"
      by (simp add: checked_add_None_iff)
    with ids lim show ?thesis
      by (simp add: active_poll_new_outbound_def next_stream_id_def Let_def)
  next
    case new
    then show ?thesis
      using s'(1) ob own key by (auto split: poll.splits result.splits)
  qed
qed

theorem outbound_stream_opened_witness:
  "\<exists>st s'. active_poll_new_outbound test_env 7 (test_conn []) = Some (Ready (Ok st), s') \<and> stm_id st = 1
     \<and> stm_flag st = Syn \<and> a_streams s' = [(1, stm_shared st)]"
proof -
  have q: "chans_queued no_channels = {#}"
    by (simp add: no_channels_def)
  have ok: "active_ok chans_queued (test_conn [])"
    unfolding test_conn_def using config_ok_default q by (rule active_new_ok)
  have f: "length (a_streams (test_conn [])) \<noteq> max_num_streams (a_config (test_conn []))"
    "ack_backlog (test_conn []) \<noteq> MAX_ACK_BACKLOG" "\<not> 2 ^ 32 \<le> unat (a_next_id (test_conn [])) + 2"
    "a_streams (test_conn []) = []" "a_next_id (test_conn []) = 1"
    by (simp_all add: test_conn_def active_new_def default_config_def ack_backlog_def size_defs)
  from outbound_stream_opened [OF test.conn_env_axioms ok, of 7] show ?thesis
    unfolding f(4,5) using f(1-3) by (auto simp: f(4,5))
qed

subsection \<open>Pings\<close>

text \<open>
  Pings are answered, once each and with the same number. A ping for the connection or for a
  stream in use is answered by a \<open>Ping\<close> frame with \<open>ACK\<close> and the opaque value received, and changes
  nothing; one for an unknown stream is ignored. A pong that answers the ping in flight sets the
  round-trip time and schedules the next ping; any other pong is a protocol error.
\<close>

lemma ping_answered:
  assumes "hdr_tag (fr_header f) = Ping"
  shows "on_frame env f s =
    (if flags_contains (hdr_flags (fr_header f)) ACK then
       case rtt_state (w_rtt s) of
         AwaitingPong sent i \<Rightarrow>
           if frame_ping_id f = i then Some (Ok ActNone,
             s\<lparr>w_rtt := (w_rtt s)\<lparr>rtt_value := Some (elapsed (e_clock env (w_ticks s)) sent),
                 rtt_state := Waiting (e_clock env (Suc (w_ticks s)) + PING_INTERVAL)\<rparr>, w_ticks := w_ticks s + 2\<rparr>)
           else Some (Ok (ActTerminate frame_protocol_error), s\<lparr>w_ticks := w_ticks s + 2\<rparr>)
       | Waiting _ \<Rightarrow> Some (Ok (ActTerminate frame_protocol_error), s\<lparr>w_ticks := w_ticks s + 2\<rparr>)
     else if hdr_stream_id (fr_header f) = CONNECTION_ID \<or> contains_key (hdr_stream_id (fr_header f)) s then
       Some (Ok (ActPing \<lparr>fr_header = \<lparr>hdr_version = 0, hdr_tag = Ping, hdr_flags = ACK, hdr_stream_id = CONNECTION_ID,
         hdr_length = hdr_length (fr_header f)\<rparr>, fr_body = []\<rparr>), s)
     else Some (Ok ActNone, s))"
  using assms
  by (auto simp: on_frame_def on_ping_def handle_pong_def Let_def frame_ping_id_def hdr_ping_id_def frame_new_def
      hdr_ack_def header_ping_def CONNECTION_ID_def split: rtt_state.splits)

end
