(* ===== verification/Peer.thy ===== *)
theory Peer
  imports Closing_Run Stream_Control
begin

text \<open>
  The active connection seen as a machine that sends and receives frames, without bytes: a labelled
  step relation over the same handlers. The poll loop, with its socket that moves bytes in any
  portions, is a refinement of it: whatever it does is a sequence of these steps, the bytes it has
  written are the encodings of the frames sent, and the bytes it has read those of the frames
  received.
\<close>

datatype label = Tau | Sent frame | Got frame

text \<open>What becomes of the answer to a frame.\<close>

fun queue_reply :: "stream action \<Rightarrow> ('io, 'ch) active \<Rightarrow> ('io, 'ch) active" where
  "queue_reply (ActPing f) s = s\<lparr>a_pending_read_frame := Some f\<rparr>"
| "queue_reply (ActTerminate f) s = s\<lparr>a_pending_read_frame := Some f\<rparr>"
| "queue_reply _ s = s"

text \<open>The socket is not part of the machine: \<open>io\<close> lets it change at will.\<close>

inductive peer_step :: "('io, 'ch) env \<Rightarrow> ('io, 'ch) active \<Rightarrow> label \<Rightarrow> ('io, 'ch) active \<Rightarrow> bool" for env where
  io: "peer_step env s Tau (s\<lparr>a_socket := k\<rparr>)"
| ping: "next_ping (e_clock env (w_ticks s)) (e_clock env (Suc (w_ticks s))) (w_rtt s) = (p, rt) \<Longrightarrow>
    peer_step env s (case p of Some f \<Rightarrow> Sent f | None \<Rightarrow> Tau) (s\<lparr>w_rtt := rt, w_ticks := w_ticks s + 2\<rparr>)"
| reply: "a_pending_read_frame s = Some f \<Longrightarrow> peer_step env s (Sent f) (s\<lparr>a_pending_read_frame := None\<rparr>)"
| send: "a_pending_read_frame s = None \<Longrightarrow> a_pending_write_frame s = Some f \<Longrightarrow>
    peer_step env s (Sent f) (s\<lparr>a_pending_write_frame := None\<rparr>)"
| command: "a_pending_write_frame s = None \<Longrightarrow> mx_poll_next (e_ch env) cx (w_chan s) = (Ready (Some (sid, Some c)), ch) \<Longrightarrow>
    peer_step env s Tau (s\<lparr>w_chan := ch, a_pending_write_frame := Some (command_frame sid c)\<rparr>)"
| dropped: "a_pending_write_frame s = None \<Longrightarrow> mx_poll_next (e_ch env) cx (w_chan s) = (Ready (Some (sid, None)), ch) \<Longrightarrow>
    on_drop_stream sid (s\<lparr>w_chan := ch\<rparr>) = Some (fo, s1) \<Longrightarrow>
    peer_step env s Tau (case fo of Some f \<Rightarrow> s1\<lparr>a_pending_write_frame := Some f\<rparr> | None \<Rightarrow> s1)"
| blocked: "mx_poll_next (e_ch env) cx (w_chan s) = (Pending, ch) \<Longrightarrow> peer_step env s Tau (s\<lparr>w_chan := ch\<rparr>)"
| no_streams: "mx_poll_next (e_ch env) cx (w_chan s) = (Ready None, ch) \<Longrightarrow>
    peer_step env s Tau (s\<lparr>w_chan := ch, a_no_streams_waker := Some cx\<rparr>)"
| got: "a_pending_read_frame s = None \<Longrightarrow> on_frame env f s = Some (Ok act, s1) \<Longrightarrow>
    peer_step env s (Got f) (queue_reply act s1)"
| go_away: "a_pending_read_frame s = None \<Longrightarrow> on_frame env f s = Some (Err e, s1) \<Longrightarrow> peer_step env s (Got f) s1"

text \<open>Steps in a row, with the frames sent and received on the way.\<close>

inductive peer_run ::
    "('io, 'ch) env \<Rightarrow> ('io, 'ch) active \<Rightarrow> frame list \<Rightarrow> frame list \<Rightarrow> ('io, 'ch) active \<Rightarrow> bool" for env s0 where
  start: "peer_run env s0 [] [] s0"
| tau: "peer_run env s0 ss gs s \<Longrightarrow> peer_step env s Tau s' \<Longrightarrow> peer_run env s0 ss gs s'"
| sent: "peer_run env s0 ss gs s \<Longrightarrow> peer_step env s (Sent f) s' \<Longrightarrow> peer_run env s0 (ss @ [f]) gs s'"
| got: "peer_run env s0 ss gs s \<Longrightarrow> peer_step env s (Got f) s' \<Longrightarrow> peer_run env s0 ss (gs @ [f]) s'"

lemma peer_run_trans:
  assumes "peer_run env t ss' gs' u" and "peer_run env s ss gs t"
  shows "peer_run env s (ss @ ss') (gs @ gs') u"
  using assms
proof (induction rule: peer_run.induct)
  case (sent ss gs s f s')
  then show ?case using peer_run.sent [of env _ _ _ s f s'] by (metis append_assoc)
next
  case (got ss gs s f s')
  then show ?case using peer_run.got [of env _ _ _ s f s'] by (metis append_assoc)
qed (auto intro: peer_run.tau)

lemma peer_run_step:
  "peer_step env s Tau s' \<Longrightarrow> peer_run env s [] [] s'"
  "peer_step env s (Sent f) s' \<Longrightarrow> peer_run env s [f] [] s'"
  "peer_step env s (Got f) s' \<Longrightarrow> peer_run env s [] [f] s'"
  using peer_run.tau [OF peer_run.start] peer_run.sent [OF peer_run.start] peer_run.got [OF peer_run.start]
  by fastforce+

subsection \<open>A transport that reports no error on writing\<close>

text \<open>It also keeps what it was given while it is read from.\<close>

locale reliable_env = duplex_env +
  assumes write_no_err: "op_poll_write (e_io env) bs io \<noteq> (Ready (Err e), io')"
    and write_some: "op_poll_write (e_io env) bs io = (Ready (Ok n), io') \<Longrightarrow> bs \<noteq> [] \<Longrightarrow> 0 < n"
    and read_out: "out (snd (op_poll_read (e_io env) n io)) = out io"
begin

abbreviation written :: "('a, 'b) active \<Rightarrow> bytes" where
  "written s \<equiv> out (io_inner (a_socket s)) @ unsent (sock_write (a_socket s))"

definition unpoisoned :: "('a, 'b) active \<Rightarrow> bool" where
  "unpoisoned s \<longleftrightarrow> ok s \<and> sock_write (a_socket s) \<noteq> WPoisoned"

lemma poll_ready_no_err:
  assumes "wstate_ok (sock_write k)" and "sock_write k \<noteq> WPoisoned" and "io_poll_ready (e_io env) k = Some (r, l)"
  shows "r = Pending \<or> r = Ready (Ok ())"
proof (rule run_loop_rule [where I = "\<lambda>l. wstate_ok (sock_write l) \<and> sock_write l \<noteq> WPoisoned" and s' = l,
      OF assms(3) [unfolded io_poll_ready_def]])
  show "wstate_ok (sock_write t) \<and> sock_write t \<noteq> WPoisoned"
    if "wstate_ok (sock_write m) \<and> sock_write m \<noteq> WPoisoned" "write_step (e_io env) m = Some (Continue t)" for m t
    using that sink.write_step_sink [of _ m] by (fastforce simp: sink.sink_inv_def)
  show "r = Pending \<or> r = Ready (Ok ())"
    if m: "wstate_ok (sock_write m) \<and> sock_write m \<noteq> WPoisoned" "write_step (e_io env) m = Some (Return r t)" for m r t
  proof (cases "sock_write m")
    case (WHeader header buffer offset)
    with m show ?thesis
      using sink.write_ok [of "drop offset header" "io_inner m"] write_some [of "drop offset header" "io_inner m"]
        write_no_err [of "drop offset header" "io_inner m"]
      by (auto simp: write_step_def uadd_def split: prod.splits poll.splits result.splits if_splits)
  next
    case (WBody buffer offset)
    with m show ?thesis
      using sink.write_ok [of "drop offset buffer" "io_inner m"] write_some [of "drop offset buffer" "io_inner m"]
        write_no_err [of "drop offset buffer" "io_inner m"]
      by (auto simp: write_step_def uadd_def split: prod.splits poll.splits result.splits if_splits)
  qed (use m in \<open>auto simp: write_step_def\<close>)
qed (use assms in simp)

text \<open>What a part of a round did: frames sent, frames received, bytes to match.\<close>

definition moved :: "('a, 'b) active \<Rightarrow> frame list \<Rightarrow> frame list \<Rightarrow> ('a, 'b) active \<Rightarrow> bool" where
  "moved s ss gs t \<longleftrightarrow> peer_run env s ss gs t \<and> written t = written s @ frames_bytes ss
     \<and> input (a_socket s) = frames_bytes gs @ input (a_socket t) \<and> unpoisoned t
     \<and> (\<forall>f \<in> set (ss @ gs). frame_ok f)"

lemma moved_trans: "moved t ss' gs' u \<Longrightarrow> moved s ss gs t \<Longrightarrow> moved s (ss @ ss') (gs @ gs') u"
  by (auto simp: moved_def intro: peer_run_trans)

definition moves :: "('a, 'b) active \<Rightarrow> ('r, ('a, 'b) active) flow run \<Rightarrow> bool" where
  "moves s x \<longleftrightarrow> (\<exists>ss gs t. (x = Some (Continue t) \<or> (\<exists>r. x = Some (Return r t))) \<and> moved s ss gs t)"

lemma moves_after: "moves t x \<Longrightarrow> moved s ss gs t \<Longrightarrow> moves s x"
  unfolding moves_def by (blast intro: moved_trans)

lemma moves_now:
  "moved s ss gs t \<Longrightarrow> moves s (Some (Continue t))" "moved s ss gs t \<Longrightarrow> moves s (Some (Return r t))"
  unfolding moves_def by blast+

lemma poll_next_out:
  assumes "io_poll_next (e_io env) k = Some (r, l)"
  shows "out (io_inner l) = out (io_inner k)"
proof (rule run_loop_rule [where I = "\<lambda>l. out (io_inner l) = out (io_inner k)" and r = r,
      OF assms [unfolded io_poll_next_def]])
  have io: "out io' = out (io_inner m)" if "op_poll_read (e_io env) n (io_inner m) = (x, io')" for x io' n m
    using read_out [of n "io_inner m"] that by simp
  show "out (io_inner t) = out (io_inner k)"
    if "out (io_inner m) = out (io_inner k)" "read_step (e_io env) m = Some (Continue t)" for m t
    using that by (auto simp: read_step_def Let_def bind_eq_Some_conv
        split: read_state.splits if_splits result.splits prod.splits poll.splits dest!: io)
  show "out (io_inner t) = out (io_inner k)"
    if "out (io_inner m) = out (io_inner k)" "read_step (e_io env) m = Some (Return r' t)" for m r' t
    using that by (auto simp: read_step_def Let_def bind_eq_Some_conv
        split: read_state.splits if_splits result.splits prod.splits poll.splits dest!: io)
qed simp

lemma moved_socket:
  assumes "unpoisoned s" and "ok (s\<lparr>a_socket := k\<rparr>)" and "sock_write k \<noteq> WPoisoned"
    and "out (io_inner k) @ unsent (sock_write k) = written s" and "input k = input (a_socket s)"
  shows "moved s [] [] (s\<lparr>a_socket := k\<rparr>)"
  using assms peer_run_step(1) [OF peer_step.io, of env s k] by (simp add: moved_def unpoisoned_def)

text \<open>Writing the current frame moves bytes only.\<close>

lemma moved_wrote:
  assumes "unpoisoned s" and "wrote (a_socket s) k" and "sink.sink_inv (written s) k"
  shows "moved s [] [] (s\<lparr>a_socket := k\<rparr>)"
  using assms
  by (intro moved_socket) (auto simp: unpoisoned_def active_ok_def io_ok_def wrote_def sink.sink_inv_def)

lemma sink_inv_written: "unpoisoned s \<Longrightarrow> sink.sink_inv (written s) (a_socket s)"
  by (simp add: unpoisoned_def sink.sink_inv_def active_ok_def io_ok_def)

text \<open>A frame handed to the idle sink is sent.\<close>

lemma moved_send:
  assumes "peer_run env s [f] [] t" and "unpoisoned s" and "sock_write (a_socket s) = WInit" and "frame_ok f"
    and "ok (t\<lparr>a_socket := io_start_send f (a_socket s)\<rparr>)"
  shows "moved s [f] [] (t\<lparr>a_socket := io_start_send f (a_socket s)\<rparr>)"
proof -
  have "peer_run env s [f] [] (t\<lparr>a_socket := io_start_send f (a_socket s)\<rparr>)"
    using peer_run.tau [OF assms(1) peer_step.io] .
  with assms(3-5) show ?thesis
    by (simp add: moved_def unpoisoned_def io_start_send_def frame_bytes_def)
qed

lemma active_read_moves:
  assumes "unpoisoned s"
  shows "moves s (active_read env s)"
proof (cases "a_pending_read_frame s")
  case (Some f)
  have "moved s [] [] s"
    using assms by (simp add: moved_def peer_run.start)
  then show ?thesis
    unfolding active_read_def using Some by (simp add: moves_now)
next
  case None
  have ok: "ok s" and np: "sock_write (a_socket s) \<noteq> WPoisoned"
    and w: "wstate_ok (sock_write (a_socket s))" "rstate_ok (sock_read (a_socket s))"
    using assms by (auto simp: unpoisoned_def active_ok_def io_ok_def)
  have "source.source_inv (input (a_socket s)) (a_socket s)"
    using w by (simp add: source.source_inv_def)
  from source.poll_next_source [OF this] obtain r k where
    k: "io_poll_next (e_io env) (a_socket s) = Some (r, k)"
    and ret: "source.read_return_ok (input (a_socket s)) (a_socket s) r k"
    by blast
  have sw: "sock_write k = sock_write (a_socket s)"
    using ret by (simp add: source.read_return_ok_def)
  have rd: "rstate_ok (sock_read k)"
    using ret by (auto simp: source.read_return_ok_def source.source_inv_def split: if_splits)
  let ?s1 = "s\<lparr>a_socket := k\<rparr>"
  have ok1: "ok ?s1"
    using ok sw rd by (simp add: active_ok_def io_ok_def)
  have wr: "written ?s1 = written s"
    using poll_next_out [OF k] sw by simp
  show ?thesis
  proof (cases "\<exists>f. r = Ready (Some (Ok f))")
    case False
    with ret have "input k = input (a_socket s)"
      by (simp add: source.read_return_ok_def source.source_inv_def)
    then have "moved s [] [] ?s1"
      using assms ok1 np sw wr by (intro moved_socket) simp_all
    then show ?thesis
      using False k None
      by (auto simp: active_read_def Let_def split: poll.splits option.splits result.splits intro: moves_now)
  next
    case True
    then obtain f where r: "r = Ready (Some (Ok f))"
      by blast
    with ret have f: "frame_ok f" "input (a_socket s) = frame_bytes f @ input k"
      by (auto simp: source.read_return_ok_def)
    have "core_ok ?s1"
      using ok1 by (simp add: active_ok_def)
    from on_frame_ok [OF this f(1)] obtain q s' where
      s': "on_frame env f ?s1 = Some (q, s')" "handles ?s1 s'" "\<forall>act. q = Ok act \<longrightarrow> action_ok act"
      by blast
    have ok2: "ok s'"
      using ok_handles [OF ok1 s'(2)] .
    have io: "a_socket s' = k" "a_pending_read_frame ?s1 = None"
      using s'(2) None by (auto simp: handles_def same_io_def)
    define t where "t = (case q of Ok act \<Rightarrow> queue_reply act s' | Err e \<Rightarrow> s')"
    have "peer_step env ?s1 (Got f) t"
      unfolding t_def using s'(1) io(2) by (cases q) (auto intro: peer_step.intros)
    then have run: "peer_run env s [] [f] t"
      using peer_run_trans [OF peer_run_step(3) peer_run_step(1) [OF peer_step.io]] by fastforce
    have tk: "a_socket t = k"
      using io(1) by (cases q; simp add: t_def; cases "case q of Ok act \<Rightarrow> act | _ \<Rightarrow> undefined"; simp)
    have "ok t"
      using ok2 s'(3) by (cases "(case q of Ok act \<Rightarrow> act | _ \<Rightarrow> undefined, s')" rule: queue_reply.cases; cases q)
        (auto simp: t_def active_ok_def io_ok_def)
    then have "moved s [] [f] t"
      using run tk np sw wr f by (simp add: moved_def unpoisoned_def frames_bytes_def)
    then show ?thesis
      using k None r s'(1) by (auto simp: active_read_def t_def split: result.splits action.splits intro: moves_now)
  qed
qed

text \<open>A step that leaves the socket alone.\<close>

lemma moved_tau:
  assumes "peer_step env s Tau t" and "unpoisoned s" and "ok t" and "a_socket t = a_socket s"
  shows "moved s [] [] t"
  using assms peer_run_step(1) [OF assms(1)] by (simp add: moved_def unpoisoned_def)

lemma active_commands_moves:
  assumes "unpoisoned s"
  shows "moves s (active_commands env cx s)"
proof (cases "a_pending_write_frame s")
  case (Some f)
  with active_read_moves [OF assms] show ?thesis by (simp add: active_commands_def)
next
  case None
  have ok: "ok s"
    using assms by (simp add: unpoisoned_def)
  obtain r ch where rx: "mx_poll_next (e_ch env) cx (w_chan s) = (r, ch)"
    by (rule prod.exhaust)
  have q: "\<forall>c \<in># queued ch. cmd_ok c" "\<forall>sid c. r = Ready (Some (sid, Some c)) \<longrightarrow> cmd_ok c"
    using mux.poll_next_cmd_ok [OF rx] ok unfolding active_ok_def by blast+
  have ok1: "ok (s\<lparr>w_chan := ch\<rparr>)"
    using ok q(1) by (simp add: active_ok_def io_ok_def)
  consider "r = Pending" | "r = Ready None" | sid where "r = Ready (Some (sid, None))"
    | sid c where "r = Ready (Some (sid, Some c))"
    by (metis option.exhaust poll.exhaust surj_pair)
  then show ?thesis
  proof cases
    case 1
    have m: "moved s [] [] (s\<lparr>w_chan := ch\<rparr>)"
      using assms ok1 rx 1 by (intro moved_tau) (auto intro: peer_step.blocked)
    then have "moves s (active_read env (s\<lparr>w_chan := ch\<rparr>))"
      by (intro moves_after [OF active_read_moves m]) (simp add: moved_def)
    with 1 rx None show ?thesis by (simp add: active_commands_def)
  next
    case 2
    let ?t = "s\<lparr>w_chan := ch, a_no_streams_waker := Some cx\<rparr>"
    have "ok ?t"
      using ok1 by (simp add: active_ok_def io_ok_def)
    then have m: "moved s [] [] ?t"
      using assms rx 2 by (intro moved_tau) (auto intro: peer_step.no_streams)
    then have "moves s (active_read env ?t)"
      by (intro moves_after [OF active_read_moves m]) (simp add: moved_def)
    with 2 rx None show ?thesis by (simp add: active_commands_def)
  next
    case (3 sid)
    have "core_ok (s\<lparr>w_chan := ch\<rparr>)"
      using ok1 by (simp add: active_ok_def)
    from on_drop_stream_ok [OF this, of sid] obtain fo s' where
      d: "on_drop_stream sid (s\<lparr>w_chan := ch\<rparr>) = Some (fo, s')" "quiet (s\<lparr>w_chan := ch\<rparr>) s'"
        "\<forall>g. fo = Some g \<longrightarrow> frame_ok g"
      by blast
    let ?t = "case fo of Some f \<Rightarrow> s'\<lparr>a_pending_write_frame := Some f\<rparr> | None \<Rightarrow> s'"
    have "ok s'"
      using ok_handles [OF ok1 handles_quiet [OF d(2)]] .
    then have "ok ?t" "a_socket ?t = a_socket s"
      using d(2,3) by (auto simp: active_ok_def io_ok_def quiet_def same_io_def split: option.splits)
    with peer_step.dropped [OF None rx [unfolded 3] d(1)] have "moved s [] [] ?t"
      using assms by (intro moved_tau)
    then show ?thesis
      using 3 rx None d(1) by (simp add: active_commands_def moves_now)
  next
    case (4 sid c)
    let ?t = "s\<lparr>w_chan := ch, a_pending_write_frame := Some (command_frame sid c)\<rparr>"
    have "frame_ok (command_frame sid c)"
      using q(2) 4 by (cases c) (auto simp: frame_ok_ctors)
    then have "ok ?t"
      using ok1 by (simp add: active_ok_def io_ok_def)
    with peer_step.command [OF None rx [unfolded 4]] have "moved s [] [] ?t"
      using assms by (intro moved_tau) simp_all
    then show ?thesis
      using 4 rx None by (cases c) (simp_all add: active_commands_def moves_now)
  qed
qed

lemma active_flush_moves:
  assumes "unpoisoned s"
  shows "moves s (active_flush env cx s)"
proof -
  have w: "wstate_ok (sock_write (a_socket s))"
    using assms by (simp add: unpoisoned_def active_ok_def io_ok_def)
  from poll_flush_total [OF w] obtain r k where
    k: "io_poll_flush (e_io env) (a_socket s) = Some (r, k)" "wrote (a_socket s) k"
    by blast
  from sink.poll_flush_sink [OF sink_inv_written [OF assms]] k(1) have "sink.sink_inv (written s) k"
    by auto
  with assms k(2) have m: "moved s [] [] (s\<lparr>a_socket := k\<rparr>)"
    by (rule moved_wrote)
  then have c: "moves s (active_commands env cx (s\<lparr>a_socket := k\<rparr>))"
    by (intro moves_after [OF active_commands_moves m]) (simp add: moved_def)
  show ?thesis
    using k(1) m c by (auto simp: active_flush_def Let_def split: poll.splits result.splits intro: moves_now)
qed

lemma active_step_moves:
  assumes "unpoisoned s"
  shows "moves s (active_step env cx s)"
proof -
  have w: "wstate_ok (sock_write (a_socket s))" "sock_write (a_socket s) \<noteq> WPoisoned"
    using assms by (auto simp: unpoisoned_def active_ok_def io_ok_def)
  from poll_ready_total [OF w(1)] obtain r k where
    k: "io_poll_ready (e_io env) (a_socket s) = Some (r, k)" "wrote (a_socket s) k"
    by blast
  from sink.poll_ready_sink [OF sink_inv_written [OF assms]] k(1) have
    inv: "sink.sink_inv (written s) k" "r = Ready (Ok ()) \<longrightarrow> sock_write k = WInit"
    by auto
  let ?s1 = "s\<lparr>a_socket := k\<rparr>"
  have m1: "moved s [] [] ?s1"
    using assms k(2) inv(1) by (rule moved_wrote)
  then have up1: "unpoisoned ?s1"
    by (simp add: moved_def)
  from poll_ready_no_err [OF w k(1)] consider "r = Pending" | "r = Ready (Ok ())" by blast
  then show ?thesis
  proof cases
    case 1
    with moves_after [OF active_flush_moves [OF up1] m1] k(1) show ?thesis
      by (simp add: active_step_def is_ready_def)
  next
    case 2
    then have idle: "sock_write (a_socket ?s1) = WInit"
      using inv(2) by simp
    obtain p rt where p: "next_ping (e_clock env (w_ticks s)) (e_clock env (Suc (w_ticks s))) (w_rtt s) = (p, rt)"
      by (rule prod.exhaust)
    let ?s2 = "?s1\<lparr>w_rtt := rt, w_ticks := w_ticks s + 2\<rparr>"
    note np = next_ping_effect [OF p]
    have "core_ok (?s1\<lparr>w_rtt := rt\<rparr>)"
      using core_ok_rtt [of ?s1 rt] up1 np by (simp add: active_ok_def unpoisoned_def)
    then have s2: "ok ?s2"
      using up1 by (simp add: active_ok_def io_ok_def unpoisoned_def)
    have p2: "peer_step env ?s1 (case p of Some f \<Rightarrow> Sent f | None \<Rightarrow> Tau) ?s2"
      using peer_step.ping [of env ?s1 p rt] p by simp
    have send: "ok (t\<lparr>a_socket := io_start_send f k\<rparr>)" if "frame_ok f" "ok t" for f t
      using that wstate_ok_start_send [OF that(1), of k]
      by (auto simp: active_ok_def io_ok_def start_send_fields)
        (use s2 in \<open>simp add: active_ok_def io_ok_def\<close>)
    show ?thesis
    proof (cases p)
      case (Some f)
      with np have f: "frame_ok f" by simp
      have "moved ?s1 [f] [] (?s2\<lparr>a_socket := io_start_send f (a_socket ?s1)\<rparr>)"
        using peer_run_step(2) [of env ?s1 f ?s2] p2 Some up1 idle f send [OF f s2] by (intro moved_send) simp_all
      from moved_trans [OF this m1] k(1) 2 p Some show ?thesis
        by (auto simp: active_step_def is_ready_def intro: moves_now)
    next
      case None
      then have m2: "moved s [] [] ?s2"
        using moved_trans [OF moved_tau [of ?s1 ?s2] m1] p2 up1 s2 by simp
      then have up2: "unpoisoned ?s2"
        by (simp add: moved_def)
      have snd: "moves s (Some (Continue (t\<lparr>a_socket := io_start_send f k\<rparr>)))"
        if "peer_step env ?s2 (Sent f) t" "ok t" "frame_ok f" for f t
      proof -
        have "moved ?s2 [f] [] (t\<lparr>a_socket := io_start_send f (a_socket ?s2)\<rparr>)"
          using peer_run_step(2) [OF that(1)] up2 idle that(3) send [OF that(3,2)] by (intro moved_send) simp_all
        from moved_trans [OF this m2] show ?thesis
          by (simp add: moves_now)
      qed
      consider f where "a_pending_read_frame s = Some f"
        | f where "a_pending_read_frame s = None" "a_pending_write_frame s = Some f"
        | "a_pending_read_frame s = None" "a_pending_write_frame s = None"
        by fastforce
      then show ?thesis
      proof cases
        case (1 f)
        let ?t = "?s2\<lparr>a_pending_read_frame := None\<rparr>"
        have "frame_ok f" "ok ?t"
          using 1 assms s2 by (auto simp: unpoisoned_def active_ok_def io_ok_def)
        with snd [of f ?t] peer_step.reply [of ?s2 f env] 1 k(1) 2 p None show ?thesis
          by (simp add: active_step_def is_ready_def)
      next
        case w: (2 f)
        let ?t = "?s2\<lparr>a_pending_write_frame := None\<rparr>"
        have "frame_ok f" "ok ?t"
          using w assms s2 by (auto simp: unpoisoned_def active_ok_def io_ok_def)
        with snd [of f ?t] peer_step.send [of ?s2 f env] w k(1) 2 p None show ?thesis
          by (simp add: active_step_def is_ready_def)
      next
        case 3
        with moves_after [OF active_flush_moves [OF up2] m2] k(1) 2 p None show ?thesis
          by (simp add: active_step_def is_ready_def)
      qed
    qed
  qed
qed

lemma active_poll_moves:
  assumes "unpoisoned s"
  shows "\<exists>r t ss gs. active_poll env cx s = Some (r, t) \<and> moved s ss gs t"
proof -
  have "ok s"
    using assms by (simp add: unpoisoned_def)
  then obtain r t where p: "active_poll env cx s = Some (r, t)"
    using active_poll_ok [of s cx] by blast
  have "\<exists>ss gs. moved s ss gs t"
  proof (rule run_loop_rule [where I = "\<lambda>t. \<exists>ss gs. moved s ss gs t" and r = r, OF p [unfolded active_poll_def]])
    show "\<exists>ss gs. moved s ss gs s"
      using assms by (auto simp: moved_def intro!: exI [of _ "[]"] peer_run.start)
    fix m t
    assume "\<exists>ss gs. moved s ss gs m"
    then obtain ss gs where m: "moved s ss gs m" by blast
    then have "moves m (active_step env cx m)"
      by (intro active_step_moves) (simp add: moved_def)
    then have step: "moves s (active_step env cx m)"
      using m by (rule moves_after)
    show "\<exists>ss gs. moved s ss gs t" if "active_step env cx m = Some (Continue t)"
      using step that by (auto simp: moves_def)
    show "\<exists>ss gs. moved s ss gs t" if "active_step env cx m = Some (Return r' t)" for r'
      using step that by (auto simp: moves_def)
  qed
  with p show ?thesis by blast
qed

end

context reliable_env
begin

lemma reachable_speaks:
  assumes "reachable env s0 s" and "unpoisoned s0"
  shows "unpoisoned s \<and> (\<exists>ss gs. (\<forall>f \<in> set (ss @ gs). frame_ok f) \<and> written s = written s0 @ frames_bytes ss
    \<and> input (a_socket s0) = frames_bytes gs @ input (a_socket s))"
  using assms
proof (induction rule: reachable.induct)
  case start
  then show ?case by (auto intro!: exI [of _ "[]"])
next
  case (poll s cx r s')
  then have up: "unpoisoned s"
    by blast
  obtain ss gs where 1: "\<forall>f \<in> set (ss @ gs). frame_ok f" "written s = written s0 @ frames_bytes ss"
    "input (a_socket s0) = frames_bytes gs @ input (a_socket s)"
    using poll by blast
  obtain ss' gs' where 2: "moved s ss' gs' s'"
    using active_poll_moves [OF up, of cx] poll.hyps(2) by auto
  have "unpoisoned s'" "\<forall>f \<in> set ((ss @ ss') @ (gs @ gs')). frame_ok f" "written s' = written s0 @ frames_bytes (ss @ ss')"
    "input (a_socket s0) = frames_bytes (gs @ gs') @ input (a_socket s')"
    using 1 2 by (auto simp: moved_def)
  then show ?case
    by blast
next
  case (outbound s cx r s')
  then have "core_ok s" "ok s" "sock_write (a_socket s) \<noteq> WPoisoned"
    by (auto simp: unpoisoned_def active_ok_def)
  with poll_new_outbound_ok [of s cx] outbound.hyps(2) have "handles s s'"
    by auto
  with ok_handles \<open>ok s\<close> have "ok s'" "a_socket s' = a_socket s"
    by (auto simp: handles_def same_io_def)
  with outbound show ?case
    by (simp add: unpoisoned_def)
next
  case (call s i c s')
  then have "ok s'"
    using handle_call_active_ok [of s i c] by (auto simp: unpoisoned_def)
  with call handle_call_fields [OF call.hyps(4)] show ?case
    by (simp add: unpoisoned_def same_io_def)
next
  case (drop s i s')
  then have "ok s'"
    using drop_handle_active_ok [of s i] by (auto simp: unpoisoned_def)
  with drop drop_handle_fields [OF drop.hyps(3)] show ?case
    by (simp add: unpoisoned_def same_io_def)
qed

end

interpretation test: reliable_env test_env pipe_out pipe_in chans_queued chans_ends
  by unfold_locales (auto simp: test_env_def pipe_ops_def split: if_splits)

interpretation slow: reliable_env slow_env slow_out slow_in chans_queued chans_ends
  by unfold_locales (auto simp: slow_env_def slow_ops_def pipe_ops_def split: if_splits prod.splits)

subsection \<open>Properties\<close>

text \<open>
  C7: The poll loop refines the frame machine. Over a transport that reports no write error, one
  call of \<open>poll\<close>, however it splits its reads and writes and wherever it stops, is a run of the frame
  machine; the bytes handed to the transport or still to be handed over grow by exactly the encodings of the frames
  sent, and the input shrinks by exactly the encodings of the frames received.
\<close>

theorem poll_refines_frames:
  assumes "reliable_env env out inp queued ends" and "active_ok queued s"
    and "sock_write (a_socket s) \<noteq> WPoisoned"
  shows "\<exists>r t ss gs. active_poll env cx s = Some (r, t) \<and> peer_run env s ss gs t
    \<and> (\<forall>f \<in> set (ss @ gs). frame_ok f)
    \<and> out (io_inner (a_socket t)) @ unsent (sock_write (a_socket t))
        = out (io_inner (a_socket s)) @ unsent (sock_write (a_socket s)) @ frames_bytes ss
    \<and> partial_frame (sock_read (a_socket s)) @ inp (io_inner (a_socket s))
        = frames_bytes gs @ partial_frame (sock_read (a_socket t)) @ inp (io_inner (a_socket t))"
proof -
  have "reliable_env.unpoisoned queued s"
    using assms(2,3) by (simp add: reliable_env.unpoisoned_def [OF assms(1)])
  from reliable_env.active_poll_moves [OF assms(1) this, of cx] show ?thesis
    by (auto simp: reliable_env.moved_def [OF assms(1)])
qed

text \<open>
  C10: A connection speaks nothing but frames, on a transport that reports no write error and never
  takes none of the bytes of a write that is not empty. In every state a new connection reaches over it, with any
  interleaving of its polls and of calls on its streams, what it has written so far is a prefix of
  the concatenated encodings of well-formed frames, cut only inside the frame it is still writing,
  and what it has read is the concatenated encodings of the well-formed frames it has handled and of
  the part of the next one it has buffered.
\<close>

theorem connection_speaks_frames:
  assumes "reliable_env env out inp queued ends" and "built_config cfg" and "queued ch = {#}"
    and "reachable env (active_new io ch now cfg mode) s"
  shows "\<exists>ss gs. (\<forall>f \<in> set ss. frame_ok f) \<and> (\<forall>f \<in> set gs. frame_ok f)
    \<and> out (io_inner (a_socket s)) @ unsent (sock_write (a_socket s)) = out io @ frames_bytes ss
    \<and> inp io = frames_bytes gs @ partial_frame (sock_read (a_socket s)) @ inp (io_inner (a_socket s))"
proof -
  have ok: "active_ok queued (active_new io ch now cfg mode)"
    using config_ok_built [OF assms(2)] assms(3) by (rule active_new_ok)
  have k: "a_socket (active_new io ch now cfg mode) = io_new io"
    by (simp add: active_new_def)
  from ok k have "reliable_env.unpoisoned queued (active_new io ch now cfg mode)"
    by (simp add: reliable_env.unpoisoned_def [OF assms(1)] io_new_def)
  from reliable_env.reachable_speaks [OF assms(1,4) this] obtain ss gs where
    "\<forall>f \<in> set (ss @ gs). frame_ok f"
    "out (io_inner (a_socket s)) @ unsent (sock_write (a_socket s)) = out io @ frames_bytes ss"
    "inp io = frames_bytes gs @ partial_frame (sock_read (a_socket s)) @ inp (io_inner (a_socket s))"
    unfolding k by (auto simp: io_new_def)
  then show ?thesis
    by (intro exI [of _ ss] exI [of _ gs]) simp
qed

theorem poll_refines_frames_witness:
  "\<exists>r t ss gs. active_poll slow_env 3 slow_conn = Some (r, t)
    \<and> slow_out (io_inner (a_socket t)) @ unsent (sock_write (a_socket t)) = frames_bytes ss
    \<and> (\<forall>f \<in> set ss. frame_ok f)"
proof -
  from poll_refines_frames [OF slow.reliable_env_axioms slow_conn_ok slow_conn_fields(1), of 3] obtain r t ss gs where
    "active_poll slow_env 3 slow_conn = Some (r, t)" "\<forall>f \<in> set (ss @ gs). frame_ok f"
    "slow_out (io_inner (a_socket t)) @ unsent (sock_write (a_socket t))
       = slow_out (io_inner (a_socket slow_conn)) @ unsent (sock_write (a_socket slow_conn)) @ frames_bytes ss"
    by blast
  moreover have "slow_out (io_inner (a_socket slow_conn)) @ unsent (sock_write (a_socket slow_conn)) = []"
    by (simp add: slow_conn_def active_new_def io_new_def)
  ultimately show ?thesis
    by (intro exI [of _ r] exI [of _ t] exI [of _ ss]) simp
qed

theorem connection_speaks_frames_witness:
  "\<exists>(s :: (pipe, chans) active) ss gs. w_handles s \<noteq> [] \<and> (\<forall>f \<in> set ss. frame_ok f)
    \<and> pipe_out (io_inner (a_socket s)) @ unsent (sock_write (a_socket s)) = frames_bytes ss
    \<and> [0, 1, 2] = frames_bytes gs @ partial_frame (sock_read (a_socket s)) @ pipe_in (io_inner (a_socket s))"
proof -
  obtain st s where s: "reachable test_env (test_conn [0, 1, 2]) s" "w_handles s = [st]"
    using test_opened by blast
  have q: "chans_queued no_channels = {#}"
    by (simp add: no_channels_def)
  from connection_speaks_frames [OF test.reliable_env_axioms built_config.default q s(1) [unfolded test_conn_def]]
  show ?thesis
    using s(2) by (intro exI [of _ s]) auto
qed

end
