(* ===== verification/Window_Credit.thy ===== *)
theory Window_Credit
  imports Peer
begin

text \<open>
  The windows of a stream as an account. Bytes a handle takes from the send window are in the data
  frames it queues, credit a handle announces has been added to the receive window before; the
  frames that arrive move the windows the other way. This theory follows both windows of one stream
  through every step of a connection and of its handles, as bounds between the windows before and
  after, and the payload and credit queued, sent and received.
\<close>

subsection \<open>Payload and credit\<close>

definition frame_payload :: "u32 \<Rightarrow> frame \<Rightarrow> nat" where
  "frame_payload sid f =
     (if hdr_tag (fr_header f) = Data \<and> hdr_stream_id (fr_header f) = sid then length (fr_body f) else 0)"

definition frame_credit :: "u32 \<Rightarrow> frame \<Rightarrow> nat" where
  "frame_credit sid f =
     (if hdr_tag (fr_header f) = WindowUpdate \<and> hdr_stream_id (fr_header f) = sid
      then unat (hdr_credit (fr_header f)) else 0)"

fun command_payload :: "u32 \<Rightarrow> stream_command \<Rightarrow> nat" where
  "command_payload sid (SendFrame f) = frame_payload sid f"
| "command_payload sid (CloseStream _) = 0"

fun command_credit :: "u32 \<Rightarrow> stream_command \<Rightarrow> nat" where
  "command_credit sid (SendFrame f) = frame_credit sid f"
| "command_credit sid (CloseStream _) = 0"

abbreviation queue_payload :: "u32 \<Rightarrow> stream_command multiset \<Rightarrow> nat" where
  "queue_payload sid q \<equiv> \<Sum>c \<in># q. command_payload sid c"

abbreviation queue_credit :: "u32 \<Rightarrow> stream_command multiset \<Rightarrow> nat" where
  "queue_credit sid q \<equiv> \<Sum>c \<in># q. command_credit sid c"

lemma flagged_weights [simp]:
  "frame_payload sid (snd (add_flag fl f)) = frame_payload sid f"
  "frame_credit sid (snd (add_flag fl f)) = frame_credit sid f"
  by (simp_all add: frame_payload_def frame_credit_def hdr_credit_def)

text \<open>The frames a connection makes up itself carry neither.\<close>

lemma control_frame_weights [simp]:
  "frame_payload sid (frame_close_stream j ack) = 0" "frame_credit sid (frame_close_stream j ack) = 0"
  "frame_payload sid frame_protocol_error = 0" "frame_credit sid frame_protocol_error = 0"
  "frame_payload sid frame_internal_error = 0" "frame_credit sid frame_internal_error = 0"
  "frame_payload sid (frame_new h) = 0" "frame_credit sid (frame_new (hdr_ack (header_ping n))) = 0"
  "frame_payload sid (frame_ping n) = 0" "frame_credit sid (frame_ping n) = 0"
  by (simp_all add: frame_payload_def frame_credit_def frame_close_stream_def frame_new_def
      frame_protocol_error_def frame_internal_error_def header_data_def hdr_fin_def hdr_ack_def Let_def frame_ping_def header_ping_def
      header_protocol_error_def header_internal_error_def header_go_away_def
      split: if_splits)

lemma window_update_weights:
  "frame_payload j (frame_window_update sid credit) = 0"
  "frame_credit j (frame_window_update sid credit) = (if j = sid then unat credit else 0)"
  by (auto simp: frame_payload_def frame_credit_def frame_window_update_def frame_new_def
      header_window_update_def hdr_credit_def)

lemma command_frame_weights [simp]:
  "frame_payload sid (command_frame j c) = command_payload sid c"
  "frame_credit sid (command_frame j c) = command_credit sid c"
  by (cases c; simp)+


subsection \<open>Calls on a handle\<close>

abbreviation flow_of :: "'ch sctx \<Rightarrow> flow_controller" where
  "flow_of s \<equiv> sh_flow (cx_shared s)"

context command_sender
begin

text \<open>A channel that refuses a command although it was ready for one.\<close>

definition refuses :: bool where
  "refuses \<longleftrightarrow> (\<exists>tx cx ch ch' c e. ch_poll_ready ops tx cx ch = (Ready (Ok ()), ch') \<and> fst (ch_start_send ops tx c ch') = Err e)"

text \<open>
  A call adds commands to the queue, all of them of the handle's stream. Their payload has been
  taken from the send window and their credit added to the receive window; if the channel refuses a
  command, its payload and credit are lost.
\<close>

definition charges :: "'ch sctx \<Rightarrow> 'ch sctx \<Rightarrow> bool" where
  "charges s s' \<longleftrightarrow>
     (\<exists>new lost. queued (cx_chan s') = queued (cx_chan s) + new \<and> (lost \<noteq> {#} \<longrightarrow> refuses)
       \<and> (\<forall>j. j \<noteq> stm_id (cx_stream s) \<longrightarrow> queue_payload j new = 0 \<and> queue_credit j new = 0)
       \<and> unat (fc_send_window (flow_of s')) + queue_payload (stm_id (cx_stream s)) (new + lost)
           = unat (fc_send_window (flow_of s))
       \<and> unat (fc_receive_window (flow_of s)) + queue_credit (stm_id (cx_stream s)) (new + lost)
           = unat (fc_receive_window (flow_of s')))"

lemma charges_idle:
  "queued (cx_chan s') = queued (cx_chan s) \<Longrightarrow> flow_of s' = flow_of s \<Longrightarrow> charges s s'"
  unfolding charges_def by (intro exI [of _ "{#}"]) simp

lemma charges_same:
  "charges s t \<Longrightarrow> cx_chan u = cx_chan t \<Longrightarrow> flow_of u = flow_of t \<Longrightarrow> charges s u"
  by (simp add: charges_def)

text \<open>One command, which a closed channel may refuse.\<close>

lemma charges_send:
  assumes "ch_poll_ready ops tx cx (cx_chan s) = (Ready (Ok ()), ch)" and "cx_chan s' = snd (ch_start_send ops tx c ch)"
    and "\<And>j. j \<noteq> stm_id (cx_stream s) \<Longrightarrow> command_payload j c = 0 \<and> command_credit j c = 0"
    and "unat (fc_send_window (flow_of s')) + command_payload (stm_id (cx_stream s)) c
      = unat (fc_send_window (flow_of s))"
    and "unat (fc_receive_window (flow_of s)) + command_credit (stm_id (cx_stream s)) c
      = unat (fc_receive_window (flow_of s'))"
  shows "charges s s'"
proof -
  have idle: "queued ch = queued (cx_chan s)"
    using ready_queued [of tx cx "cx_chan s"] assms(1) by simp
  show ?thesis
  proof (cases "fst (ch_start_send ops tx c ch)")
    case (Ok u)
    then have "queued (cx_chan s') = queued (cx_chan s) + {#c#}"
      using send_queued [of tx c ch] assms(2) idle by simp
    with assms(3-5) show ?thesis
      unfolding charges_def by (intro exI [of _ "{#c#}"] exI [of _ "{#}"]) simp
  next
    case (Err e)
    then have "queued (cx_chan s') = queued (cx_chan s) + {#}"
      using send_queued [of tx c ch] assms(2) idle by simp
    moreover have refuses
      using Err assms(1) unfolding refuses_def by blast
    ultimately show ?thesis
      using assms(4,5) unfolding charges_def by (intro exI [of _ "{#}"] exI [of _ "{#c#}"]) simp
  qed
qed

lemma ready_idle: "ch_poll_ready ops tx cx ch = (r, ch') \<Longrightarrow> queued ch' = queued ch"
  using ready_queued [of tx cx ch] by simp

lemma charges_window_update:
  assumes "ctx_ok rtt s" and "send_window_update ops cx t1 t2 rtt s = Some (r, s')"
  shows "charges s s'"
proof (cases "can_read (cx_state s)")
  case False
  with assms(2) show ?thesis by (simp add: send_window_update_def charges_idle)
next
  case True
  obtain p ch where rdy:
    "ch_poll_ready ops (stm_window_update_sender (cx_stream s)) cx (cx_chan s) = (p, ch)"
    by (rule prod.exhaust)
  note idle = ready_idle [OF this]
  show ?thesis
  proof (cases "p = Ready (Ok ())")
    case False
    with True rdy assms(2) idle show ?thesis
      by (cases p) (auto simp: send_window_update_def intro!: charges_idle split: result.splits)
  next
    case p: True
    from assms(1) obtain upd acc sh where
      upd: "shared_next_window_update t1 t2 rtt (cx_acc s) (cx_shared s) = Some (upd, acc, sh)"
      and w: "window_update_ok (length (cx_content s)) (cx_acc s) (flow_of s) upd acc (sh_flow sh)"
      using shared_next_window_update_ok [of "cx_shared s" "cx_acc s" rtt t1 t2]
      unfolding ctx_ok_def by blast
    show ?thesis
    proof (cases upd)
      case None
      with True rdy p assms(2) upd idle w show ?thesis
        by (auto simp: send_window_update_def window_update_ok_def intro!: charges_idle)
    next
      case (Some credit)
      let ?f = "frame_window_update (stm_id (cx_stream s)) credit"
      obtain f where a: "add_flag (stm_flag (cx_stream s)) ?f = (NoFlag, f)"
        by (metis add_flag_simps(1) prod.collapse)
      let ?s1 = "s\<lparr>cx_chan := ch, cx_acc := acc, cx_shared := sh,
        cx_stream := (cx_stream s)\<lparr>stm_flag := NoFlag\<rparr>\<rparr>"
      obtain q s1 where sc: "send_command ops (stm_window_update_sender (cx_stream s))
          (SendFrame f) ?s1 = (q, s1)"
        by (rule prod.exhaust)
      with True rdy p assms(2) upd Some a have s1: "s' = s1"
        by (auto simp: send_window_update_def)
      have f: "frame_payload j f = 0" "frame_credit j f = (if j = stm_id (cx_stream s) then unat credit else 0)" for j
        using flagged_weights [of j "stm_flag (cx_stream s)" ?f] unfolding a snd_conv
        by (simp_all add: window_update_weights)
      from send_command_cases [OF sc] rdy p w Some show ?thesis
        unfolding s1
        by (intro charges_send [of "stm_window_update_sender (cx_stream s)" cx s ch s1 "SendFrame f"])
          (simp_all add: f window_update_ok_def)
    qed
  qed
qed

lemma charges_write:
  assumes "stream_poll_write ops cx buf s = Some (r, s')"
  shows "charges s s'"
proof -
  obtain p ch where rdy: "ch_poll_ready ops (stm_sender (cx_stream s)) cx (cx_chan s) = (p, ch)"
    by (rule prod.exhaust)
  note idle = ready_idle [OF this]
  show ?thesis
  proof (cases "p = Ready (Ok ()) \<and> can_write (cx_state s) \<and> send_window (cx_shared s) \<noteq> 0")
    case False
    with rdy assms idle show ?thesis
      by (cases p) (auto simp: stream_poll_write_def Let_def intro!: charges_idle
          split: result.splits if_splits)
  next
    case True
    let ?k = "write_size buf s" and ?s1 = "after_write (write_size buf s) (s\<lparr>cx_chan := ch\<rparr>)"
    let ?c = "SendFrame (data_frame ?k buf (cx_stream s))"
    obtain q s1 where sc: "send_command ops (stm_sender (cx_stream s)) ?c ?s1 = (q, s1)"
      by (rule prod.exhaust)
    with True rdy assms poll_write_sends [of ops s cx _ ch, OF _ _ _ refl, of _ buf]
    have s1: "s' = s1"
      by (auto split: result.splits)
    have k: "?k \<le> unat (send_window (cx_shared s))" "?k \<le> length buf"
      by (simp_all add: write_size_def)
    have flow: "flow_of ?s1 = (flow_of s)\<lparr>fc_send_window := send_window (cx_shared s) - of_nat ?k\<rparr>"
      by (simp add: after_write_def Let_def)
    have f: "command_payload j ?c = (if j = stm_id (cx_stream s) then ?k else 0)" "command_credit j ?c = 0" for j
      using k(2) by (auto simp: frame_payload_def frame_credit_def)
    from send_command_cases [OF sc] rdy True k(1) flow show ?thesis
      unfolding s1
      by (intro charges_send [of "stm_sender (cx_stream s)" cx s ch s1 ?c])
        (simp_all add: f unat_send_window_diff del: command_payload.simps command_credit.simps, simp add: send_window_def)
  qed
qed

lemma charges_close:
  assumes "stream_poll_close ops cx s = (r, s')"
  shows "charges s s'"
proof -
  obtain p ch where rdy: "ch_poll_ready ops (stm_sender (cx_stream s)) cx (cx_chan s) = (p, ch)"
    by (rule prod.exhaust)
  note idle = ready_idle [OF this]
  show ?thesis
  proof (cases "p = Ready (Ok ()) \<and> cx_state s \<noteq> Closed")
    case False
    with rdy assms idle show ?thesis
      by (cases p) (auto simp: stream_poll_close_def is_closed_def intro!: charges_idle
          split: result.splits if_splits)
  next
    case True
    let ?ack = "stm_flag (cx_stream s) = Ack"
    let ?s1 = "if ?ack then s\<lparr>cx_chan := ch, cx_stream := (cx_stream s)\<lparr>stm_flag := NoFlag\<rparr>\<rparr>
      else s\<lparr>cx_chan := ch\<rparr>"
    obtain q s1 where sc: "send_command ops (stm_sender (cx_stream s)) (CloseStream ?ack) ?s1 = (q, s1)"
      by (rule prod.exhaust)
    with True rdy assms have "cx_chan s' = cx_chan s1" "flow_of s' = flow_of s1"
      by (auto simp: stream_poll_close_def is_closed_def Let_def update_state_def split: result.splits if_splits)
    with send_command_cases [OF sc] rdy True show ?thesis
      by (intro charges_send [of "stm_sender (cx_stream s)" cx s ch s' "CloseStream ?ack"])
        (simp_all split: if_splits)
  qed
qed

lemma charges_call:
  assumes "ctx_ok rtt s" and "run_call ops rtt c s = Some s'"
  shows "charges s s'"
proof (cases c)
  case (CallNext cx t1 t2)
  with assms(2) obtain r where "stream_poll_next ops cx t1 t2 rtt s = Some (r, s')"
    by auto
  from stream_poll_next_after_update [OF this] show ?thesis
    by (auto intro: charges_idle charges_same [OF charges_window_update [OF assms(1)]])
next
  case (CallRead cx t1 t2 m)
  with assms(2) obtain r where "stream_poll_read ops cx t1 t2 rtt m s = Some (r, s')"
    by auto
  from stream_poll_read_after_update [OF this] show ?thesis
    by (auto intro: charges_idle charges_same [OF charges_window_update [OF assms(1)]])
next
  case (CallWrite cx buf)
  with assms(2) show ?thesis by (auto intro: charges_write)
next
  case (CallFlush cx)
  with assms(2) flush_queued [of "stm_sender (cx_stream s)" cx "cx_chan s"] show ?thesis
    by (auto simp: stream_poll_flush_def split: prod.splits poll.splits result.splits intro!: charges_idle)
next
  case (CallClose cx)
  with assms(2) show ?thesis
    by (auto intro: charges_close [of cx s "fst (stream_poll_close ops cx s)"])
qed

end


subsection \<open>Steps that leave the windows alone\<close>

text \<open>Cells may be freed, but no window, no buffer and no channel is touched and no cell made.\<close>

definition flows :: "('io, 'ch) active \<Rightarrow> ('io, 'ch) active \<Rightarrow> bool" where
  "flows s s' \<longleftrightarrow> w_handles s' = w_handles s \<and> w_chan s' = w_chan s
     \<and> (\<forall>b sh'. cell b s' = Some sh' \<longrightarrow> (\<exists>sh. cell b s = Some sh \<and> sh_flow sh' = sh_flow sh \<and> sh_buffer sh' = sh_buffer sh))"

lemma flows_refl: "flows s s"
  by (simp add: flows_def)

lemma flows_trans: "flows s t \<Longrightarrow> flows t u \<Longrightarrow> flows s u"
  unfolding flows_def by metis

lemma flows_put:
  "cell a s = Some sh \<Longrightarrow> sh_flow sh' = sh_flow sh \<Longrightarrow> sh_buffer sh' = sh_buffer sh \<Longrightarrow> flows s (put_cell a sh' s)"
  by (auto simp: flows_def cell_put_cell cell_Some split: if_splits)

lemma flows_fields:
  "flows s (t\<lparr>w_woken := w\<rparr>) = flows s t" "flows s (t\<lparr>a_new_outbound_stream_waker := v\<rparr>) = flows s t"
  "flows s (t\<lparr>a_streams := m\<rparr>) = flows s t" "flows (t\<lparr>a_streams := m\<rparr>) s = flows t s"
  by (auto simp: flows_def)

lemma flows_wake: "wake_reader a s = Some s' \<Longrightarrow> flows s s'" "wake_writer a s = Some s' \<Longrightarrow> flows s s'"
  by (auto simp: wake_reader_def wake_writer_def bind_eq_Some_conv flows_fields intro!: flows_put)

lemma flows_update_state: "cell_update_state a t s = Some (old, s') \<Longrightarrow> flows s s'"
  by (auto simp: cell_update_state_def update_state_def Let_def bind_eq_Some_conv intro!: flows_put)

lemma flows_arc_drop: "arc_drop a refs s = Some s' \<Longrightarrow> flows s s'"
  by (auto simp: arc_drop_def flows_def bind_eq_Some_conv cell_def nth_list_update split: if_splits)

lemma streams_same:
  "wake_reader a s = Some s' \<Longrightarrow> a_streams s' = a_streams s"
  "wake_writer a s = Some s' \<Longrightarrow> a_streams s' = a_streams s"
  "cell_update_state a t s = Some (old, s') \<Longrightarrow> a_streams s' = a_streams s"
  "arc_drop a refs s = Some s' \<Longrightarrow> a_streams s' = a_streams s"
  by (auto simp: wake_reader_def wake_writer_def cell_update_state_def arc_drop_def bind_eq_Some_conv
      put_cell_def update_state_def Let_def split: if_splits)

lemma flows_remove:
  assumes "streams_remove sid s = Some s'"
  shows "flows s s' \<and> a_streams s' = AList.delete sid (a_streams s)"
proof (cases "streams_get sid s")
  case None
  with assms show ?thesis
    by (simp add: streams_remove_def flows_refl delete_absent streams_get_def)
next
  case (Some a)
  let ?s0 = "s\<lparr>a_streams := AList.delete sid (a_streams s)\<rparr>"
  from Some assms have "arc_drop a (held ?s0 @ addresses ?s0) ?s0 = Some s'"
    by (simp add: streams_remove_def Let_def)
  from flows_arc_drop [OF this] streams_same(4) [OF this] show ?thesis
    by (simp add: flows_fields)
qed

lemma flows_reset:
  assumes "on_reset sid s = Some s'"
  shows "flows s s' \<and> a_streams s' = AList.delete sid (a_streams s)"
proof (cases "streams_get sid s")
  case None
  with assms flows_remove [of sid s s'] show ?thesis
    by (simp add: on_reset_def)
next
  case (Some a)
  with assms obtain old s1 s2 s3 where 1: "cell_update_state a Closed s = Some (old, s1)"
    "wake_reader a s1 = Some s2" "wake_writer a s2 = Some s3" "streams_remove sid s3 = Some s'"
    by (auto simp: on_reset_def bind_eq_Some_conv)
  from 1 have "flows s s3"
    by (blast intro: flows_trans flows_update_state flows_wake)
  with flows_remove [OF 1(4)] streams_same(3) [OF 1(1)] streams_same(1) [OF 1(2)] streams_same(2) [OF 1(3)]
  show ?thesis
    by (auto intro: flows_trans)
qed

lemma flows_drop_stream:
  assumes "on_drop_stream sid s = Some (fo, s')"
  shows "flows s s' \<and> a_streams s' = AList.delete sid (a_streams s)
    \<and> (\<forall>f. fo = Some f \<longrightarrow> (\<forall>j. frame_payload j f = 0 \<and> frame_credit j f = 0))"
proof (cases "streams_get sid s")
  case None
  with assms show ?thesis
    by (simp add: on_drop_stream_def flows_refl delete_absent streams_get_def)
next
  case (Some a)
  let ?s0 = "s\<lparr>a_streams := AList.delete sid (a_streams s)\<rparr>"
  from Some assms obtain old s1 s2 s3 where 1: "cell_update_state a Closed ?s0 = Some (old, s1)"
    "wake_reader a s1 = Some s2" "wake_writer a s2 = Some s3" "arc_drop a (held s3 @ addresses s3) s3 = Some s'"
    and fo: "fo = (case old of Open _ \<Rightarrow> Some (frame_new (hdr_rst (header_data sid 0)))
      | RecvClosed \<Rightarrow> Some (frame_new (hdr_fin (header_data sid 0))) | SendClosed \<Rightarrow> None | Closed \<Rightarrow> None)"
    by (auto simp: on_drop_stream_def Let_def bind_eq_Some_conv)
  from 1 have "flows ?s0 s'"
    by (blast intro: flows_trans flows_update_state flows_wake flows_arc_drop)
  moreover have "frame_credit j (frame_new (hdr_rst (header_data sid 0))) = 0"
    "frame_credit j (frame_new (hdr_fin (header_data sid 0))) = 0" for j
    by (simp_all add: frame_credit_def frame_new_def header_data_def hdr_rst_def hdr_fin_def)
  ultimately show ?thesis
    using streams_same(3) [OF 1(1)] streams_same(1) [OF 1(2)] streams_same(2) [OF 1(3)] streams_same(4) [OF 1(4)] fo
    by (simp add: flows_fields split: stream_state.splits)
qed

subsection \<open>The windows of a stream\<close>

text \<open>
  What the connection may still send on a stream and may still receive; a stream that is not open
  yet will start with the default credit both ways.
\<close>

definition may_send :: "u32 \<Rightarrow> ('io, 'ch) active \<Rightarrow> nat" where
  "may_send sid s =
     (case streams_get sid s of None \<Rightarrow> unat DEFAULT_CREDIT
      | Some a \<Rightarrow> (case cell a s of Some sh \<Rightarrow> unat (send_window sh) | None \<Rightarrow> 0))"

definition may_receive :: "u32 \<Rightarrow> ('io, 'ch) active \<Rightarrow> nat" where
  "may_receive sid s =
     (case streams_get sid s of None \<Rightarrow> unat DEFAULT_CREDIT
      | Some a \<Rightarrow> (case cell a s of Some sh \<Rightarrow> unat (fc_receive_window (sh_flow sh)) | None \<Rightarrow> 0))"

text \<open>The handles of a stream are those that share its cell with the connection.\<close>

definition linked :: "u32 \<Rightarrow> ('io, 'ch) active \<Rightarrow> bool" where
  "linked sid s \<longleftrightarrow> (\<forall>st \<in> set (w_handles s). stm_id st = sid \<longleftrightarrow> streams_get sid s = Some (stm_shared st))"

text \<open>The stream is still there if it was.\<close>

definition keeps :: "u32 \<Rightarrow> ('io, 'ch) active \<Rightarrow> ('io, 'ch) active \<Rightarrow> bool" where
  "keeps sid s s' \<longleftrightarrow> (\<forall>a. streams_get sid s = Some a \<longrightarrow> streams_get sid s' = Some a)"

text \<open>What a handler did to the windows of a stream: at most this much credit came in, at most this much payload.\<close>

definition shifts :: "u32 \<Rightarrow> ('io, 'ch) active \<Rightarrow> nat \<Rightarrow> nat \<Rightarrow> ('io, 'ch) active \<Rightarrow> bool" where
  "shifts sid s credit payload s' \<longleftrightarrow> linked sid s' \<and> may_send sid s' \<le> may_send sid s + credit
     \<and> may_receive sid s \<le> may_receive sid s' + payload"

lemma windows_cong:
  assumes "a_streams s' = a_streams s" and "\<And>a. cell a s' = cell a s"
  shows "may_send sid s' = may_send sid s" "may_receive sid s' = may_receive sid s"
    "w_handles s' = w_handles s \<Longrightarrow> linked sid s' = linked sid s"
  using assms by (auto simp: may_send_def may_receive_def linked_def streams_get_def split: option.splits)

lemma core_ok_held:
  assumes "core_ok s" and "streams_get sid s = Some a"
  shows "\<exists>sh. cell a s = Some sh"
  using core_ok_cell [OF assms(1), of a] held_get [OF assms(2)] by blast

lemma windows_flows:
  assumes "core_ok s'" and "flows s s'" and "streams_get sid s' = streams_get sid s"
  shows "may_send sid s' = may_send sid s" and "may_receive sid s' = may_receive sid s"
proof -
  have "may_send sid s' = may_send sid s \<and> may_receive sid s' = may_receive sid s"
  proof (cases "streams_get sid s")
    case (Some a)
    with assms(3) core_ok_held [OF assms(1), of sid a] obtain sh' where "cell a s' = Some sh'"
      by auto
    with assms(2) obtain sh where "cell a s = Some sh" "sh_flow sh' = sh_flow sh"
      by (auto simp: flows_def)
    with Some assms(3) \<open>cell a s' = Some sh'\<close> show ?thesis
      by (simp add: may_send_def may_receive_def send_window_def)
  qed (use assms(3) in \<open>simp add: may_send_def may_receive_def\<close>)
  then show "may_send sid s' = may_send sid s" and "may_receive sid s' = may_receive sid s"
    by simp_all
qed

lemma shifts_flows:
  assumes "core_ok s'" and "linked sid s" and "flows s s'" and "streams_get sid s' = streams_get sid s"
  shows "shifts sid s c p s'"
proof -
  have "linked sid s'"
    using assms(2-4) by (simp add: linked_def flows_def)
  then show ?thesis
    using windows_flows [OF assms(1,3,4)] by (simp add: shifts_def)
qed

lemma streams_get_delete: "streams_get sid (s\<lparr>a_streams := AList.delete j (a_streams s)\<rparr>) = (if sid = j then None else streams_get sid s)"
  by (simp add: streams_get_def delete_conv')

text \<open>Removing another stream.\<close>

lemma shifts_removed:
  assumes "core_ok s'" and "linked sid s" and "flows s s'" and "a_streams s' = AList.delete j (a_streams s)"
    and "keeps sid s s'"
  shows "shifts sid s c p s'"
proof -
  have "streams_get sid s' = (if sid = j then None else streams_get sid s)"
    using assms(4) by (simp add: streams_get_def delete_conv')
  with assms(5) have "streams_get sid s' = streams_get sid s"
    by (cases "streams_get sid s") (auto simp: keeps_def split: if_splits)
  with assms show ?thesis
    by (intro shifts_flows)
qed

subsection \<open>New streams\<close>

lemma finish_cell:
  assumes "(if fin then cell_update_state a RecvClosed s else Some (Open False, s)) = Some (old, s2)"
    and "cell a s = Some sh"
  shows "\<exists>t. s2 = put_cell a (sh\<lparr>sh_state := t\<rparr>) s"
proof (cases fin)
  case False
  have "(w_heap s)[a := Some sh] = w_heap s"
    using assms(2) by (metis cell_Some list_update_id)
  with False assms(1) show ?thesis
    by (intro exI [of _ "sh_state sh"]) (simp add: put_cell_def)
qed (use assms in \<open>auto simp: cell_update_state_def update_state_def\<close>)

lemma consume_receive_cases:
  assumes "unat (frame_body_len f) = length (fr_body f)"
  shows "case consume_receive_window (frame_body_len f) sh of
      Ok sh' \<Rightarrow> (\<exists>w. sh' = sh\<lparr>sh_flow := (sh_flow sh)\<lparr>fc_receive_window := w\<rparr>\<rparr>
        \<and> unat w + length (fr_body f) = unat (fc_receive_window (sh_flow sh)))
    | Err _ \<Rightarrow> unat (fc_receive_window (sh_flow sh)) < length (fr_body f)"
  using assms
  by (auto simp: consume_receive_window_def fc_consume_receive_window_def checked_sub_def word_le_nat_alt
      unat_sub split: result.splits option.splits)

lemma insert_fresh:
  "streams_get sid s = None \<Longrightarrow> streams_insert sid a s = Some (s\<lparr>a_streams := a_streams s @ [(sid, a)]\<rparr>)"
  by (simp add: streams_insert_def Let_def streams_get_def alist_update_fresh)

text \<open>The state after a stream was opened, with its handle and its cell.\<close>

definition opened_by ::
    "('io, 'ch) env \<Rightarrow> flag \<Rightarrow> u32 \<Rightarrow> ('io, 'ch) active \<Rightarrow> stream \<Rightarrow> shared \<Rightarrow> ('io, 'ch) active \<Rightarrow> bool" where
  "opened_by env fl j s st sh s' \<longleftrightarrow> w_handles s' = w_handles s @ [st] \<and> stm_id st = j \<and> stm_flag st = fl
     \<and> streams_get j s = None \<and> a_streams s' = a_streams s @ [(j, stm_shared st)] \<and> cell (stm_shared st) s' = Some sh
     \<and> (\<forall>b \<in> set (held s). cell b s' = cell b s)
     \<and> (\<exists>ch. mx_channel (e_ch env) j (w_chan s) = (stm_sender st, ch)
          \<and> mx_clone (e_ch env) (stm_sender st) ch = (stm_window_update_sender st, w_chan s'))"

lemma make_new_inbound_chan:
  assumes "make_new_inbound_stream env j credit s = (st, s1)"
  shows "\<exists>ch. mx_channel (e_ch env) j (w_chan s) = (stm_sender st, ch)
    \<and> mx_clone (e_ch env) (stm_sender st) ch = (stm_window_update_sender st, w_chan s1)"
  using assms
  by (auto simp: make_new_inbound_stream_def stream_new_inbound_def stream_new_def Let_def split: prod.splits)

lemma windows_opened:
  assumes "opened_by env fl j s st sh s'"
  shows "streams_get sid s' = (if j = sid then Some (stm_shared st) else streams_get sid s)"
    and "may_send sid s' = (if j = sid then unat (send_window sh) else may_send sid s)"
    and "may_receive sid s' = (if j = sid then unat (fc_receive_window (sh_flow sh)) else may_receive sid s)"
proof -
  show get: "streams_get sid s' = (if j = sid then Some (stm_shared st) else streams_get sid s)"
    using assms by (auto simp: opened_by_def streams_get_def map_add_def split: option.splits)
  have "cell a s' = cell a s" if "streams_get sid s = Some a" for a
    using assms held_get [OF that] by (auto simp: opened_by_def)
  with get assms show "may_send sid s' = (if j = sid then unat (send_window sh) else may_send sid s)"
    "may_receive sid s' = (if j = sid then unat (fc_receive_window (sh_flow sh)) else may_receive sid s)"
    by (auto simp: may_send_def may_receive_def opened_by_def split: option.splits)
qed

lemma linked_opened:
  assumes "core_ok s'" and "linked sid s" and "opened_by env fl j s st sh s'"
  shows "linked sid s'"
proof -
  from assms(3) have hs: "w_handles s' = w_handles s @ [st]" and new: "stm_id st = j" "streams_get j s = None"
    and m: "a_streams s' = a_streams s @ [(j, stm_shared st)]"
    by (auto simp: opened_by_def)
  have "stm_shared st \<notin> set (held s)" "stm_shared st \<notin> set (addresses s)"
    using assms(1) unfolding core_ok_def world_ok_def map_ok_def hs m by auto
  with windows_opened(1) [OF assms(3), of sid] held_get [of sid s] new assms(2) show ?thesis
    by (auto simp: linked_def hs)
qed

lemma shifts_opened_by:
  assumes "core_ok s" and "core_ok s'" and "linked sid s" and o: "opened_by env fl j s st sh s'"
    and w: "j = sid \<Longrightarrow> unat (send_window sh) \<le> unat DEFAULT_CREDIT + credit"
      "j = sid \<Longrightarrow> unat DEFAULT_CREDIT \<le> unat (fc_receive_window (sh_flow sh)) + payload"
  shows "shifts sid s credit payload s'"
proof -
  have "may_send j s = unat DEFAULT_CREDIT" "may_receive j s = unat DEFAULT_CREDIT"
    using o by (simp_all add: opened_by_def may_send_def may_receive_def)
  with windows_opened [OF o, of sid] linked_opened [OF assms(2,3) o] w show ?thesis
    by (auto simp: shifts_def)
qed

context conn_env
begin

lemma on_data_opens:
  assumes ok: "core_ok s" and new: "streams_get (hdr_stream_id (fr_header f)) s = None"
    and len: "length (fr_body f) \<le> unat DEFAULT_CREDIT"
    and flags: "\<not> flags_contains (hdr_flags (fr_header f)) RST" "flags_contains (hdr_flags (fr_header f)) SYN"
    and valid: "is_valid_remote_id (hdr_stream_id (fr_header f)) Data s"
      "length (a_streams s) \<noteq> max_num_streams (a_config s)"
    and d: "on_data env f s = Some (act, s')"
  shows "\<exists>st sh. opened_by env Ack (hdr_stream_id (fr_header f)) s st sh s' \<and> send_window sh = DEFAULT_CREDIT
    \<and> unat (fc_receive_window (sh_flow sh)) + length (fr_body f) = unat DEFAULT_CREDIT
    \<and> chunks_bytes (sh_buffer sh) = fr_body f"
proof -
  let ?j = "hdr_stream_id (fr_header f)"
  obtain st s1 where mk: "make_new_inbound_stream env ?j DEFAULT_CREDIT s = (st, s1)"
    by (rule prod.exhaust)
  let ?a = "stm_shared st"
  from make_new_inbound_fields [OF mk] obtain now where
    s1: "a_streams s1 = a_streams s" "w_handles s1 = w_handles s @ [st]" "stm_id st = ?j" "?a < length (w_heap s1)"
      "?a = length (w_heap s)" "\<forall>b < length (w_heap s). cell b s1 = cell b s" "stm_flag st = Ack"
    and c1: "cell ?a s1 = Some (shared_new DEFAULT_CREDIT DEFAULT_CREDIT (a_config s) now)"
    by auto
  let ?sh = "shared_new DEFAULT_CREDIT DEFAULT_CREDIT (a_config s) now"
  from d new len flags valid mk obtain old s2 where
    fin: "(if flags_contains (hdr_flags (fr_header f)) FIN then cell_update_state ?a RecvClosed s1
        else Some (Open False, s1)) = Some (old, s2)"
    by (auto simp: on_data_def Let_def contains_key_def bind_eq_Some_conv)
  from finish_cell [OF fin c1] obtain t where s2: "s2 = put_cell ?a (?sh\<lparr>sh_state := t\<rparr>) s1"
    by blast
  have body: "unat (frame_body_len f) = length (fr_body f)" and small: "length (fr_body f) < 2 ^ 32"
    using len by (simp_all add: unat_frame_body_len)
  have rw: "fc_receive_window (sh_flow ?sh) = DEFAULT_CREDIT" "send_window ?sh = DEFAULT_CREDIT" "sh_buffer ?sh = chunks_new"
    by (simp_all add: shared_new_def fc_new_def send_window_def)
  obtain w where w: "consume_receive_window (frame_body_len f) (?sh\<lparr>sh_state := t\<rparr>)
      = Ok (?sh\<lparr>sh_state := t, sh_flow := (sh_flow ?sh)\<lparr>fc_receive_window := w\<rparr>\<rparr>)"
    "unat w + length (fr_body f) = unat DEFAULT_CREDIT"
    using consume_receive_cases [OF body, of "?sh\<lparr>sh_state := t\<rparr>"] len rw by (auto split: result.splits)
  let ?sh3 = "?sh\<lparr>sh_state := t, sh_flow := (sh_flow ?sh)\<lparr>fc_receive_window := w\<rparr>\<rparr>"
  obtain buf where buf: "chunks_push (fr_body f) chunks_new = Some buf" "chunks_bytes buf = fr_body f"
    using rx_buffer.push [of chunks_new "fr_body f"] rx_buffer.new small by auto
  have c2: "cell ?a s2 = Some (?sh\<lparr>sh_state := t\<rparr>)"
    using s1(4) by (simp add: s2 cell_put_cell)
  have g2: "streams_get ?j (put_cell ?a x s2) = None" for x
    using new s1(1) by (simp add: s2 streams_get_def)
  from d new len flags valid mk fin c2 w(1) buf(1) rw(3) have
    s': "s' = (put_cell ?a (?sh3\<lparr>sh_buffer := buf\<rparr>) s2)\<lparr>a_streams := a_streams s2 @ [(?j, ?a)]\<rparr>"
    by (auto simp: on_data_def Let_def contains_key_def bind_eq_Some_conv insert_fresh [OF g2] simp del: if_split)
  have "cell b s' = cell b s" if "b \<in> set (held s)" for b
    using core_ok_cell [OF ok, of b] that s1(4-6) by (auto simp: s' s2 cell_put_cell cell_Some)
  then have "opened_by env Ack ?j s st (?sh3\<lparr>sh_buffer := buf\<rparr>) s'"
    using s1 new make_new_inbound_chan [OF mk] by (simp add: opened_by_def s' s2 cell_put_cell)
  with w(2) rw(2) buf(2) show ?thesis
    by (intro exI [of _ st] exI [of _ "?sh3\<lparr>sh_buffer := buf\<rparr>"]) (simp add: send_window_def)
qed

lemma on_window_update_opens:
  assumes ok: "core_ok s" and new: "streams_get (hdr_stream_id (fr_header f)) s = None"
    and flags: "\<not> flags_contains (hdr_flags (fr_header f)) RST" "flags_contains (hdr_flags (fr_header f)) SYN"
    and valid: "is_valid_remote_id (hdr_stream_id (fr_header f)) WindowUpdate s"
      "length (a_streams s) \<noteq> max_num_streams (a_config s)"
      "checked_add (hdr_credit (fr_header f)) DEFAULT_CREDIT = Some credit"
    and d: "on_window_update env f s = Some (act, s')"
  shows "\<exists>st sh. opened_by env Ack (hdr_stream_id (fr_header f)) s st sh s' \<and> send_window sh = credit
    \<and> fc_receive_window (sh_flow sh) = DEFAULT_CREDIT \<and> chunks_bytes (sh_buffer sh) = []"
proof -
  let ?j = "hdr_stream_id (fr_header f)"
  obtain st s1 where mk: "make_new_inbound_stream env ?j credit s = (st, s1)"
    by (rule prod.exhaust)
  let ?a = "stm_shared st"
  from make_new_inbound_fields [OF mk] obtain now where
    s1: "a_streams s1 = a_streams s" "w_handles s1 = w_handles s @ [st]" "stm_id st = ?j" "?a < length (w_heap s1)"
      "?a = length (w_heap s)" "\<forall>b < length (w_heap s). cell b s1 = cell b s" "stm_flag st = Ack"
    and c1: "cell ?a s1 = Some (shared_new DEFAULT_CREDIT credit (a_config s) now)"
    by auto
  let ?sh = "shared_new DEFAULT_CREDIT credit (a_config s) now"
  from d new flags valid mk obtain old s2 where
    fin: "(if flags_contains (hdr_flags (fr_header f)) FIN then cell_update_state ?a RecvClosed s1
        else Some (Open False, s1)) = Some (old, s2)"
    by (auto simp: on_window_update_def Let_def contains_key_def bind_eq_Some_conv)
  from finish_cell [OF fin c1] obtain t where s2: "s2 = put_cell ?a (?sh\<lparr>sh_state := t\<rparr>) s1"
    by blast
  have g2: "streams_get ?j s2 = None"
    using new s1(1) by (simp add: s2 streams_get_def)
  from d new flags valid mk fin have s': "s' = s2\<lparr>a_streams := a_streams s2 @ [(?j, ?a)]\<rparr>"
    by (auto simp: on_window_update_def Let_def contains_key_def bind_eq_Some_conv insert_fresh [OF g2] simp del: if_split)
  have "cell b s' = cell b s" if "b \<in> set (held s)" for b
    using core_ok_cell [OF ok, of b] that s1(4-6) by (auto simp: s' s2 cell_put_cell cell_Some)
  then have "opened_by env Ack ?j s st (?sh\<lparr>sh_state := t\<rparr>) s'"
    using s1 new make_new_inbound_chan [OF mk] by (simp add: opened_by_def s' s2 cell_put_cell)
  then show ?thesis
    using rx_buffer.new
    by (intro exI [of _ st] exI [of _ "?sh\<lparr>sh_state := t\<rparr>"]) (simp add: send_window_def shared_new_def fc_new_def)
qed

lemma shifts_data_new:
  assumes ok: "core_ok s" "core_ok s'" and lk: "linked sid s" and new: "streams_get (hdr_stream_id (fr_header f)) s = None"
    and len: "length (fr_body f) \<le> unat DEFAULT_CREDIT" and tag: "hdr_tag (fr_header f) = Data"
    and flags: "\<not> flags_contains (hdr_flags (fr_header f)) RST" "flags_contains (hdr_flags (fr_header f)) SYN"
    and valid: "is_valid_remote_id (hdr_stream_id (fr_header f)) Data s"
      "length (a_streams s) \<noteq> max_num_streams (a_config s)"
    and d: "on_data env f s = Some (act, s')"
  shows "shifts sid s 0 (frame_payload sid f) s'"
proof -
  from on_data_opens [OF ok(1) new len flags valid d] obtain st sh where
    "opened_by env Ack (hdr_stream_id (fr_header f)) s st sh s'" "send_window sh = DEFAULT_CREDIT"
    "unat (fc_receive_window (sh_flow sh)) + length (fr_body f) = unat DEFAULT_CREDIT"
    by blast
  with tag show ?thesis
    by (intro shifts_opened_by [OF ok lk]) (auto simp: frame_payload_def)
qed

lemma shifts_window_update_new:
  assumes ok: "core_ok s" "core_ok s'" and lk: "linked sid s" and new: "streams_get (hdr_stream_id (fr_header f)) s = None"
    and tag: "hdr_tag (fr_header f) = WindowUpdate"
    and flags: "\<not> flags_contains (hdr_flags (fr_header f)) RST" "flags_contains (hdr_flags (fr_header f)) SYN"
    and valid: "is_valid_remote_id (hdr_stream_id (fr_header f)) WindowUpdate s"
      "length (a_streams s) \<noteq> max_num_streams (a_config s)"
      "checked_add (hdr_credit (fr_header f)) DEFAULT_CREDIT = Some credit"
    and d: "on_window_update env f s = Some (act, s')"
  shows "shifts sid s (frame_credit sid f) 0 s'"
proof -
  from on_window_update_opens [OF ok(1) new flags valid d] obtain st sh where
    "opened_by env Ack (hdr_stream_id (fr_header f)) s st sh s'" "send_window sh = credit"
    "fc_receive_window (sh_flow sh) = DEFAULT_CREDIT"
    by blast
  with tag valid(3) show ?thesis
    by (intro shifts_opened_by [OF ok lk]) (auto simp: frame_credit_def checked_add_Some_iff)
qed

end

subsection \<open>Frames for open streams\<close>

lemma windows_put:
  assumes "core_ok s" and "core_ok s'" and get: "streams_get j s = Some b"
    and sh: "cell b s = Some sh" and fl: "flows (put_cell b sh1 s) s'"
    and m: "a_streams s' = a_streams s \<or> a_streams s' = AList.delete j (a_streams s)" and "keeps sid s s'"
  shows "streams_get sid s' = streams_get sid s"
    and "may_send sid s' = (if j = sid then unat (send_window sh1) else may_send sid s)
      \<and> may_receive sid s' = (if j = sid then unat (fc_receive_window (sh_flow sh1)) else may_receive sid s)"
proof -
  show same: "streams_get sid s' = streams_get sid s"
    using m assms(7) by (cases "streams_get sid s") (auto simp: keeps_def streams_get_def delete_conv' split: if_splits)
  show "may_send sid s' = (if j = sid then unat (send_window sh1) else may_send sid s)
      \<and> may_receive sid s' = (if j = sid then unat (fc_receive_window (sh_flow sh1)) else may_receive sid s)"
  proof (cases "streams_get sid s")
    case None
    with same get show ?thesis
      by (auto simp: may_send_def may_receive_def)
  next
    case (Some a)
    have b: "b < length (w_heap s)"
      using sh by (simp add: cell_Some)
    obtain sh' where sh': "cell a s' = Some sh'"
      using core_ok_held [OF assms(2), of sid a] same Some by auto
    then obtain sh0 where sh0: "(if a = b then Some sh1 else cell a s) = Some sh0" "sh_flow sh' = sh_flow sh0"
      using fl b by (auto simp: flows_def cell_put_cell)
    show ?thesis
    proof (cases "j = sid")
      case True
      with get Some have "a = b" by simp
      with True sh0 sh' same Some show ?thesis
        by (simp add: may_send_def may_receive_def send_window_def)
    next
      case False
      have "distinct (held s)"
        using assms(1) by (simp add: core_ok_def map_ok_def)
      then have "a \<noteq> b"
        using False get Some inj_onD [of snd "set (a_streams s)" "(j, b)" "(sid, b)"]
        by (auto simp: streams_get_def distinct_map dest!: map_of_SomeD)
      with sh0 sh' same Some False show ?thesis
        by (simp add: may_send_def may_receive_def send_window_def)
    qed
  qed
qed

text \<open>A frame for a stream that is open is refused or changes the cell of the stream.\<close>

definition changed_by ::
    "u32 \<Rightarrow> nat \<Rightarrow> nat \<Rightarrow> bytes \<Rightarrow> ('io, 'ch) active \<Rightarrow> ('io, 'ch) active \<Rightarrow> bool" where
  "changed_by j credit payload bs s s' \<longleftrightarrow> (\<exists>b sh sh'. streams_get j s = Some b \<and> cell b s = Some sh
     \<and> flows (put_cell b sh' s) s' \<and> (a_streams s' = a_streams s \<or> a_streams s' = AList.delete j (a_streams s))
     \<and> unat (send_window sh') = unat (send_window sh) + credit
     \<and> unat (fc_receive_window (sh_flow sh)) = unat (fc_receive_window (sh_flow sh')) + payload
     \<and> chunks_bytes (sh_buffer sh') = chunks_bytes (sh_buffer sh) @ bs)"

lemma on_data_changes:
  assumes ok: "core_ok s" and get: "streams_get (hdr_stream_id (fr_header f)) s = Some b"
    and body: "length (fr_body f) < 2 ^ 32"
    and flags: "\<not> flags_contains (hdr_flags (fr_header f)) RST" "\<not> flags_contains (hdr_flags (fr_header f)) SYN"
    and d: "on_data env f s = Some (act, s')"
  shows "s' = s \<and> may_receive (hdr_stream_id (fr_header f)) s < length (fr_body f)
    \<or> changed_by (hdr_stream_id (fr_header f)) 0 (length (fr_body f)) (fr_body f) s s'"
proof -
  let ?j = "hdr_stream_id (fr_header f)" and ?fin = "flags_contains (hdr_flags (fr_header f)) FIN"
  obtain sh where sh: "cell b s = Some sh"
    using core_ok_held [OF ok get] by blast
  show ?thesis
  proof (cases "consume_receive_window (frame_body_len f) sh")
    case (Err e)
    with d get sh flags consume_receive_cases [OF unat_frame_body_len [OF body], of sh] show ?thesis
      by (auto simp: on_data_def Let_def may_receive_def)
  next
    case (Ok sh1)
    with consume_receive_cases [OF unat_frame_body_len [OF body], of sh] obtain w where
      sh1: "sh1 = sh\<lparr>sh_flow := (sh_flow sh)\<lparr>fc_receive_window := w\<rparr>\<rparr>"
        "unat w + length (fr_body f) = unat (fc_receive_window (sh_flow sh))"
      by auto
    let ?sh2 = "if ?fin then snd (update_state RecvClosed sh1) else sh1"
    from d get sh flags Ok obtain buf s2 where
      push: "chunks_push (fr_body f) (sh_buffer sh) = Some buf"
      and s2: "wake_reader b (put_cell b (?sh2\<lparr>sh_buffer := buf\<rparr>) s) = Some s2"
      and s': "(if ?fin \<and> sh_state ?sh2 = Closed then streams_remove ?j s2 else Some s2) = Some s'"
      by (auto simp: on_data_def Let_def bind_eq_Some_conv update_state_def sh1(1) simp del: if_split split: if_split_asm)
    have m2: "a_streams s2 = a_streams s"
      using streams_same(1) [OF s2] by simp
    have "flows s2 s' \<and> (a_streams s' = a_streams s \<or> a_streams s' = AList.delete ?j (a_streams s))"
      using s' flows_remove [of ?j s2 s'] m2 by (auto simp: flows_refl split: if_splits)
    with flows_wake(1) [OF s2] have fl: "flows (put_cell b (?sh2\<lparr>sh_buffer := buf\<rparr>) s) s'"
      and m: "a_streams s' = a_streams s \<or> a_streams s' = AList.delete ?j (a_streams s)"
      by (auto intro: flows_trans)
    have "chunks_bytes buf = chunks_bytes (sh_buffer sh) @ fr_body f"
      using receive_data_ok [OF shared_ok_held [OF ok get sh] body Ok] push by auto
    with sh1 fl m get sh show ?thesis
      unfolding changed_by_def
      by (intro disjI2 exI [of _ b] exI [of _ sh] exI [of _ "?sh2\<lparr>sh_buffer := buf\<rparr>"])
        (auto simp: update_state_def send_window_def)
  qed
qed

lemma on_window_update_changes:
  assumes ok: "core_ok s" and get: "streams_get (hdr_stream_id (fr_header f)) s = Some b"
    and flags: "\<not> flags_contains (hdr_flags (fr_header f)) RST" "\<not> flags_contains (hdr_flags (fr_header f)) SYN"
    and d: "on_window_update env f s = Some (act, s')"
  shows "s' = s \<and> 2 ^ 32 \<le> may_send (hdr_stream_id (fr_header f)) s + unat (hdr_credit (fr_header f))
    \<or> changed_by (hdr_stream_id (fr_header f)) (unat (hdr_credit (fr_header f))) 0 [] s s'"
proof -
  let ?j = "hdr_stream_id (fr_header f)" and ?fin = "flags_contains (hdr_flags (fr_header f)) FIN"
  obtain sh where sh: "cell b s = Some sh"
    using core_ok_held [OF ok get] by blast
  show ?thesis
  proof (cases "increase_send_window_by (hdr_credit (fr_header f)) sh")
    case (Err e)
    then have "2 ^ 32 \<le> may_send ?j s + unat (hdr_credit (fr_header f))"
      using get sh by (auto simp: increase_send_window_by_def fc_increase_send_window_by_def may_send_def send_window_def
          checked_add_def split: result.splits option.splits if_splits)
    with Err d get sh flags show ?thesis
      by (auto simp: on_window_update_def Let_def)
  next
    case (Ok sh1)
    then obtain w where
      sh1: "sh1 = sh\<lparr>sh_flow := (sh_flow sh)\<lparr>fc_send_window := w\<rparr>\<rparr>"
        "unat w = unat (send_window sh) + unat (hdr_credit (fr_header f))"
      by (auto simp: increase_send_window_by_def fc_increase_send_window_by_def send_window_def checked_add_Some_iff
          split: result.splits option.splits)
    let ?sh2 = "if ?fin then snd (update_state RecvClosed sh1) else sh1"
    from d get sh flags Ok obtain s2 s3 where
      s2: "(if ?fin then wake_reader b (put_cell b ?sh2 s) else Some (put_cell b ?sh2 s)) = Some s2"
      and s3: "wake_writer b s2 = Some s3"
      and s': "(if ?fin \<and> sh_state ?sh2 = Closed then streams_remove ?j s3 else Some s3) = Some s'"
      by (auto simp: on_window_update_def Let_def bind_eq_Some_conv simp del: if_split)
    have m2: "a_streams s2 = a_streams s" "flows (put_cell b ?sh2 s) s2"
      using s2 streams_same(1) [of b _ s2] flows_wake(1) [of b _ s2] by (auto simp: flows_refl split: if_splits)
    then have m3: "a_streams s3 = a_streams s" "flows (put_cell b ?sh2 s) s3"
      using streams_same(2) [OF s3] flows_wake(2) [OF s3] by (auto intro: flows_trans)
    have "flows s3 s' \<and> (a_streams s' = a_streams s \<or> a_streams s' = AList.delete ?j (a_streams s))"
      using s' flows_remove [of ?j s3 s'] m3(1) by (auto simp: flows_refl split: if_splits)
    with m3(2) have fl: "flows (put_cell b ?sh2 s) s'"
      and m: "a_streams s' = a_streams s \<or> a_streams s' = AList.delete ?j (a_streams s)"
      by (auto intro: flows_trans)
    with get sh sh1 show ?thesis
      unfolding changed_by_def
      by (intro disjI2 exI [of _ b] exI [of _ sh] exI [of _ ?sh2]) (auto simp: update_state_def send_window_def)
  qed
qed

lemma windows_changed:
  assumes "core_ok s" and "core_ok s'" and "keeps sid s s'" and "changed_by j credit payload bs s s'"
  shows "streams_get sid s' = streams_get sid s" and "w_handles s' = w_handles s"
    and "may_send sid s' = may_send sid s + (if j = sid then credit else 0)"
    and "may_receive sid s = may_receive sid s' + (if j = sid then payload else 0)"
proof -
  from assms(4) obtain b sh sh' where
    get: "streams_get j s = Some b" and sh: "cell b s = Some sh" and fl: "flows (put_cell b sh' s) s'"
    and m: "a_streams s' = a_streams s \<or> a_streams s' = AList.delete j (a_streams s)"
    and w: "unat (send_window sh') = unat (send_window sh) + credit"
      "unat (fc_receive_window (sh_flow sh)) = unat (fc_receive_window (sh_flow sh')) + payload"
    unfolding changed_by_def by blast
  note p = windows_put [OF assms(1,2) get sh fl m assms(3)]
  show "streams_get sid s' = streams_get sid s" "w_handles s' = w_handles s"
    using p(1) fl by (simp_all add: flows_def)
  show "may_send sid s' = may_send sid s + (if j = sid then credit else 0)"
    "may_receive sid s = may_receive sid s' + (if j = sid then payload else 0)"
    using p(2) w get sh by (auto simp: may_send_def may_receive_def)
qed

lemma shifts_changed:
  assumes "core_ok s" and "core_ok s'" and "linked sid s" and "keeps sid s s'"
    and "changed_by j credit payload bs s s'"
  shows "shifts sid s (if j = sid then credit else 0) (if j = sid then payload else 0) s'"
  using assms(3) windows_changed [OF assms(1,2,4,5)] by (simp add: shifts_def linked_def)

lemma shifts_reset:
  assumes "core_ok s'" and "linked sid s" and "keeps sid s s'" and "on_reset j s = Some s'"
  shows "shifts sid s c p s'"
  using assms flows_reset [OF assms(4)] by (intro shifts_removed [of s' sid s j]) auto

context conn_env
begin

lemma shifts_data:
  assumes ok: "core_ok s" and lk: "linked sid s" and kp: "keeps sid s s'"
    and body: "length (fr_body f) < 2 ^ 32" and tag: "hdr_tag (fr_header f) = Data"
    and d: "on_data env f s = Some (act, s')"
  shows "shifts sid s 0 (frame_payload sid f) s'"
proof -
  let ?j = "hdr_stream_id (fr_header f)" and ?fl = "hdr_flags (fr_header f)"
  have ok': "core_ok s'"
    using on_data_ok [OF ok body] d by (auto simp: handles_def)
  have stay: "shifts sid s c p s'" if "s' = s" for c p
    using shifts_flows [OF ok lk flows_refl refl] that by simp
  consider (rst) "flags_contains ?fl RST"
    | (syn) "\<not> flags_contains ?fl RST" "flags_contains ?fl SYN"
    | (other) "\<not> flags_contains ?fl RST" "\<not> flags_contains ?fl SYN"
    by blast
  then show ?thesis
  proof cases
    case rst
    with d have "on_reset ?j s = Some s'"
      by (auto simp: on_data_def Let_def bind_eq_Some_conv)
    with ok' lk kp show ?thesis
      by (rule shifts_reset)
  next
    case syn
    show ?thesis
    proof (cases "is_valid_remote_id ?j Data s \<and> \<not> contains_key ?j s
        \<and> length (a_streams s) \<noteq> max_num_streams (a_config s) \<and> length (fr_body f) \<le> unat DEFAULT_CREDIT")
      case False
      with syn d have "s' = s"
        by (auto simp: on_data_def Let_def split: if_splits)
      then show ?thesis by (rule stay)
    next
      case True
      then show ?thesis
        using shifts_data_new [OF ok ok' lk _ _ tag syn _ _ d] by (simp add: contains_key_def)
    qed
  next
    case other
    show ?thesis
    proof (cases "streams_get ?j s")
      case None
      with other d have "s' = s"
        by (auto simp: on_data_def Let_def)
      then show ?thesis by (rule stay)
    next
      case (Some b)
      from on_data_changes [OF ok Some body other d] show ?thesis
        using stay shifts_changed [OF ok ok' lk kp] tag by (fastforce simp: frame_payload_def)
    qed
  qed
qed

lemma shifts_window_update:
  assumes ok: "core_ok s" and lk: "linked sid s" and kp: "keeps sid s s'"
    and tag: "hdr_tag (fr_header f) = WindowUpdate"
    and d: "on_window_update env f s = Some (act, s')"
  shows "shifts sid s (frame_credit sid f) 0 s'"
proof -
  let ?j = "hdr_stream_id (fr_header f)" and ?fl = "hdr_flags (fr_header f)"
  have ok': "core_ok s'"
    using on_window_update_ok [OF ok, of f] d by (auto simp: handles_def)
  have stay: "shifts sid s c p s'" if "s' = s" for c p
    using shifts_flows [OF ok lk flows_refl refl] that by simp
  consider (rst) "flags_contains ?fl RST"
    | (syn) "\<not> flags_contains ?fl RST" "flags_contains ?fl SYN"
    | (other) "\<not> flags_contains ?fl RST" "\<not> flags_contains ?fl SYN"
    by blast
  then show ?thesis
  proof cases
    case rst
    with d have "on_reset ?j s = Some s'"
      by (auto simp: on_window_update_def Let_def bind_eq_Some_conv)
    with ok' lk kp show ?thesis
      by (rule shifts_reset)
  next
    case syn
    show ?thesis
    proof (cases "is_valid_remote_id ?j WindowUpdate s \<and> \<not> contains_key ?j s
        \<and> length (a_streams s) \<noteq> max_num_streams (a_config s)
        \<and> checked_add (hdr_credit (fr_header f)) DEFAULT_CREDIT \<noteq> None")
      case False
      with syn d have "s' = s"
        by (auto simp: on_window_update_def Let_def split: if_splits)
      then show ?thesis by (rule stay)
    next
      case True
      then show ?thesis
        using shifts_window_update_new [OF ok ok' lk _ tag syn _ _ _ d] by (auto simp: contains_key_def)
    qed
  next
    case other
    show ?thesis
    proof (cases "streams_get ?j s")
      case None
      with other d have "s' = s"
        by (auto simp: on_window_update_def Let_def)
      then show ?thesis by (rule stay)
    next
      case (Some b)
      from on_window_update_changes [OF ok Some other d] show ?thesis
        using stay shifts_changed [OF ok ok' lk kp] tag by (fastforce simp: frame_credit_def)
    qed
  qed
qed

end

subsection \<open>Every frame\<close>

lemma shifts_trans:
  "shifts sid s c p t \<Longrightarrow> shifts sid t d q u \<Longrightarrow> shifts sid s (c + d) (p + q) u"
  by (auto simp: shifts_def)

context conn_env
begin

text \<open>The handling of a frame once its \<open>ACK\<close> has been noted.\<close>

lemma on_frame_acked:
  assumes ok: "core_ok s"
  shows "\<exists>s1. core_ok s1 \<and> quiet s s1 \<and> flows s s1 \<and> a_streams s1 = a_streams s \<and> on_frame env f s =
     (if \<not> flags_contains (hdr_flags (fr_header f)) SYN \<and> hdr_tag (fr_header f) \<in> {Data, WindowUpdate}
         \<and> \<not> contains_key (hdr_stream_id (fr_header f)) s1 then Some (Ok ActNone, s1)
      else case hdr_tag (fr_header f) of
         Data \<Rightarrow> do { (act, s) \<leftarrow> on_data env f s1; Some (Ok act, s) }
       | WindowUpdate \<Rightarrow> do { (act, s) \<leftarrow> on_window_update env f s1; Some (Ok act, s) }
       | Ping \<Rightarrow> (let (act, s) = on_ping env f s1 in Some (Ok act, s))
       | GoAway \<Rightarrow> Some (Err Closed_Error, s1))"
proof -
  let ?j = "hdr_stream_id (fr_header f)" and ?fl = "hdr_flags (fr_header f)" and ?tag = "hdr_tag (fr_header f)"
  from ack_ok [OF ok, of "flags_contains ?fl ACK \<and> ?tag \<in> {Data, WindowUpdate}" ?j] obtain s1 where
    a: "(if flags_contains ?fl ACK \<and> ?tag \<in> {Data, WindowUpdate} then do {
             s \<leftarrow> (case streams_get ?j s of
                     None \<Rightarrow> Some s
                   | Some a \<Rightarrow> do { (_, s) \<leftarrow> cell_update_state a (Open True) s; Some s });
             Some (s\<lparr>w_woken := wake (a_new_outbound_stream_waker s) (w_woken s),
                     a_new_outbound_stream_waker := None\<rparr>) }
           else Some s) = Some s1" and "quiet s s1"
    by blast
  moreover have "flows s s1 \<and> a_streams s1 = a_streams s"
    using a by (auto simp: flows_refl flows_fields bind_eq_Some_conv dest: flows_update_state streams_same(3)
        split: if_splits option.splits)
  moreover have "on_frame env f s =
     (if \<not> flags_contains ?fl SYN \<and> ?tag \<in> {Data, WindowUpdate} \<and> \<not> contains_key ?j s1 then Some (Ok ActNone, s1)
      else case ?tag of
         Data \<Rightarrow> do { f \<leftarrow> frame_into_data f; (act, s) \<leftarrow> on_data env f s1; Some (Ok act, s) }
       | WindowUpdate \<Rightarrow> do {
           f \<leftarrow> frame_into_window_update f; (act, s) \<leftarrow> on_window_update env f s1; Some (Ok act, s) }
       | Ping \<Rightarrow> do { f \<leftarrow> frame_into_ping f; let (act, s) = on_ping env f s1; Some (Ok act, s) }
       | GoAway \<Rightarrow> Some (Err Closed_Error, s1))"
    unfolding on_frame_def Let_def a Option.bind.simps ..
  ultimately show ?thesis
    by (intro exI [of _ s1]) (simp add: quiet_def Let_def split: tag.splits)
qed

lemma shifts_frame:
  assumes ok: "core_ok s" and lk: "linked sid s" and kp: "keeps sid s s'" and f: "frame_ok f"
    and d: "on_frame env f s = Some (r, s')"
  shows "shifts sid s (frame_credit sid f) (frame_payload sid f) s'"
proof -
  let ?j = "hdr_stream_id (fr_header f)" and ?fl = "hdr_flags (fr_header f)" and ?tag = "hdr_tag (fr_header f)"
  from on_frame_acked [OF ok, of f] obtain s1 where ok1: "core_ok s1"
    and s1: "flows s s1" "a_streams s1 = a_streams s" and red: "on_frame env f s =
     (if \<not> flags_contains ?fl SYN \<and> ?tag \<in> {Data, WindowUpdate} \<and> \<not> contains_key ?j s1 then Some (Ok ActNone, s1)
      else case ?tag of
         Data \<Rightarrow> do { (act, s) \<leftarrow> on_data env f s1; Some (Ok act, s) }
       | WindowUpdate \<Rightarrow> do { (act, s) \<leftarrow> on_window_update env f s1; Some (Ok act, s) }
       | Ping \<Rightarrow> (let (act, s) = on_ping env f s1 in Some (Ok act, s))
       | GoAway \<Rightarrow> Some (Err Closed_Error, s1))"
    by blast
  have get1: "streams_get j s1 = streams_get j s" for j
    using s1(2) by (simp add: streams_get_def)
  have sh1: "shifts sid s 0 0 s1"
    using s1 get1 by (intro shifts_flows [OF ok1 lk]) simp_all
  then have lk1: "linked sid s1" and kp1: "keeps sid s1 s'"
    using kp get1 by (simp_all add: shifts_def keeps_def)
  have rest: "shifts sid s (frame_credit sid f) (frame_payload sid f) s'"
    if "shifts sid s1 (frame_credit sid f) (frame_payload sid f) s'"
    using shifts_trans [OF sh1 that] by simp
  have stay: "shifts sid s1 c p s'" if "flows s1 s'" "a_streams s' = a_streams s1" "core_ok s'" for c p
    using that by (intro shifts_flows lk1) (simp_all add: streams_get_def)
  show ?thesis
  proof (cases "\<not> flags_contains ?fl SYN \<and> ?tag \<in> {Data, WindowUpdate} \<and> \<not> contains_key ?j s1")
    case True
    with d ok1 show ?thesis
      unfolding red by (intro rest stay) (simp_all add: flows_refl)
  next
    case False
    note d' = d [unfolded red if_not_P [OF False]]
    show ?thesis
    proof (cases ?tag)
      case Data
      then obtain act where "on_data env f s1 = Some (act, s')"
        using d' by (auto simp: bind_eq_Some_conv)
      from shifts_data [OF ok1 lk1 kp1 _ Data this] body_bound [OF f] show ?thesis
        using Data by (intro rest) (simp add: frame_credit_def)
    next
      case WindowUpdate
      then obtain act where "on_window_update env f s1 = Some (act, s')"
        using d' by (auto simp: bind_eq_Some_conv)
      from shifts_window_update [OF ok1 lk1 kp1 WindowUpdate this] show ?thesis
        using WindowUpdate by (intro rest) (simp add: frame_payload_def)
    next
      case Ping
      then obtain act where p: "on_ping env f s1 = (act, s')"
        using d' by (auto split: prod.splits)
      then have "flows s1 s'" "a_streams s' = a_streams s1"
        by (auto simp: on_ping_def Let_def flows_def split: if_splits prod.splits)
      with on_ping_ok [OF ok1 p] show ?thesis
        by (intro rest stay) (auto simp: handles_def)
    next
      case GoAway
      with d' ok1 show ?thesis
        by (intro rest stay) (simp_all add: flows_refl)
    qed
  qed
qed

text \<open>The answers to frames are not frames of a stream, so carry neither payload nor credit.\<close>

lemma reply_tags:
  assumes "on_frame env f s = Some (Ok act, s')"
  shows "\<forall>g. act = ActPing g \<or> act = ActTerminate g \<longrightarrow> hdr_tag (fr_header g) \<in> {Ping, GoAway}"
proof -
  note t = frame_protocol_error_def frame_internal_error_def frame_new_def hdr_ack_def header_ping_def
    header_protocol_error_def header_internal_error_def header_go_away_def
  have 1: "\<forall>g. act = ActPing g \<or> act = ActTerminate g \<longrightarrow> hdr_tag (fr_header g) \<in> {Ping, GoAway}"
    if "on_data env f s1 = Some (act, s2)" for s1 s2
    using that by (auto simp: on_data_def Let_def bind_eq_Some_conv t
        split: if_splits option.splits result.splits prod.splits; metis result.exhaust)
  have 2: "\<forall>g. act = ActPing g \<or> act = ActTerminate g \<longrightarrow> hdr_tag (fr_header g) \<in> {Ping, GoAway}"
    if "on_window_update env f s1 = Some (act, s2)" for s1 s2
    using that by (auto simp: on_window_update_def Let_def bind_eq_Some_conv t
        split: if_splits option.splits result.splits prod.splits; metis result.exhaust)
  have 3: "\<forall>g. act = ActPing g \<or> act = ActTerminate g \<longrightarrow> hdr_tag (fr_header g) \<in> {Ping, GoAway}"
    if "on_ping env f s1 = (act, s2)" for s1 s2
    using that by (auto simp: on_ping_def handle_pong_def Let_def t
        split: if_splits prod.splits rtt_state.splits)
  show ?thesis
    using assms 1 2 3
    by (cases "hdr_tag (fr_header f)")
      (auto simp: on_frame_def Let_def bind_eq_Some_conv split: if_splits prod.splits)
qed

lemma reply_weights:
  assumes "on_frame env f s = Some (Ok act, s')"
  shows "\<forall>g. act = ActPing g \<or> act = ActTerminate g \<longrightarrow> frame_payload j g = 0 \<and> frame_credit j g = 0"
  using reply_tags [OF assms] by (auto simp: frame_payload_def frame_credit_def)

end

subsection \<open>The account of a connection\<close>

text \<open>What is on its way out: in the command channels and in the two slots of the connection.\<close>

definition pending_weight :: "(frame \<Rightarrow> nat) \<Rightarrow> frame option \<Rightarrow> nat" where
  "pending_weight g fo = (case fo of Some f \<Rightarrow> g f | None \<Rightarrow> 0)"

definition payload_due :: "('ch \<Rightarrow> stream_command multiset) \<Rightarrow> u32 \<Rightarrow> ('io, 'ch) active \<Rightarrow> nat" where
  "payload_due queued sid s = queue_payload sid (queued (w_chan s))
     + pending_weight (frame_payload sid) (a_pending_write_frame s)
     + pending_weight (frame_payload sid) (a_pending_read_frame s)"

definition credit_due :: "('ch \<Rightarrow> stream_command multiset) \<Rightarrow> u32 \<Rightarrow> ('io, 'ch) active \<Rightarrow> nat" where
  "credit_due queued sid s = queue_credit sid (queued (w_chan s))
     + pending_weight (frame_credit sid) (a_pending_write_frame s)
     + pending_weight (frame_credit sid) (a_pending_read_frame s)"

definition frames_payload :: "u32 \<Rightarrow> frame list \<Rightarrow> nat" where
  "frames_payload sid fs = sum_list (map (frame_payload sid) fs)"

definition frames_credit :: "u32 \<Rightarrow> frame list \<Rightarrow> nat" where
  "frames_credit sid fs = sum_list (map (frame_credit sid) fs)"

lemma pending_weight_simps [simp]:
  "pending_weight g None = 0" "pending_weight g (Some f) = g f"
  by (simp_all add: pending_weight_def)

lemma frames_weight_simps [simp]:
  "frames_payload sid [] = 0" "frames_payload sid (f # fs) = frame_payload sid f + frames_payload sid fs"
  "frames_payload sid (fs @ gs) = frames_payload sid fs + frames_payload sid gs"
  "frames_credit sid [] = 0" "frames_credit sid (f # fs) = frame_credit sid f + frames_credit sid fs"
  "frames_credit sid (fs @ gs) = frames_credit sid fs + frames_credit sid gs"
  by (simp_all add: frames_payload_def frames_credit_def)

text \<open>
  A step that sends \<open>ss\<close> and receives \<open>gs\<close> takes from the send window what it puts on its way, and
  puts no more credit on its way than it adds to the receive window.
\<close>

definition accounts ::
    "('ch \<Rightarrow> stream_command multiset) \<Rightarrow> u32 \<Rightarrow> ('io, 'ch) active \<Rightarrow> frame list \<Rightarrow> frame list \<Rightarrow> ('io, 'ch) active \<Rightarrow> bool" where
  "accounts queued sid s ss gs s' \<longleftrightarrow> linked sid s'
     \<and> may_send sid s' + payload_due queued sid s' + frames_payload sid ss
         \<le> may_send sid s + payload_due queued sid s + frames_credit sid gs
     \<and> may_receive sid s + credit_due queued sid s' + frames_credit sid ss
         \<le> may_receive sid s' + credit_due queued sid s + frames_payload sid gs"

lemma accounts_shifts:
  assumes "shifts sid s (frames_credit sid gs) (frames_payload sid gs) s'"
    and "payload_due queued sid s' + frames_payload sid ss = payload_due queued sid s"
    and "credit_due queued sid s' + frames_credit sid ss = credit_due queued sid s"
  shows "accounts queued sid s ss gs s'"
  using assms by (auto simp: accounts_def shifts_def)

lemma accounts_moved:
  assumes "linked sid s" and "w_handles s' = w_handles s" and "w_heap s' = w_heap s" and "a_streams s' = a_streams s"
    and "payload_due queued sid s' + frames_payload sid ss = payload_due queued sid s"
    and "credit_due queued sid s' + frames_credit sid ss = credit_due queued sid s"
  shows "accounts queued sid s ss [] s'"
proof -
  have "linked sid s'" "may_send sid s' = may_send sid s" "may_receive sid s' = may_receive sid s"
    using assms(1-3) windows_cong [OF assms(4), of sid] by (simp_all add: cell_def)
  with assms(5,6) show ?thesis
    by (simp add: accounts_def)
qed

text \<open>The part of the connection's invariant that does not concern the socket.\<close>

definition peer_ok :: "('ch \<Rightarrow> stream_command multiset) \<Rightarrow> ('io, 'ch) active \<Rightarrow> bool" where
  "peer_ok queued s \<longleftrightarrow> core_ok s \<and> (\<forall>c \<in># queued (w_chan s). cmd_ok c)
     \<and> (\<forall>f. a_pending_read_frame s = Some f \<longrightarrow> frame_ok f)
     \<and> (\<forall>f. a_pending_write_frame s = Some f \<longrightarrow> frame_ok f)"

lemma active_ok_peer: "active_ok queued s \<Longrightarrow> peer_ok queued s"
  by (simp add: active_ok_def io_ok_def peer_ok_def)

fun sent_by :: "label \<Rightarrow> frame list" where
  "sent_by (Sent f) = [f]"
| "sent_by _ = []"

fun got_by :: "label \<Rightarrow> frame list" where
  "got_by (Got f) = [f]"
| "got_by _ = []"

context conn_env
begin

lemma queue_reply_fields:
  "w_handles (queue_reply act s) = w_handles s" "cell a (queue_reply act s) = cell a s"
  "a_streams (queue_reply act s) = a_streams s" "w_chan (queue_reply act s) = w_chan s"
  "a_pending_write_frame (queue_reply act s) = a_pending_write_frame s" "core_ok (queue_reply act s) = core_ok s"
  by (cases "(act, s)" rule: queue_reply.cases; simp)+

lemma got_accounts:
  assumes ok: "peer_ok queued s" and lk: "linked sid s" and f: "frame_ok f"
    and none: "a_pending_read_frame s = None" and d: "on_frame env f s = Some (r, s1)"
    and t: "t = (case r of Ok act \<Rightarrow> queue_reply act s1 | Err e \<Rightarrow> s1)" and kp: "keeps sid s t"
  shows "accounts queued sid s [] [f] t \<and> peer_ok queued t"
proof -
  have core: "core_ok s"
    using ok by (simp add: peer_ok_def)
  from on_frame_ok [OF core f] d have h: "handles s s1" "\<forall>act. r = Ok act \<longrightarrow> action_ok act"
    by auto
  have eq: "w_handles t = w_handles s1" "\<And>a. cell a t = cell a s1" "a_streams t = a_streams s1" "w_chan t = w_chan s1"
    "a_pending_write_frame t = a_pending_write_frame s1" "core_ok t = core_ok s1"
    by (simp_all add: t queue_reply_fields split: result.splits)
  have "keeps sid s s1"
    using kp eq(3) by (simp add: keeps_def streams_get_def)
  from shifts_frame [OF core lk this f d] have
    "shifts sid s (frame_credit sid f) (frame_payload sid f) t"
    using windows_cong [OF eq(3,2), of sid] eq(1) by (simp add: shifts_def)
  moreover have p: "pending_weight (frame_payload j) (a_pending_read_frame t) = 0
      \<and> pending_weight (frame_credit j) (a_pending_read_frame t) = 0" for j
  proof (cases r)
    case (Ok act)
    then show ?thesis
      using reply_weights [of f s act s1 j] d none h(1)
      by (cases act) (auto simp: t handles_def same_io_def)
  next
    case (Err e)
    with none h(1) show ?thesis
      by (simp add: t handles_def same_io_def)
  qed
  ultimately have "accounts queued sid s [] [f] t"
    using h(1) none eq by (intro accounts_shifts) (simp_all add: payload_due_def credit_due_def handles_def same_io_def)
  moreover have "peer_ok queued t"
  proof -
    have "\<forall>g. a_pending_read_frame t = Some g \<longrightarrow> frame_ok g"
    proof (cases r)
      case (Ok act)
      with h none show ?thesis
        by (cases act) (auto simp: t handles_def same_io_def)
    next
      case (Err e)
      with none h(1) show ?thesis
        by (simp add: t handles_def same_io_def)
    qed
    with ok h(1) eq show ?thesis
      by (simp add: peer_ok_def handles_def same_io_def)
  qed
  ultimately show ?thesis by blast
qed

end

context duplex_env
begin

lemma peer_step_accounts:
  assumes "peer_step env s l s'" and ok: "peer_ok queued s" and lk: "linked sid s" and kp: "keeps sid s s'"
    and "\<forall>f \<in> set (got_by l). frame_ok f"
  shows "accounts queued sid s (sent_by l) (got_by l) s' \<and> peer_ok queued s' \<and> (\<forall>f \<in> set (sent_by l). frame_ok f)"
  using assms(1)
proof cases
  case (io k)
  with ok lk show ?thesis
    by (auto simp: peer_ok_def payload_due_def credit_due_def intro!: accounts_moved)
next
  case (ping p rt)
  have "core_ok (s\<lparr>w_rtt := rt\<rparr>)"
    using core_ok_rtt [of s rt] next_ping_effect [OF ping(3)] ok by (simp add: peer_ok_def)
  moreover have "frame_ok f \<and> frame_payload sid f = 0 \<and> frame_credit sid f = 0" if "p = Some f" for f
    using ping(3) next_ping_effect [OF ping(3)] that by (auto simp: next_ping_def Let_def split: if_splits)
  ultimately show ?thesis
    using ping(1,2) ok lk
    by (cases p) (auto simp: peer_ok_def payload_due_def credit_due_def intro!: accounts_moved)
next
  case (reply f)
  with ok lk show ?thesis
    by (auto simp: peer_ok_def payload_due_def credit_due_def intro!: accounts_moved)
next
  case (send f)
  with ok lk show ?thesis
    by (auto simp: peer_ok_def payload_due_def credit_due_def intro!: accounts_moved)
next
  case (command cx j c ch)
  with mux.poll_next_item [OF command(4)] ok have "queued (w_chan s) = add_mset c (queued ch)" "cmd_ok c"
    by (auto simp: peer_ok_def)
  moreover from this(2) have "frame_ok (command_frame j c)"
    by (cases c) (auto simp: frame_ok_ctors)
  ultimately show ?thesis
    using command ok lk by (auto simp: peer_ok_def payload_due_def credit_due_def intro!: accounts_moved)
next
  case (dropped cx j ch fo s1)
  let ?s0 = "s\<lparr>w_chan := ch\<rparr>"
  have q: "queued ch = queued (w_chan s)"
    using mux.poll_next_end [OF dropped(4)] by simp
  have core: "core_ok ?s0" and lk0: "linked sid ?s0"
    using ok lk by (simp_all add: peer_ok_def linked_def streams_get_def)
  from on_drop_stream_ok [OF core, of j] dropped(5) have h: "quiet ?s0 s1" "\<forall>g. fo = Some g \<longrightarrow> frame_ok g"
    by auto
  note fl = flows_drop_stream [OF dropped(5)]
  have eq: "w_handles s' = w_handles s1" "\<And>a. cell a s' = cell a s1" "a_streams s' = a_streams s1"
    "w_chan s' = w_chan s1" "a_pending_read_frame s' = a_pending_read_frame s1"
    "core_ok s' = core_ok s1" "a_pending_write_frame s1 = None"
    using dropped(1-3) h(1) by (auto simp: quiet_def same_io_def split: option.splits)
  have kp1: "keeps sid ?s0 s1"
    using kp eq(3) by (simp add: keeps_def streams_get_def)
  have core1: "core_ok s1"
    using h(1) by (simp add: quiet_def)
  have "shifts sid ?s0 0 0 s1"
    using fl kp1 by (intro shifts_removed [OF core1 lk0, of j]) auto
  then have sh: "shifts sid s (frames_credit sid []) (frames_payload sid []) s'"
    using windows_cong [OF eq(3,2), of sid] windows_cong [of ?s0 s sid] eq(1) by (simp add: shifts_def)
  have w: "pending_weight (frame_payload sid) (a_pending_write_frame s') = 0"
    "pending_weight (frame_credit sid) (a_pending_write_frame s') = 0"
    using fl eq(7) by (auto simp: dropped(2) split: option.splits)
  have "accounts queued sid s [] [] s'"
    using h(1) q w dropped(3) eq(4,5) by (intro accounts_shifts [OF sh])
      (simp_all add: payload_due_def credit_due_def quiet_def same_io_def)
  moreover have "\<forall>g. a_pending_write_frame s' = Some g \<longrightarrow> frame_ok g"
    using h(2) eq(7) by (simp add: dropped(2) split: option.splits)
  then have "peer_ok queued s'"
    using ok core1 h(1) q eq(4-6) by (simp add: peer_ok_def quiet_def same_io_def)
  ultimately show ?thesis
    using dropped(1) by simp
next
  case (blocked cx ch)
  with mux.poll_next_pending [OF blocked(3)] ok lk show ?thesis
    by (auto simp: peer_ok_def payload_due_def credit_due_def intro!: accounts_moved)
next
  case (no_streams cx ch)
  with mux.poll_next_none [OF no_streams(3)] ok lk show ?thesis
    by (auto simp: peer_ok_def payload_due_def credit_due_def intro!: accounts_moved)
next
  case (got f act s1)
  from got_accounts [OF ok lk _ got(3,4) _ kp] got(1,2) assms(5) show ?thesis
    by simp
next
  case (go_away f e)
  from got_accounts [OF ok lk _ go_away(2,3) _ kp] go_away(1) assms(5) show ?thesis
    by simp
qed

end

end
