(* ===== verification/Exchange.thy ===== *)
theory Exchange
  imports Window_Credit
begin

text \<open>
  Two connections that talk to each other. Each is the frame machine of \<open>Peer\<close>, which the poll loop
  refines, together with the calls its user makes; two queues of frames are between them. The flow
  control of a stream works across both: whatever the two sides do, what one side may still send or
  has on its way, together with the credit on its way back, is within what the other side will
  accept, so that neither side ever breaks the other's window.
\<close>

inductive user_step :: "('io, 'ch) env \<Rightarrow> ('io, 'ch) active \<Rightarrow> ('io, 'ch) active \<Rightarrow> bool" for env s where
  outbound: "active_poll_new_outbound env cx s = Some (r, s') \<Longrightarrow> user_step env s s'"
| call: "i < length (w_handles s) \<Longrightarrow> call_ok c \<Longrightarrow> handle_call (e_ch env) i c s = Some s' \<Longrightarrow> user_step env s s'"
| drop: "i < length (w_handles s) \<Longrightarrow> drop_handle (e_ch env) (held s) i s = Some s' \<Longrightarrow> user_step env s s'"

subsection \<open>The user's steps\<close>

lemma make_new_outbound_fields:
  assumes "make_new_outbound_stream env sid s = (st, s1)"
  shows "a_streams s1 = a_streams s \<and> w_handles s1 = w_handles s @ [st] \<and> stm_id st = sid \<and> stm_flag st = Syn
    \<and> (\<exists>ch. mx_channel (e_ch env) sid (w_chan s) = (stm_sender st, ch)
         \<and> mx_clone (e_ch env) (stm_sender st) ch = (stm_window_update_sender st, w_chan s1))
    \<and> (\<exists>now. cell (stm_shared st) s1 = Some (shared_new DEFAULT_CREDIT DEFAULT_CREDIT (a_config s) now))
    \<and> (\<forall>b < length (w_heap s). cell b s1 = cell b s)"
  using assms
  by (auto simp: make_new_outbound_stream_def stream_new_outbound_def stream_new_def Let_def cell_def nth_append
      split: prod.splits)

text \<open>A call on a handle, with the context it runs in and the one it leaves.\<close>

lemma handle_call_ctx:
  assumes core: "core_ok s" and i: "i < length (w_handles s)" and c: "call_ok c" "handle_call ops i c s = Some s'"
  obtains sh x fl where "cell (stm_shared (w_handles s ! i)) s = Some sh"
    and "ctx_ok (rtt_get (w_rtt s)) (handle_ctx (w_handles s ! i) sh s)"
    and "run_call ops (rtt_get (w_rtt s)) c (handle_ctx (w_handles s ! i) sh s) = Some x"
    and "cx_stream x = (w_handles s ! i)\<lparr>stm_flag := fl\<rparr>"
    and "s' = (put_cell (stm_shared (w_handles s ! i)) (cx_shared x) s)
       \<lparr>w_handles := (w_handles s)[i := cx_stream x], w_acc := cx_acc x, w_chan := cx_chan x\<rparr>"
proof -
  let ?st = "w_handles s ! i"
  from c(2) obtain sh x where sh: "cell (stm_shared ?st) s = Some sh"
    and x: "run_call ops (rtt_get (w_rtt s)) c (handle_ctx ?st sh s) = Some x"
    and s': "s' = (put_cell (stm_shared ?st) (cx_shared x) s)
       \<lparr>w_handles := (w_handles s)[i := cx_stream x], w_acc := cx_acc x, w_chan := cx_chan x\<rparr>"
    by (auto simp: handle_call_def Let_def bind_eq_Some_conv)
  have "stm_shared ?st \<in> set (held s) \<union> set (addresses s)"
    using i by simp
  note ctx = ctx_ok_cell [OF core_ok_inv [OF core] this sh, of ?st]
  from run_call_ok [OF ctx c(1), of ops] x obtain fl where "cx_stream x = ?st\<lparr>stm_flag := fl\<rparr>"
    by (auto simp: ctx_step_def handle_ctx_def)
  with that sh ctx x s' show ?thesis by blast
qed

context duplex_env
begin

lemma outbound_opens:
  assumes core: "core_ok s" and p: "active_poll_new_outbound env cx s = Some (Ready (Ok st), s')"
  shows "\<exists>sh. opened_by env Syn (a_next_id s) s st sh s' \<and> send_window sh = DEFAULT_CREDIT
    \<and> fc_receive_window (sh_flow sh) = DEFAULT_CREDIT \<and> chunks_bytes (sh_buffer sh) = []"
proof -
  from poll_new_outbound_ok [OF core, of cx] p have st: "streams_get (stm_id st) s = None"
    by (auto simp: outbound_ok_def contains_key_def)
  from p obtain n where n: "next_stream_id s = Some (Ok (a_next_id s), s\<lparr>a_next_id := n\<rparr>)"
    by (auto simp: active_poll_new_outbound_def next_stream_id_def Let_def bind_eq_Some_conv assert_that_def
        split: if_splits option.splits)
  let ?s1 = "s\<lparr>a_next_id := n\<rparr>"
  obtain st' s2 where mk: "make_new_outbound_stream env (a_next_id s) ?s1 = (st', s2)"
    by (rule prod.exhaust)
  note s2 = make_new_outbound_fields [OF mk]
  from s2 obtain now where
    c: "cell (stm_shared st') s2 = Some (shared_new DEFAULT_CREDIT DEFAULT_CREDIT (a_config s) now)"
    by auto
  from p n mk have ins: "streams_insert (a_next_id s) (stm_shared st') s2 = Some s'" "st' = st"
    by (auto simp: active_poll_new_outbound_def bind_eq_Some_conv split: if_splits)
  with st s2 have s': "s' = s2\<lparr>a_streams := a_streams s2 @ [(a_next_id s, stm_shared st)]\<rparr>"
    using insert_fresh [of "a_next_id s" s2] by (simp add: streams_get_def)
  have "cell b s' = cell b s" if "b \<in> set (held s)" for b
    using core_ok_cell [OF core, of b] that s2 by (auto simp: s' cell_Some)
  with s2 c st ins(2) have "opened_by env Syn (a_next_id s) s st (shared_new DEFAULT_CREDIT DEFAULT_CREDIT (a_config s) now) s'"
    by (auto simp: opened_by_def s')
  then show ?thesis
    using rx_buffer.new
    by (intro exI [of _ "shared_new DEFAULT_CREDIT DEFAULT_CREDIT (a_config s) now"])
      (simp add: shared_new_def fc_new_def send_window_def)
qed

lemma outbound_accounts:
  assumes ok: "peer_ok queued s" and lk: "linked sid s" and p: "active_poll_new_outbound env cx s = Some (r, s')"
  shows "accounts queued sid s [] [] s' \<and> peer_ok queued s'"
proof -
  have core: "core_ok s"
    using ok by (simp add: peer_ok_def)
  from poll_new_outbound_ok [OF core, of cx] p have h: "handles s s'" "outbound_ok cx s r s'"
    by auto
  have ok': "peer_ok queued s'" and core': "core_ok s'"
    using ok h(1) by (simp_all add: peer_ok_def handles_def same_io_def)
  have due: "payload_due queued sid s' = payload_due queued sid s" "credit_due queued sid s' = credit_due queued sid s"
    using h(1) by (simp_all add: payload_due_def credit_due_def handles_def same_io_def)
  have "shifts sid s 0 0 s'"
  proof (cases "\<exists>st. r = Ready (Ok st)")
    case False
    then consider "r = Pending" | e where "r = Ready (Err e)"
      by (metis poll.exhaust result.exhaust)
    then have "flows s s' \<and> streams_get sid s' = streams_get sid s"
      using h(2) by cases (simp_all add: outbound_ok_def flows_def streams_get_def)
    then show ?thesis
      using shifts_flows [OF core' lk] by blast
  next
    case True
    with p obtain st where "active_poll_new_outbound env cx s = Some (Ready (Ok st), s')"
      by blast
    from outbound_opens [OF core this] obtain sh where "opened_by env Syn (a_next_id s) s st sh s'"
      "send_window sh = DEFAULT_CREDIT" "fc_receive_window (sh_flow sh) = DEFAULT_CREDIT"
      by blast
    then show ?thesis
      by (intro shifts_opened_by [OF core core' lk]) auto
  qed
  then have "accounts queued sid s [] [] s'"
    by (intro accounts_shifts) (simp_all add: due)
  with ok' show ?thesis by blast
qed

text \<open>What a call takes from the windows it puts on its way, but for what a channel refuses.\<close>

lemma handle_call_windows:
  assumes ok: "peer_ok queued s" and lk: "linked sid s"
    and c: "i < length (w_handles s)" "call_ok c" "handle_call (e_ch env) i c s = Some s'"
  shows "\<exists>pl cl. may_send sid s' + payload_due queued sid s' + pl = may_send sid s + payload_due queued sid s
    \<and> may_receive sid s + credit_due queued sid s' + cl = may_receive sid s' + credit_due queued sid s
    \<and> (mux.refuses \<or> pl = 0 \<and> cl = 0) \<and> linked sid s' \<and> streams_get sid s' = streams_get sid s"
proof -
  let ?st = "w_handles s ! i" and ?rtt = "rtt_get (w_rtt s)"
  have core: "core_ok s"
    using ok by (simp add: peer_ok_def)
  from handle_call_ctx [OF core c] obtain sh x fl where sh: "cell (stm_shared ?st) s = Some sh"
    and ctx: "ctx_ok ?rtt (handle_ctx ?st sh s)" and x: "run_call (e_ch env) ?rtt c (handle_ctx ?st sh s) = Some x"
    and fl: "cx_stream x = ?st\<lparr>stm_flag := fl\<rparr>"
    and s': "s' = (put_cell (stm_shared ?st) (cx_shared x) s)
       \<lparr>w_handles := (w_handles s)[i := cx_stream x], w_acc := cx_acc x, w_chan := cx_chan x\<rparr>"
    by blast
  from mux.charges_call [OF ctx x] obtain new lost where
    q: "queued (w_chan s') = queued (w_chan s) + new" and lost: "lost \<noteq> {#} \<longrightarrow> mux.refuses"
    and other: "\<forall>j. j \<noteq> stm_id ?st \<longrightarrow> queue_payload j new = 0 \<and> queue_credit j new = 0"
    and pay: "unat (send_window (cx_shared x)) + queue_payload (stm_id ?st) (new + lost) = unat (send_window sh)"
    and cred: "unat (fc_receive_window (sh_flow sh)) + queue_credit (stm_id ?st) (new + lost)
      = unat (fc_receive_window (flow_of x))"
    by (auto simp: mux.charges_def handle_ctx_def s' send_window_def)
  have get: "streams_get j s' = streams_get j s" for j
    by (simp add: s' streams_get_def put_cell_def)
  have hs: "stm_id st = sid \<longleftrightarrow> streams_get sid s = Some (stm_shared st)" if "st \<in> set (w_handles s')" for st
  proof -
    from that have "st \<in> set (w_handles s) \<or> st = ?st\<lparr>stm_flag := fl\<rparr>"
      using fl by (auto simp: s' dest!: set_update_subset_insert [THEN subsetD])
    then show ?thesis
      using lk c(1) by (auto simp: linked_def)
  qed
  have lk': "linked sid s'"
    using hs get by (simp add: linked_def)
  have cells: "cell b s' = (if b = stm_shared ?st then Some (cx_shared x) else cell b s)" for b
    using sh by (simp add: s' cell_put_cell cell_Some)
  have due: "payload_due queued sid s' = payload_due queued sid s + queue_payload sid new"
    "credit_due queued sid s' = credit_due queued sid s + queue_credit sid new"
    using q by (simp_all add: payload_due_def credit_due_def) (simp_all add: s' put_cell_def)
  show ?thesis
  proof (cases "stm_id ?st = sid")
    case True
    then have "streams_get sid s = Some (stm_shared ?st)"
      using lk c(1) by (simp add: linked_def)
    with True lk' due pay cred cells sh get lost show ?thesis
      by (intro exI [of _ "queue_payload sid lost"] exI [of _ "queue_credit sid lost"])
        (auto simp: may_send_def may_receive_def)
  next
    case False
    then have "streams_get sid s \<noteq> Some (stm_shared ?st)"
      using lk c(1) by (simp add: linked_def)
    then have "may_send sid s' = may_send sid s" "may_receive sid s' = may_receive sid s"
      using cells get by (auto simp: may_send_def may_receive_def split: option.splits)
    with False other lk' due get show ?thesis
      by (intro exI [of _ 0]) simp
  qed
qed

lemma handle_call_accounts:
  assumes ok: "peer_ok queued s" and lk: "linked sid s"
    and c: "i < length (w_handles s)" "call_ok c" "handle_call (e_ch env) i c s = Some s'"
  shows "accounts queued sid s [] [] s' \<and> peer_ok queued s'"
proof
  show "accounts queued sid s [] [] s'"
    using handle_call_windows [OF assms] by (auto simp: accounts_def)
  have core: "core_ok s" and w: "world_ok (a_config s) (held s) s"
    using ok by (auto simp: peer_ok_def core_ok_def)
  from handle_call_ok [OF w c(1,2), of "e_ch env"] c(3) have "world_ok (a_config s) (held s) s'" "states_up s s'"
    by auto
  with core_ok_states_up [OF core _ _ handle_call_fields [OF c(3)]] have "core_ok s'" .
  moreover have "mux.adds_ok (w_chan s) (w_chan s')"
    by (rule handle_call_ctx [OF core c]) (use mux.run_call_adds_ok in \<open>force simp: handle_ctx_def\<close>)
  ultimately show "peer_ok queued s'"
    using ok handle_call_fields [OF c(3)] by (auto simp: peer_ok_def mux.adds_ok_def same_io_def)
qed

lemma drop_handle_accounts:
  assumes ok: "peer_ok queued s" and lk: "linked sid s"
    and c: "i < length (w_handles s)" "drop_handle (e_ch env) (held s) i s = Some s'"
  shows "accounts queued sid s [] [] s' \<and> peer_ok queued s'"
proof -
  have core: "core_ok s" and w: "world_ok (a_config s) (held s) s"
    using ok by (auto simp: peer_ok_def core_ok_def)
  from drop_handle_ok [OF w c(1), of "e_ch env"] c(2) have
    d: "world_ok (a_config s) (held s) s'" "states_up s s'" "\<forall>a \<in> set (held s). cell a s' = cell a s"
    by auto
  note f = drop_handle_fields [OF c(2)]
  have core': "core_ok s'"
    using core_ok_states_up [OF core d(1,2)] f by blast
  have q: "queued (w_chan s') = queued (w_chan s)"
    using f mux.drop_queued by simp
  have "set (w_handles s') \<subseteq> set (w_handles s)"
    using c(2) by (auto simp: drop_handle_def Let_def arc_drop_def bind_eq_Some_conv split: if_splits
        dest: in_set_takeD in_set_dropD)
  then have "linked sid s'"
    using lk f by (auto simp: linked_def streams_get_def)
  moreover have "streams_get sid s' = streams_get sid s" "cell a s' = cell a s" if "streams_get sid s = Some a" for a
    using f bspec [OF d(3) held_get [OF that]] by (simp_all add: streams_get_def)
  then have "may_send sid s' = may_send sid s" "may_receive sid s' = may_receive sid s"
    using f by (cases "streams_get sid s"; simp add: may_send_def may_receive_def streams_get_def)+
  moreover have "payload_due queued sid s' = payload_due queued sid s" "credit_due queued sid s' = credit_due queued sid s"
    using q f by (simp_all add: payload_due_def credit_due_def same_io_def)
  ultimately have "accounts queued sid s [] [] s'"
    by (simp add: accounts_def)
  with ok core' q f show ?thesis
    by (simp add: peer_ok_def same_io_def)
qed

lemma user_step_accounts:
  assumes "user_step env s s'" and "peer_ok queued s" and "linked sid s"
  shows "accounts queued sid s [] [] s' \<and> peer_ok queued s'"
  using assms(1)
proof cases
  case (outbound cx r)
  with assms(2,3) show ?thesis by (rule outbound_accounts)
next
  case (call i c)
  with assms(2,3) show ?thesis by (rule handle_call_accounts)
next
  case (drop i)
  with assms(2,3) show ?thesis by (rule drop_handle_accounts)
qed

end

subsection \<open>Frames that keep within the windows are accepted\<close>

definition accepts :: "('io, 'ch) env \<Rightarrow> frame \<Rightarrow> ('io, 'ch) active \<Rightarrow> bool" where
  "accepts env f s \<longleftrightarrow> (\<exists>act s'. on_frame env f s = Some (Ok act, s') \<and> (\<forall>g. act \<noteq> ActTerminate g))"

context conn_env
begin

lemma accepts_frame:
  assumes ok: "core_ok s" and f: "frame_ok f" and j: "j = hdr_stream_id (fr_header f)"
    and tag: "hdr_tag (fr_header f) \<in> {Data, WindowUpdate}" and syn: "\<not> flags_contains (hdr_flags (fr_header f)) SYN"
    and pay: "frame_payload j f \<le> may_receive j s" and cred: "may_send j s + frame_credit j f < 2 ^ 32"
  shows "accepts env f s"
proof -
  from on_frame_acked [OF ok, of f] obtain s1 where ok1: "core_ok s1"
    and s1: "flows s s1" "a_streams s1 = a_streams s" and red: "on_frame env f s =
     (if \<not> contains_key j s1 then Some (Ok ActNone, s1)
      else case hdr_tag (fr_header f) of
         Data \<Rightarrow> do { (act, s) \<leftarrow> on_data env f s1; Some (Ok act, s) }
       | WindowUpdate \<Rightarrow> do { (act, s) \<leftarrow> on_window_update env f s1; Some (Ok act, s) }
       | Ping \<Rightarrow> (let (act, s) = on_ping env f s1 in Some (Ok act, s))
       | GoAway \<Rightarrow> Some (Err Closed_Error, s1))"
    using tag syn unfolding j by auto
  show ?thesis
  proof (cases "streams_get j s1")
    case None
    then show ?thesis
      by (simp add: accepts_def red contains_key_def)
  next
    case (Some b)
    then have get: "streams_get j s = Some b"
      using s1 by (simp add: streams_get_def)
    obtain sh1 where sh1: "cell b s1 = Some sh1"
      using core_ok_held [OF ok1 Some] by blast
    then obtain sh where sh: "cell b s = Some sh" "sh_flow sh1 = sh_flow sh"
      using s1 by (auto simp: flows_def)
    have key: "contains_key j s1"
      using Some by (simp add: contains_key_def)
    from tag consider (data) "hdr_tag (fr_header f) = Data" | (wu) "hdr_tag (fr_header f) = WindowUpdate" by blast
    then show ?thesis
    proof cases
      case data
      from on_data_ok [OF ok1 body_bound [OF f]] obtain act s' where d: "on_data env f s1 = Some (act, s')"
        by blast
      have "length (fr_body f) \<le> unat (fc_receive_window (sh_flow sh1))"
        using pay data j get sh by (simp add: frame_payload_def may_receive_def)
      then obtain sh2 where "consume_receive_window (frame_body_len f) sh1 = Ok sh2"
        using consume_receive_cases [OF unat_frame_body_len [OF body_bound [OF f]], of sh1]
        by (auto split: result.splits)
      with d Some sh1 syn j have "act = ActNone"
        by (auto simp: on_data_def Let_def bind_eq_Some_conv split: if_splits)
      with d data key red show ?thesis
        by (simp add: accepts_def)
    next
      case wu
      from on_window_update_ok [OF ok1, of f] obtain act s' where d: "on_window_update env f s1 = Some (act, s')"
        by blast
      have "unat (send_window sh1) + unat (hdr_credit (fr_header f)) < 2 ^ 32"
        using cred wu j get sh by (simp add: frame_credit_def may_send_def send_window_def)
      then obtain sh2 where "increase_send_window_by (hdr_credit (fr_header f)) sh1 = Ok sh2"
        using fc_increase_send_window_by_cases [where i = "hdr_credit (fr_header f)" and fc = "sh_flow sh1"]
        by (auto simp: increase_send_window_by_def send_window_def split: result.splits)
      with d Some sh1 syn j have "act = ActNone"
        by (auto simp: on_window_update_def Let_def bind_eq_Some_conv split: if_splits)
      with d wu key red show ?thesis
        by (simp add: accepts_def)
    qed
  qed
qed

end

subsection \<open>Two connections\<close>

text \<open>A turn of one side, which has frames \<open>out\<close> on their way to the other and \<open>inp\<close> coming in.\<close>

inductive turn ::
    "('io, 'ch) env \<Rightarrow> ('io, 'ch) active \<Rightarrow> frame list \<Rightarrow> frame list \<Rightarrow>
       ('io, 'ch) active \<Rightarrow> frame list \<Rightarrow> frame list \<Rightarrow> bool" for env s where
  tau: "peer_step env s Tau s' \<Longrightarrow> turn env s out inp s' out inp"
| sent: "peer_step env s (Sent f) s' \<Longrightarrow> turn env s out inp s' (out @ [f]) inp"
| got: "peer_step env s (Got f) s' \<Longrightarrow> turn env s out (f # inp) s' out inp"
| user: "user_step env s s' \<Longrightarrow> turn env s out inp s' out inp"

record ('io, 'ch) duo =
  left :: "('io, 'ch) active"
  right :: "('io, 'ch) active"
  to_right :: "frame list"
  to_left :: "frame list"

definition duo_new :: "('io, 'ch) active \<Rightarrow> ('io, 'ch) active \<Rightarrow> ('io, 'ch) duo" where
  "duo_new l r = \<lparr>left = l, right = r, to_right = [], to_left = []\<rparr>"

inductive exchange :: "('io, 'ch) env \<Rightarrow> ('io, 'ch) env \<Rightarrow> ('io, 'ch) duo \<Rightarrow> ('io, 'ch) duo \<Rightarrow> bool" for el er d where
  left: "turn el (left d) (to_right d) (to_left d) s out inp \<Longrightarrow>
    exchange el er d (d\<lparr>left := s, to_right := out, to_left := inp\<rparr>)"
| right: "turn er (right d) (to_left d) (to_right d) s out inp \<Longrightarrow>
    exchange el er d (d\<lparr>right := s, to_left := out, to_right := inp\<rparr>)"

text \<open>Any number of turns, for as long as neither side forgets the stream.\<close>

inductive talk :: "('io, 'ch) env \<Rightarrow> ('io, 'ch) env \<Rightarrow> u32 \<Rightarrow> ('io, 'ch) duo \<Rightarrow> ('io, 'ch) duo \<Rightarrow> bool"
  for el er sid d0 where
  start: "talk el er sid d0 d0"
| turn: "talk el er sid d0 d \<Longrightarrow> exchange el er d d' \<Longrightarrow> keeps sid (left d) (left d') \<Longrightarrow>
    keeps sid (right d) (right d') \<Longrightarrow> talk el er sid d0 d'"

text \<open>
  The poll loop over bytes is such turns: a poll that receives frames which the other side
  has sent moves the pair by exchanges.
\<close>

lemma run_exchanges:
  assumes "peer_run el (left d) ss gs s" and "to_left d = gs @ ys"
  shows "(exchange el er)\<^sup>*\<^sup>* d (d\<lparr>left := s, to_right := to_right d @ ss, to_left := ys\<rparr>)"
  using assms
proof (induction arbitrary: ys rule: peer_run.induct)
  case start
  then have "d\<lparr>left := left d, to_right := to_right d @ [], to_left := ys\<rparr> = d"
    by (cases d) simp
  then show ?case
    by (metis rtranclp.rtrancl_refl)
next
  case (tau ss gs s s')
  let ?d = "d\<lparr>left := s, to_right := to_right d @ ss, to_left := ys\<rparr>"
  have "exchange el er ?d (?d\<lparr>left := s', to_right := to_right d @ ss, to_left := ys\<rparr>)"
    using turn.tau [OF tau.hyps(2)] by (intro exchange.left) simp
  with tau.IH [OF tau.prems] show ?case
    by (simp add: rtranclp.rtrancl_into_rtrancl)
next
  case (sent ss gs s f s')
  let ?d = "d\<lparr>left := s, to_right := to_right d @ ss, to_left := ys\<rparr>"
  have "exchange el er ?d (?d\<lparr>left := s', to_right := to_right d @ ss @ [f], to_left := ys\<rparr>)"
    using turn.sent [OF sent.hyps(2), of "to_right d @ ss"] by (intro exchange.left) simp
  with sent.IH [OF sent.prems] show ?case
    by (simp add: rtranclp.rtrancl_into_rtrancl)
next
  case (got ss gs s f s')
  let ?d = "d\<lparr>left := s, to_right := to_right d @ ss, to_left := f # ys\<rparr>"
  have "exchange el er ?d (?d\<lparr>left := s', to_right := to_right d @ ss, to_left := ys\<rparr>)"
    using turn.got [OF got.hyps(2)] by (intro exchange.left) simp
  with got.IH [of "f # ys"] got.prems show ?case
    by (simp add: rtranclp.rtrancl_into_rtrancl)
qed

text \<open>What the sender \<open>s\<close> may still send and all payload and credit on the way is within what \<open>r\<close> accepts.\<close>

definition balanced ::
    "('ch \<Rightarrow> stream_command multiset) \<Rightarrow> ('ch \<Rightarrow> stream_command multiset) \<Rightarrow> u32 \<Rightarrow>
       ('io, 'ch) active \<Rightarrow> frame list \<Rightarrow> ('io, 'ch) active \<Rightarrow> frame list \<Rightarrow> bool" where
  "balanced qs qr sid s there r back \<longleftrightarrow>
     may_send sid s + payload_due qs sid s + frames_payload sid there + credit_due qr sid r + frames_credit sid back
       \<le> may_receive sid r"

context duplex_env
begin

lemma turn_accounts:
  assumes "turn env s xs ys s' xs' ys'" and "peer_ok queued s" and "linked sid s" and "keeps sid s s'"
    and "\<forall>f \<in> set ys. frame_ok f"
  shows "\<exists>ss gs. xs' = xs @ ss \<and> ys = gs @ ys' \<and> accounts queued sid s ss gs s' \<and> peer_ok queued s'
    \<and> (\<forall>f \<in> set ss. frame_ok f)"
  using assms(1)
proof cases
  case tau
  with peer_step_accounts [OF tau(3) assms(2-4)] show ?thesis by simp
next
  case (sent f)
  with peer_step_accounts [OF sent(3) assms(2-4)] show ?thesis by simp
next
  case (got f)
  with peer_step_accounts [OF got(3) assms(2-4)] assms(5) show ?thesis by simp
next
  case user
  with user_step_accounts [OF user(3) assms(2,3)] show ?thesis by simp
qed

end

definition duo_ok ::
    "('ch \<Rightarrow> stream_command multiset) \<Rightarrow> ('ch \<Rightarrow> stream_command multiset) \<Rightarrow> u32 \<Rightarrow> ('io, 'ch) duo \<Rightarrow> bool" where
  "duo_ok ql qr sid d \<longleftrightarrow> peer_ok ql (left d) \<and> peer_ok qr (right d) \<and> linked sid (left d) \<and> linked sid (right d)
     \<and> (\<forall>f \<in> set (to_right d) \<union> set (to_left d). frame_ok f)
     \<and> balanced ql qr sid (left d) (to_right d) (right d) (to_left d)
     \<and> balanced qr ql sid (right d) (to_left d) (left d) (to_right d)"

lemma balanced_step:
  assumes "accounts qs sid s ss gs s'"
  shows "balanced qs qr sid s there r (gs @ back) \<Longrightarrow> balanced qs qr sid s' (there @ ss) r back"
    and "balanced qr qs sid r (gs @ back) s there \<Longrightarrow> balanced qr qs sid r back s' (there @ ss)"
  using assms by (simp_all add: accounts_def balanced_def)

lemma exchange_ok:
  assumes l: "duplex_env el ol il ql nl" and r: "duplex_env er outr ir qr nr"
    and "exchange el er d d'" and "duo_ok ql qr sid d"
    and "keeps sid (left d) (left d')" and "keeps sid (right d) (right d')"
  shows "duo_ok ql qr sid d'"
  using assms(3)
proof cases
  case (left s out inp)
  with duplex_env.turn_accounts [OF l left(2), of sid] assms(4,5) obtain ss gs where
    "out = to_right d @ ss" "to_left d = gs @ inp" "accounts ql sid (duo.left d) ss gs s" "peer_ok ql s"
    "\<forall>f \<in> set ss. frame_ok f"
    by (auto simp: duo_ok_def)
  with left(1) assms(4) balanced_step [of ql sid "duo.left d" ss gs s] show ?thesis
    by (auto simp: duo_ok_def accounts_def)
next
  case (right s out inp)
  with duplex_env.turn_accounts [OF r right(2), of sid] assms(4,6) obtain ss gs where
    "out = to_left d @ ss" "to_right d = gs @ inp" "accounts qr sid (duo.right d) ss gs s" "peer_ok qr s"
    "\<forall>f \<in> set ss. frame_ok f"
    by (auto simp: duo_ok_def)
  with right(1) assms(4) balanced_step [of qr sid "duo.right d" ss gs s] show ?thesis
    by (auto simp: duo_ok_def accounts_def)
qed

lemma talk_ok:
  assumes "duplex_env el ol il ql nl" and "duplex_env er outr ir qr nr"
    and "talk el er sid d0 d" and "duo_ok ql qr sid d0"
  shows "duo_ok ql qr sid d"
  using assms(3,4)
proof (induction rule: talk.induct)
  case (turn d d')
  then have "duo_ok ql qr sid d" by blast
  with exchange_ok [OF assms(1,2) turn.hyps(2)] turn.hyps(3,4) show ?case by blast
qed

lemma duo_new_ok:
  assumes "built_config cl" and "built_config cr" and "ql chl = {#}" and "qr chr = {#}"
  shows "duo_ok ql qr sid (duo_new (active_new iol chl nl cl ml) (active_new ior chr nr cr mr))"
proof -
  have "peer_ok ql (active_new iol chl nl cl ml)" "peer_ok qr (active_new ior chr nr cr mr)"
    using active_ok_peer [OF active_new_ok [OF config_ok_built [OF assms(1)], of ql chl]]
      active_ok_peer [OF active_new_ok [OF config_ok_built [OF assms(2)], of qr chr]] assms(3,4) by simp_all
  then show ?thesis
    using assms(3,4)
    by (simp add: duo_ok_def duo_new_def linked_def active_new_def balanced_def may_send_def may_receive_def
        streams_get_def payload_due_def credit_due_def)
qed

lemma talk_new_ok:
  assumes "duplex_env el outl inl ql endsl" and "duplex_env er outr inr qr endsr"
    and "built_config cl" and "built_config cr" and "ql chl = {#}" and "qr chr = {#}"
    and "talk el er sid (duo_new (active_new iol chl nl cl ml) (active_new ior chr nr cr mr)) d"
  shows "duo_ok ql qr sid d"
  by (rule talk_ok [OF assms(1,2,7)], rule duo_new_ok) (use assms(3-6) in simp_all)

lemma may_less: "may_receive sid s < 2 ^ 32" "may_send sid s < 2 ^ 32"
  using unat_u32_bound by (auto simp: may_receive_def may_send_def split: option.splits)

lemma duo_accepts:
  assumes "conn_env env out inp queued ends" and "peer_ok qr r" and "balanced qs qr sid s (f # fs) r back"
    and "balanced qr qs sid r back s (f # fs)" and "frame_ok f"
    and "hdr_stream_id (fr_header f) = sid" and "hdr_tag (fr_header f) \<in> {Data, WindowUpdate}"
    and "\<not> flags_contains (hdr_flags (fr_header f)) SYN"
  shows "accepts env f r"
proof -
  have "may_send sid r + frame_credit sid f < 2 ^ 32"
    using assms(4) may_less(1) [of sid s] by (simp add: balanced_def)
  moreover have "frame_payload sid f \<le> may_receive sid r"
    using assms(3) by (simp add: balanced_def)
  ultimately show ?thesis
    using assms(2,5-8) by (intro conn_env.accepts_frame [OF assms(1), of r f sid]) (simp_all add: peer_ok_def)
qed

subsection \<open>Properties\<close>

text \<open>
  C4: Flow control is sound end to end. Two new connections talk to each other, in any interleaving
  of their steps and of the calls of their users, and neither has forgotten the stream: then
  what one side may still send on the stream, together with the payload it has queued or on the wire
  and with the credit queued or on the wire in the other direction, is at most what the other
  side is ready to receive, and the same the other way round.
\<close>

theorem flow_control_sound:
  assumes "duplex_env el outl inl ql endsl" and "duplex_env er outr inr qr endsr"
    and "built_config cl" and "built_config cr" and "ql chl = {#}" and "qr chr = {#}"
    and "talk el er sid (duo_new (active_new iol chl nowl cl Client) (active_new ior chr nowr cr Server)) d"
  shows "may_send sid (left d) + payload_due ql sid (left d) + frames_payload sid (to_right d)
      + credit_due qr sid (right d) + frames_credit sid (to_left d) \<le> may_receive sid (right d)
    \<and> may_send sid (right d) + payload_due qr sid (right d) + frames_payload sid (to_left d)
      + credit_due ql sid (left d) + frames_credit sid (to_right d) \<le> may_receive sid (left d)"
  using talk_new_ok [of el outl inl ql endsl, OF assms] by (simp add: duo_ok_def balanced_def)

text \<open>
  C8: Neither side breaks the other's window. In the same setting, a frame that is next to
  arrive for the stream and does not open it, is accepted: a data frame is within the receive window
  and a window update does not overflow the send window, so the answer is never a termination.
\<close>

theorem windows_never_broken:
  assumes "duplex_env el outl inl ql endsl" and "duplex_env er outr inr qr endsr"
    and "built_config cl" and "built_config cr" and "ql chl = {#}" and "qr chr = {#}"
    and "talk el er sid (duo_new (active_new iol chl nowl cl Client) (active_new ior chr nowr cr Server)) d"
    and "hdr_stream_id (fr_header f) = sid" and "hdr_tag (fr_header f) \<in> {Data, WindowUpdate}"
    and "\<not> flags_contains (hdr_flags (fr_header f)) SYN"
  shows "(to_right d = f # fs \<longrightarrow> accepts er f (right d)) \<and> (to_left d = f # fs \<longrightarrow> accepts el f (left d))"
proof -
  have ok: "duo_ok ql qr sid d"
    using talk_new_ok [of el outl inl ql endsl, OF assms(1-7)] .
  have l: "conn_env el outl inl ql endsl" and r: "conn_env er outr inr qr endsr"
    using assms(1,2) by (simp_all add: duplex_env_def)
  show ?thesis
    using ok duo_accepts [OF r _ _ _ _ assms(8-10), of qr "right d" ql "left d" fs "to_left d"]
      duo_accepts [OF l _ _ _ _ assms(8-10), of ql "left d" qr "right d" fs "to_right d"]
    by (auto simp: duo_ok_def)
qed

subsection \<open>A short talk\<close>

text \<open>
  The client opens a stream, writes a byte and closes its side; the server takes the first of the
  two frames, which opens the stream there.
\<close>

definition test_server :: "(pipe, chans) active" where
  "test_server = active_new \<lparr>pipe_in = [], pipe_out = []\<rparr> no_channels 0 default_config Server"

definition client_stream :: stream where
  "client_stream = \<lparr>stm_id = 1, stm_config = default_config, stm_sender = 0, stm_window_update_sender = 1,
     stm_flag = Syn, stm_shared = 0\<rparr>"

definition client_chans :: "stream_command list \<Rightarrow> chans" where
  "client_chans cs = \<lparr>cs_rx = [tagged_new 1 \<lparr>rc_queue = cs, rc_senders = [1, 0], rc_closed = False\<rparr>], cs_next = 2\<rparr>"

definition client_shared :: shared where
  "client_shared = shared_new DEFAULT_CREDIT DEFAULT_CREDIT default_config 0"

definition client_after :: "shared \<Rightarrow> flag \<Rightarrow> stream_command list \<Rightarrow> (pipe, chans) active" where
  "client_after sh fl cs = (test_conn [])\<lparr>w_heap := [Some sh], w_chan := client_chans cs,
     w_handles := [client_stream\<lparr>stm_flag := fl\<rparr>], w_ticks := 1, a_next_id := 3, a_streams := [(1, 0)]\<rparr>"

lemma client_opens:
  "active_poll_new_outbound test_env 7 (test_conn [])
     = Some (Ready (Ok client_stream), client_after client_shared Syn [])"
  by (simp add: active_poll_new_outbound_def test_conn_def active_new_def client_after_def client_chans_def
      client_shared_def client_stream_def default_config_def size_defs ack_backlog_def next_stream_id_def
      make_new_outbound_stream_def stream_new_outbound_def stream_new_def test_env_def list_mux_def no_channels_def
      checked_add_def own_id_def is_client_def is_server_def assert_that_def streams_insert_def streams_get_def Let_def
      tagged_new_def owns_def tagged_inner_mut_def wake_def)

definition opening_frame :: frame where
  "opening_frame = \<lparr>fr_header = hdr_syn (header_data 1 1), fr_body = [7]\<rparr>"

definition client_shared' :: shared where
  "client_shared' = client_shared\<lparr>sh_flow := (sh_flow client_shared)\<lparr>fc_send_window := 262143\<rparr>\<rparr>"

lemma client_writes:
  "handle_call (e_ch test_env) 0 (CallWrite 8 [7]) (client_after client_shared Syn [])
     = Some (client_after client_shared' NoFlag [SendFrame opening_frame])"
  by (simp add: handle_call_def handle_ctx_def client_after_def client_chans_def client_shared_def client_shared'_def
      client_stream_def test_env_def list_mux_def test_conn_def active_new_def opening_frame_def
      stream_poll_write_def shared_new_def fc_new_def can_write_def send_window_def DEFAULT_CREDIT_eq
      default_config_def size_defs Let_def consume_send_window_def fc_consume_send_window_def
      checked_sub_def frame_data_def u32_try_from_def add_flag_def send_command_def cell_def put_cell_def
      tagged_new_def owns_def tagged_inner_mut_def flags_contains_def hdr_syn_def header_data_def SYN_def ACK_def)

lemma client_closes:
  "handle_call (e_ch test_env) 0 (CallClose 8) (client_after client_shared' NoFlag [])
     = Some (client_after (client_shared'\<lparr>sh_state := SendClosed\<rparr>) NoFlag [CloseStream False])"
  by (simp add: handle_call_def handle_ctx_def client_after_def client_chans_def client_shared_def client_shared'_def
      client_stream_def test_env_def list_mux_def test_conn_def active_new_def 
      stream_poll_close_def shared_new_def fc_new_def is_closed_def update_state_def
      Let_def send_command_def cell_def put_cell_def tagged_new_def owns_def tagged_inner_mut_def)

lemma client_chans_next:
  "mx_poll_next (e_ch test_env) cx (client_chans (c # cs)) = (Ready (Some (1, Some c)), client_chans cs)"
  by (simp add: test_env_def list_mux_def client_chans_def tagged_new_def tagged_poll_next_def receiver_poll_next_def Let_def)

lemma client_after_simps [simp]:
  "w_chan (client_after sh fl cs) = client_chans cs" "(client_after sh fl cs)\<lparr>w_chan := client_chans ds\<rparr> = client_after sh fl ds"
  "a_pending_write_frame (client_after sh fl cs) = None" "a_pending_read_frame (client_after sh fl cs) = None"
  "length (w_handles (client_after sh fl cs)) = 1" "streams_get 1 (client_after sh fl cs) = Some 0"
  "(client_after sh fl cs)\<lparr>a_pending_write_frame := None\<rparr> = client_after sh fl cs"
  by (simp_all add: client_after_def test_conn_def active_new_def streams_get_def)

lemma server_opens:
  "\<exists>st t. on_frame test_env opening_frame test_server = Some (Ok (ActNew st), t) \<and> streams_get 1 t = Some (stm_shared st)"
  by (simp add: on_frame_def on_data_def test_server_def active_new_def opening_frame_def flags_contains_def hdr_syn_def
      header_data_def SYN_def ACK_def RST_def FIN_def Let_def is_valid_remote_id_def is_client_def contains_key_def streams_get_def
      default_config_def size_defs is_server_def make_new_inbound_stream_def stream_new_inbound_def stream_new_def test_env_def list_mux_def no_channels_def
      tagged_new_def owns_def tagged_inner_mut_def wake_def cell_def put_cell_def shared_new_def fc_new_def consume_receive_window_def
      fc_consume_receive_window_def checked_sub_def frame_body_len_def DEFAULT_CREDIT_eq streams_insert_def chunks_push_def chunks_new_def
      frame_into_data_def hdr_into_data_def uadd_def)

lemma talk_left:
  assumes "talk el er sid d0 \<lparr>left = s, right = r, to_right = xs, to_left = ys\<rparr>" and "turn el s xs ys s' xs' ys'"
    and "keeps sid s s'"
  shows "talk el er sid d0 \<lparr>left = s', right = r, to_right = xs', to_left = ys'\<rparr>"
  using talk.turn [OF assms(1) exchange.left, of s' xs' ys'] assms(2,3) by (simp add: keeps_def)

lemma talk_right:
  assumes "talk el er sid d0 \<lparr>left = s, right = r, to_right = xs, to_left = ys\<rparr>" and "turn er r ys xs r' ys' xs'"
    and "keeps sid r r'"
  shows "talk el er sid d0 \<lparr>left = s, right = r', to_right = xs', to_left = ys'\<rparr>"
  using talk.turn [OF assms(1) exchange.right, of r' ys' xs'] assms(2,3) by (simp add: keeps_def)

lemma client_sends:
  assumes "talk test_env er 1 d0 \<lparr>left = client_after sh fl [c], right = r, to_right = xs, to_left = ys\<rparr>"
  shows "talk test_env er 1 d0 \<lparr>left = client_after sh fl [], right = r, to_right = xs @ [command_frame 1 c], to_left = ys\<rparr>"
proof -
  let ?s = "(client_after sh fl [])\<lparr>a_pending_write_frame := Some (command_frame 1 c)\<rparr>"
  have "peer_step test_env (client_after sh fl [c]) Tau ?s"
    using peer_step.command [of "client_after sh fl [c]" test_env 9 1 c "client_chans []"] client_chans_next by simp
  then have 1: "talk test_env er 1 d0 \<lparr>left = ?s, right = r, to_right = xs, to_left = ys\<rparr>"
    by (intro talk_left [OF assms] turn.tau) (simp_all add: keeps_def streams_get_def client_after_def)
  have "peer_step test_env ?s (Sent (command_frame 1 c)) (client_after sh fl [])"
    using peer_step.send [of ?s "command_frame 1 c" test_env] by simp
  then show ?thesis
    by (intro talk_left [OF 1] turn.sent) (simp_all add: keeps_def streams_get_def client_after_def)
qed

lemma short_talk:
  "\<exists>t a. talk test_env test_env 1 (duo_new (test_conn []) test_server)
     \<lparr>left = client_after (client_shared'\<lparr>sh_state := SendClosed\<rparr>) NoFlag [], right = t,
      to_right = [frame_close_stream 1 False], to_left = []\<rparr> \<and> streams_get 1 t = Some a"
proof -
  let ?d0 = "duo_new (test_conn []) test_server"
  have none: "streams_get 1 (test_conn []) = None" "streams_get 1 test_server = None"
    by (simp_all add: test_conn_def test_server_def active_new_def streams_get_def)
  have 0: "talk test_env test_env 1 ?d0 \<lparr>left = test_conn [], right = test_server, to_right = [], to_left = []\<rparr>"
    using talk.start [of test_env test_env 1 ?d0] by (simp add: duo_new_def)
  have 1: "talk test_env test_env 1 ?d0
      \<lparr>left = client_after client_shared Syn [], right = test_server, to_right = [], to_left = []\<rparr>"
    using user_step.outbound [OF client_opens] by (intro talk_left [OF 0] turn.user) (simp_all add: keeps_def none)
  have 2: "talk test_env test_env 1 ?d0
      \<lparr>left = client_after client_shared' NoFlag [SendFrame opening_frame], right = test_server, to_right = [], to_left = []\<rparr>"
    using user_step.call [OF _ _ client_writes] by (intro talk_left [OF 1] turn.user) (simp_all add: keeps_def)
  have 3: "talk test_env test_env 1 ?d0
      \<lparr>left = client_after client_shared' NoFlag [], right = test_server, to_right = [opening_frame], to_left = []\<rparr>"
    using client_sends [OF 2] by simp
  have 4: "talk test_env test_env 1 ?d0
      \<lparr>left = client_after (client_shared'\<lparr>sh_state := SendClosed\<rparr>) NoFlag [CloseStream False], right = test_server,
       to_right = [opening_frame], to_left = []\<rparr>"
    using user_step.call [OF _ _ client_closes] by (intro talk_left [OF 3] turn.user) (simp_all add: keeps_def)
  have 5: "talk test_env test_env 1 ?d0
      \<lparr>left = client_after (client_shared'\<lparr>sh_state := SendClosed\<rparr>) NoFlag [], right = test_server,
       to_right = [opening_frame, frame_close_stream 1 False], to_left = []\<rparr>"
    using client_sends [OF 4] by simp
  from server_opens obtain st t where t: "on_frame test_env opening_frame test_server = Some (Ok (ActNew st), t)"
    "streams_get 1 t = Some (stm_shared st)"
    by blast
  have "a_pending_read_frame test_server = None"
    by (simp add: test_server_def active_new_def)
  from peer_step.got [OF this t(1)] have "peer_step test_env test_server (Got opening_frame) t"
    by simp
  then have "talk test_env test_env 1 ?d0
      \<lparr>left = client_after (client_shared'\<lparr>sh_state := SendClosed\<rparr>) NoFlag [], right = t,
       to_right = [frame_close_stream 1 False], to_left = []\<rparr>"
    by (intro talk_right [OF 5] turn.got) (simp_all add: keeps_def none)
  with t(2) show ?thesis by blast
qed

theorem flow_control_sound_witness:
  "\<exists>d :: (pipe, chans) duo. streams_get 1 (left d) \<noteq> None \<and> streams_get 1 (right d) \<noteq> None
    \<and> may_send 1 (left d) + frames_payload 1 (to_right d) \<le> may_receive 1 (right d)
    \<and> may_send 1 (right d) \<le> may_receive 1 (left d)"
proof -
  obtain d a where d: "talk test_env test_env 1 (duo_new (test_conn []) test_server) d"
    "streams_get 1 (right d) = Some a" "streams_get 1 (left d) = Some 0"
    using short_talk by force
  have q: "chans_queued no_channels = {#}"
    by (simp add: no_channels_def)
  from flow_control_sound [of test_env pipe_out pipe_in chans_queued chans_ends,
      OF test.duplex_env_axioms test.duplex_env_axioms built_config.default built_config.default q q
      d(1) [unfolded test_conn_def test_server_def]]
  show ?thesis
    using d(2,3) by (intro exI [of _ d]) simp
qed

theorem windows_never_broken_witness:
  "\<exists>t a. streams_get 1 t = Some a \<and> accepts test_env (frame_close_stream 1 False) t"
proof -
  obtain t a where d: "talk test_env test_env 1 (duo_new (test_conn []) test_server)
     \<lparr>left = client_after (client_shared'\<lparr>sh_state := SendClosed\<rparr>) NoFlag [], right = t,
      to_right = [frame_close_stream 1 False], to_left = []\<rparr>" "streams_get 1 t = Some a"
    using short_talk by blast
  have q: "chans_queued no_channels = {#}"
    by (simp add: no_channels_def)
  have f: "hdr_stream_id (fr_header (frame_close_stream 1 False)) = 1"
    "hdr_tag (fr_header (frame_close_stream 1 False)) \<in> {Data, WindowUpdate}"
    "\<not> flags_contains (hdr_flags (fr_header (frame_close_stream 1 False))) SYN"
    by (simp_all add: frame_close_stream_def frame_new_def header_data_def hdr_fin_def flags_contains_def SYN_def FIN_def)
  from windows_never_broken [of test_env pipe_out pipe_in chans_queued chans_ends,
      OF test.duplex_env_axioms test.duplex_env_axioms built_config.default built_config.default q q
      d(1) [unfolded test_conn_def test_server_def] f]
  show ?thesis
    using d(2) by (intro exI [of _ t] exI [of _ a]) simp
qed

end
