(* ===== verification/Stream_Bytes.thy ===== *)
theory Stream_Bytes
  imports Exchange
begin

text \<open>
  The bytes of one stream inside one connection, in order. Towards the user: what a connection
  receives for a stream is appended to its buffer, and reading takes it off the front. Towards the
  remote: what a handle writes is queued behind what it wrote before, in frames of the stream, and
  frames leave in that order. That the channels of a connection keep the order of each stream is a
  contract of its own, \<open>ordered_mux\<close>.
\<close>

subsection \<open>Payload as bytes\<close>

definition pay :: "u32 \<Rightarrow> frame \<Rightarrow> bytes" where
  "pay sid f = (if hdr_tag (fr_header f) = Data \<and> hdr_stream_id (fr_header f) = sid then fr_body f else [])"

definition pays :: "u32 \<Rightarrow> frame list \<Rightarrow> bytes" where
  "pays sid fs = concat (map (pay sid) fs)"

definition of_stream :: "u32 \<Rightarrow> frame \<Rightarrow> bool" where
  "of_stream sid f \<longleftrightarrow> hdr_tag (fr_header f) \<in> {Data, WindowUpdate} \<and> hdr_stream_id (fr_header f) = sid"

definition buffered :: "u32 \<Rightarrow> ('io, 'ch) active \<Rightarrow> bytes" where
  "buffered sid s =
     (case streams_get sid s of None \<Rightarrow> []
      | Some a \<Rightarrow> (case cell a s of Some sh \<Rightarrow> chunks_bytes (sh_buffer sh) | None \<Rightarrow> []))"

lemma pays_simps [simp]:
  "pays sid [] = []" "pays sid (f # fs) = pay sid f @ pays sid fs" "pays sid (fs @ gs) = pays sid fs @ pays sid gs"
  by (simp_all add: pays_def)

lemma length_pay: "length (pay sid f) = frame_payload sid f"
  by (simp add: pay_def frame_payload_def)

lemma pay_other: "\<not> of_stream sid f \<Longrightarrow> pay sid f = []"
  by (auto simp: of_stream_def pay_def)

lemma pays_filter: "pays sid (filter (of_stream sid) fs) = pays sid fs"
  by (induction fs) (auto simp: pay_other)

subsection \<open>Receiving\<close>

lemma flows_cell:
  assumes "flows s s'" and "cell b s' = Some sh'"
  obtains sh where "cell b s = Some sh" and "sh_flow sh' = sh_flow sh" and "sh_buffer sh' = sh_buffer sh"
  using assms by (auto simp: flows_def)

lemma buffered_flows:
  assumes "core_ok s'" and "flows s s'" and "streams_get sid s' = streams_get sid s"
  shows "buffered sid s' = buffered sid s"
proof (cases "streams_get sid s")
  case (Some a)
  then obtain sh' where "cell a s' = Some sh'"
    using core_ok_held [OF assms(1), of sid a] assms(3) by auto
  with assms Some show ?thesis
    by (auto simp: buffered_def elim!: flows_cell)
qed (use assms(3) in \<open>simp add: buffered_def\<close>)

lemma removed_same:
  assumes "a_streams s' = a_streams s \<or> a_streams s' = AList.delete j (a_streams s)" and "keeps sid s s'"
  shows "streams_get sid s' = streams_get sid s"
  using assms by (cases "streams_get sid s") (auto simp: keeps_def streams_get_def delete_conv' split: if_splits)

lemma buffered_put:
  assumes "core_ok s" and "core_ok s'" and get: "streams_get j s = Some b"
    and sh: "cell b s = Some sh" and fl: "flows (put_cell b sh1 s) s'"
    and m: "a_streams s' = a_streams s \<or> a_streams s' = AList.delete j (a_streams s)" and "keeps sid s s'"
  shows "buffered sid s' = (if j = sid then chunks_bytes (sh_buffer sh1) else buffered sid s)"
proof -
  note same = removed_same [OF m assms(7)]
  show ?thesis
  proof (cases "streams_get sid s")
    case None
    with same get show ?thesis by (auto simp: buffered_def)
  next
    case (Some a)
    obtain sh' where sh': "cell a s' = Some sh'"
      using core_ok_held [OF assms(2), of sid a] same Some by auto
    have b: "b < length (w_heap s)"
      using sh by (simp add: cell_Some)
    have eq: "sh_buffer sh' = sh_buffer sh0" if "(if a = b then Some sh1 else cell a s) = Some sh0" for sh0
      using flows_cell [OF fl sh'] that by (auto simp: cell_put_cell [OF b] split: if_splits)
    have ex: "a \<noteq> b \<Longrightarrow> \<exists>sh0. cell a s = Some sh0"
      using core_ok_held [OF assms(1) Some] by blast
    show ?thesis
    proof (cases "j = sid")
      case True
      with get Some have "a = b" by simp
      with True sh' eq [of sh1] same Some show ?thesis by (simp add: buffered_def)
    next
      case False
      have "distinct (held s)"
        using assms(1) by (simp add: core_ok_def map_ok_def)
      then have "a \<noteq> b"
        using False get Some inj_onD [of snd "set (a_streams s)" "(j, b)" "(sid, b)"]
        by (auto simp: streams_get_def distinct_map dest!: map_of_SomeD)
      with ex eq sh' same Some False show ?thesis by (auto simp: buffered_def)
    qed
  qed
qed

text \<open>A stream is new: its buffer is that of its cell, and no other buffer changes.\<close>

lemma buffered_opened:
  assumes "core_ok s" and o: "opened_by env fl j s st sh s'"
  shows "buffered sid s' = (if j = sid then chunks_bytes (sh_buffer sh) else buffered sid s)
    \<and> streams_get sid s' = (if j = sid then Some (stm_shared st) else streams_get sid s)"
proof -
  have get: "streams_get sid s' = (if j = sid then Some (stm_shared st) else streams_get sid s)"
    using o by (auto simp: opened_by_def streams_get_def map_add_def split: option.splits)
  moreover have "cell a s' = cell a s" if "streams_get sid s = Some a" for a
    using o held_get [OF that] unfolding opened_by_def by blast
  ultimately show ?thesis
    using o by (auto simp: opened_by_def buffered_def split: option.splits)
qed

subsection \<open>What a frame does\<close>

text \<open>
  Once its \<open>ACK\<close> has been noted, a frame leaves the streams alone, removes its stream, changes the
  cell of its stream, appending the payload to the buffer, or opens its stream, with the payload as
  the buffer. It leaves a stream that is open alone, and its payload or credit unused, only if it
  has \<open>SYN\<close> or exceeds a window. The windows change by exactly its payload and credit.
\<close>

abbreviation frame_stream :: "frame \<Rightarrow> u32" where
  "frame_stream f \<equiv> hdr_stream_id (fr_header f)"

inductive frame_effect :: "('io, 'ch) env \<Rightarrow> frame \<Rightarrow> ('io, 'ch) active \<Rightarrow> ('io, 'ch) active \<Rightarrow> bool" for env f s s' where
  same: "flows s s' \<Longrightarrow> a_streams s' = a_streams s \<Longrightarrow>
    \<not> of_stream (frame_stream f) f \<or> streams_get (frame_stream f) s = None \<or> has_syn f
      \<or> may_receive (frame_stream f) s < frame_payload (frame_stream f) f
      \<or> 2 ^ 32 \<le> may_send (frame_stream f) s + frame_credit (frame_stream f) f \<Longrightarrow> frame_effect env f s s'"
| removed: "flows s s' \<Longrightarrow> a_streams s' = AList.delete (frame_stream f) (a_streams s) \<Longrightarrow> frame_effect env f s s'"
| changed: "changed_by (frame_stream f) (frame_credit (frame_stream f) f) (frame_payload (frame_stream f) f)
    (pay (frame_stream f) f) s s' \<Longrightarrow> frame_effect env f s s'"
| opened: "opened_by env Ack (frame_stream f) s st sh s' \<Longrightarrow> of_stream (frame_stream f) f \<Longrightarrow> has_syn f \<Longrightarrow>
    chunks_bytes (sh_buffer sh) = pay (frame_stream f) f \<Longrightarrow>
    unat (send_window sh) = unat DEFAULT_CREDIT + frame_credit (frame_stream f) f \<Longrightarrow>
    unat (fc_receive_window (sh_flow sh)) + frame_payload (frame_stream f) f = unat DEFAULT_CREDIT \<Longrightarrow>
    \<not> own_id (a_mode s) (frame_stream f) \<Longrightarrow> frame_effect env f s s'"

context conn_env
begin

lemma on_data_effect:
  assumes ok: "core_ok s" and body: "length (fr_body f) < 2 ^ 32" and tag: "hdr_tag (fr_header f) = Data"
    and d: "on_data env f s = Some (act, s')"
  shows "frame_effect env f s s'"
proof -
  let ?j = "frame_stream f" and ?fl = "hdr_flags (fr_header f)"
  have p: "pay ?j f = fr_body f" "of_stream ?j f" "frame_payload ?j f = length (fr_body f)" "frame_credit ?j f = 0"
    using tag by (simp_all add: pay_def of_stream_def frame_payload_def frame_credit_def)
  consider (rst) "flags_contains ?fl RST"
    | (syn) "\<not> flags_contains ?fl RST" "flags_contains ?fl SYN"
    | (other) "\<not> flags_contains ?fl RST" "\<not> flags_contains ?fl SYN"
    by blast
  then show ?thesis
  proof cases
    case rst
    with d flows_reset [of ?j s s'] show ?thesis
      by (auto simp: on_data_def Let_def bind_eq_Some_conv intro: frame_effect.removed)
  next
    case syn
    show ?thesis
    proof (cases "is_valid_remote_id ?j Data s \<and> \<not> contains_key ?j s
        \<and> length (a_streams s) \<noteq> max_num_streams (a_config s) \<and> length (fr_body f) \<le> unat DEFAULT_CREDIT")
      case False
      with syn d have "s' = s"
        by (auto simp: on_data_def Let_def split: if_splits)
      with syn p(2) show ?thesis
        by (auto simp: flows_refl has_syn_def intro!: frame_effect.same)
    next
      case True
      then obtain st sh where "opened_by env Ack ?j s st sh s'" "chunks_bytes (sh_buffer sh) = fr_body f"
        "send_window sh = DEFAULT_CREDIT" "unat (fc_receive_window (sh_flow sh)) + length (fr_body f) = unat DEFAULT_CREDIT"
        using on_data_opens [OF ok _ _ syn _ _ d] by (auto simp: contains_key_def)
      with True p syn remote_not_own [of Data ?j s] show ?thesis
        by (auto simp: has_syn_def intro: frame_effect.opened)
    qed
  next
    case other
    show ?thesis
    proof (cases "streams_get ?j s")
      case None
      with other d show ?thesis
        by (auto simp: on_data_def Let_def flows_refl intro!: frame_effect.same)
    next
      case (Some b)
      from on_data_changes [OF ok Some body other d] show ?thesis
      proof (elim disjE conjE)
        assume "changed_by ?j 0 (length (fr_body f)) (fr_body f) s s'"
        with p show ?thesis by (intro frame_effect.changed) simp
      qed (use p in \<open>auto simp: flows_refl intro: frame_effect.same\<close>)
    qed
  qed
qed

lemma on_window_update_effect:
  assumes ok: "core_ok s" and tag: "hdr_tag (fr_header f) = WindowUpdate"
    and d: "on_window_update env f s = Some (act, s')"
  shows "frame_effect env f s s'"
proof -
  let ?j = "frame_stream f" and ?fl = "hdr_flags (fr_header f)"
  have p: "pay ?j f = []" "of_stream ?j f" "frame_payload ?j f = 0" "frame_credit ?j f = unat (hdr_credit (fr_header f))"
    using tag by (simp_all add: pay_def of_stream_def frame_payload_def frame_credit_def)
  consider (rst) "flags_contains ?fl RST"
    | (syn) "\<not> flags_contains ?fl RST" "flags_contains ?fl SYN"
    | (other) "\<not> flags_contains ?fl RST" "\<not> flags_contains ?fl SYN"
    by blast
  then show ?thesis
  proof cases
    case rst
    with d flows_reset [of ?j s s'] show ?thesis
      by (auto simp: on_window_update_def Let_def bind_eq_Some_conv intro: frame_effect.removed)
  next
    case syn
    show ?thesis
    proof (cases "is_valid_remote_id ?j WindowUpdate s \<and> \<not> contains_key ?j s
        \<and> length (a_streams s) \<noteq> max_num_streams (a_config s)
        \<and> checked_add (hdr_credit (fr_header f)) DEFAULT_CREDIT \<noteq> None")
      case False
      with syn d have "s' = s"
        by (auto simp: on_window_update_def Let_def split: if_splits)
      with syn show ?thesis
        by (auto simp: flows_refl has_syn_def intro!: frame_effect.same)
    next
      case True
      then obtain credit where credit: "checked_add (hdr_credit (fr_header f)) DEFAULT_CREDIT = Some credit"
        by blast
      with True obtain st sh where "opened_by env Ack ?j s st sh s'" "chunks_bytes (sh_buffer sh) = []"
        "send_window sh = credit" "fc_receive_window (sh_flow sh) = DEFAULT_CREDIT"
        using on_window_update_opens [OF ok _ syn _ _ credit d] by (auto simp: contains_key_def)
      moreover from this(3) credit have "unat (send_window sh) = unat DEFAULT_CREDIT + unat (hdr_credit (fr_header f))"
        by (simp add: checked_add_Some_iff)
      ultimately show ?thesis
        using True p syn remote_not_own [of WindowUpdate ?j s]
        by (intro frame_effect.opened [of env f s st sh]) (auto simp: has_syn_def)
    qed
  next
    case other
    show ?thesis
    proof (cases "streams_get ?j s")
      case None
      with other d show ?thesis
        by (auto simp: on_window_update_def Let_def flows_refl intro!: frame_effect.same)
    next
      case (Some b)
      from on_window_update_changes [OF ok Some other d] show ?thesis
      proof (elim disjE conjE)
        assume "changed_by ?j (unat (hdr_credit (fr_header f))) 0 [] s s'"
        with p show ?thesis by (intro frame_effect.changed) simp
      qed (use p in \<open>auto simp: flows_refl intro: frame_effect.same\<close>)
    qed
  qed
qed

lemma on_frame_effect:
  assumes ok: "core_ok s" and f: "frame_ok f" and d: "on_frame env f s = Some (r, s')"
  shows "\<exists>s1. quiet s s1 \<and> flows s s1 \<and> a_streams s1 = a_streams s \<and> frame_effect env f s1 s'"
proof -
  let ?j = "frame_stream f" and ?fl = "hdr_flags (fr_header f)" and ?tag = "hdr_tag (fr_header f)"
  from on_frame_acked [OF ok, of f] obtain s1 where ok1: "core_ok s1"
    and s1: "quiet s s1" "flows s s1" "a_streams s1 = a_streams s" and red: "on_frame env f s =
     (if \<not> flags_contains ?fl SYN \<and> ?tag \<in> {Data, WindowUpdate} \<and> \<not> contains_key ?j s1 then Some (Ok ActNone, s1)
      else case ?tag of
         Data \<Rightarrow> do { (act, s) \<leftarrow> on_data env f s1; Some (Ok act, s) }
       | WindowUpdate \<Rightarrow> do { (act, s) \<leftarrow> on_window_update env f s1; Some (Ok act, s) }
       | Ping \<Rightarrow> (let (act, s) = on_ping env f s1 in Some (Ok act, s))
       | GoAway \<Rightarrow> Some (Err Closed_Error, s1))"
    by blast
  have "frame_effect env f s1 s'"
  proof (cases "\<not> flags_contains ?fl SYN \<and> ?tag \<in> {Data, WindowUpdate} \<and> \<not> contains_key ?j s1")
    case True
    with d show ?thesis
      unfolding red by (auto simp: flows_refl contains_key_def intro!: frame_effect.same)
  next
    case False
    note d' = d [unfolded red if_not_P [OF False]]
    show ?thesis
    proof (cases ?tag)
      case Data
      with d' on_data_effect [OF ok1 body_bound [OF f] Data] show ?thesis
        by (auto simp: bind_eq_Some_conv)
    next
      case WindowUpdate
      with d' on_window_update_effect [OF ok1 WindowUpdate] show ?thesis
        by (auto simp: bind_eq_Some_conv)
    next
      case Ping
      with d' have "flows s1 s'" "a_streams s' = a_streams s1"
        by (auto simp: on_ping_def Let_def flows_def split: if_splits prod.splits)
      with Ping show ?thesis
        by (auto simp: of_stream_def intro: frame_effect.same)
    next
      case GoAway
      with d' show ?thesis
        by (auto simp: of_stream_def flows_refl intro!: frame_effect.same)
    qed
  qed
  with s1 show ?thesis by blast
qed

end

text \<open>
  The buffer of a stream, then: a stream the connection knows gets the payload
  appended; a stream it does not know appears only with a frame of its own that has \<open>SYN\<close>, whose
  payload is then its buffer.
\<close>

definition received_by :: "u32 \<Rightarrow> frame \<Rightarrow> ('io, 'ch) active \<Rightarrow> ('io, 'ch) active \<Rightarrow> bool" where
  "received_by sid f s s' \<longleftrightarrow>
     (case streams_get sid s of
        Some a \<Rightarrow> buffered sid s' = buffered sid s @ pay sid f
      | None \<Rightarrow> streams_get sid s' \<noteq> None \<longrightarrow>
          of_stream sid f \<and> has_syn f \<and> buffered sid s' = pay sid f \<and> \<not> own_id (a_mode s) sid)"

lemma pay_stream: "sid \<noteq> frame_stream f \<Longrightarrow> pay sid f = []"
  by (simp add: pay_def)

text \<open>A frame that carries credit has no payload.\<close>

lemma unat_may_send: "2 ^ 32 \<le> may_send sid s + n \<Longrightarrow> n \<noteq> 0"
  using may_less(2) [of sid s] by auto

lemma pay_no_credit: "frame_credit sid f \<noteq> 0 \<Longrightarrow> pay sid f = []"
  by (auto simp: frame_credit_def pay_def split: if_splits)

lemma received_effect:
  assumes ok: "core_ok s" "core_ok s'" and "frame_effect env f s s'" and kp: "keeps sid s s'"
    and fits: "frame_payload sid f \<le> may_receive sid s"
    and nosyn: "streams_get sid s \<noteq> None \<Longrightarrow> of_stream sid f \<Longrightarrow> \<not> has_syn f"
  shows "received_by sid f s s'"
  using assms(3)
proof cases
  case same
  have g: "streams_get sid s' = streams_get sid s"
    using same(2) by (simp add: streams_get_def)
  have "pay sid f = []" if "streams_get sid s \<noteq> None"
    using same(3) fits nosyn [OF that] that
    by (cases "sid = frame_stream f"; cases "of_stream sid f")
      (auto simp: pay_stream pay_other pay_no_credit unat_may_send)
  with g buffered_flows [OF ok(2) same(1) g] show ?thesis
    by (auto simp: received_by_def split: option.splits)
next
  case removed
  have g: "streams_get sid s' = streams_get sid s"
    using removed_same [OF disjI2 [OF removed(2)] kp] .
  have "pay sid f = []" if "streams_get sid s \<noteq> None"
    using that g removed(2) by (cases "sid = frame_stream f") (auto simp: pay_stream streams_get_def delete_conv')
  with g buffered_flows [OF ok(2) removed(1) g] show ?thesis
    by (auto simp: received_by_def split: option.splits)
next
  case changed
  then obtain b sh sh' where
    get: "streams_get (frame_stream f) s = Some b" and sh: "cell b s = Some sh" and fl: "flows (put_cell b sh' s) s'"
    and m: "a_streams s' = a_streams s \<or> a_streams s' = AList.delete (frame_stream f) (a_streams s)"
    and w: "chunks_bytes (sh_buffer sh') = chunks_bytes (sh_buffer sh) @ pay (frame_stream f) f"
    unfolding changed_by_def by blast
  have "buffered sid s = chunks_bytes (sh_buffer sh)" if "frame_stream f = sid"
    using that get sh by (simp add: buffered_def)
  with buffered_put [OF ok get sh fl m kp] removed_same [OF m kp] w get show ?thesis
    by (auto simp: received_by_def pay_stream split: option.splits)
next
  case (opened st sh)
  from opened(1) have new: "streams_get (frame_stream f) s = None"
    by (simp add: opened_by_def)
  note b = buffered_opened [OF ok(1) opened(1), of sid]
  show ?thesis
    using b new opened(2-7) by (cases "frame_stream f = sid") (auto simp: received_by_def pay_stream split: option.splits)
qed

end
