(* ===== verification/Ordered_Channel.thy ===== *)
theory Ordered_Channel
  imports Command_Channel
begin

text \<open>
  The order the channels keep. An \<open>mpsc\<close> channel is first in, first out, and a sender and its clones
  send to the one channel they were made for. The commands queued for a stream are its lane; as long
  as there is one receiver for the stream, what is sent through its senders is appended to the lane,
  and what the \<open>SelectAll\<close> yields for the stream is taken off its front.
\<close>

subsection \<open>What a connection relies on\<close>

text \<open>Operations that put no command in and take none out.\<close>

inductive mux_idle :: "('ch, 'z) mux_ops_scheme \<Rightarrow> 'ch \<Rightarrow> 'ch \<Rightarrow> bool" for ops ch where
  polled: "idle_chan ops ch ch' \<Longrightarrow> mux_idle ops ch ch'"
| dropped: "mux_idle ops ch (mx_drop ops tx ch)"
| no_command: "mx_poll_next ops cx ch = (r, ch') \<Longrightarrow> (\<And>sid c. r \<noteq> Ready (Some (sid, Some c))) \<Longrightarrow> mux_idle ops ch ch'"

text \<open>\<open>bound tx j\<close>: what is sent through \<open>tx\<close> goes to the stream \<open>j\<close>, if it goes anywhere.\<close>

definition carries ::
    "('ch \<Rightarrow> bool) \<Rightarrow> (sender \<Rightarrow> u32 \<Rightarrow> 'ch \<Rightarrow> bool) \<Rightarrow> (u32 \<Rightarrow> 'ch \<Rightarrow> nat) \<Rightarrow> (u32 \<Rightarrow> nat) \<Rightarrow> 'ch \<Rightarrow> 'ch \<Rightarrow> bool" where
  "carries sound bound receivers new ch ch' \<longleftrightarrow> sound ch' \<and> (\<forall>tx j. bound tx j ch \<longrightarrow> bound tx j ch')
     \<and> (\<forall>j. receivers j ch' \<le> receivers j ch + new j)"

abbreviation no_new :: "u32 \<Rightarrow> nat" where
  "no_new \<equiv> \<lambda>j. 0"

locale ordered_mux =
  fixes ops :: "('ch, 'z) mux_ops_scheme"
    and sound :: "'ch \<Rightarrow> bool"
    and bound :: "sender \<Rightarrow> u32 \<Rightarrow> 'ch \<Rightarrow> bool"
    and receivers :: "u32 \<Rightarrow> 'ch \<Rightarrow> nat"
    and lane :: "u32 \<Rightarrow> 'ch \<Rightarrow> stream_command list"
  assumes idle_order: "sound ch \<Longrightarrow> mux_idle ops ch ch' \<Longrightarrow>
      carries sound bound receivers no_new ch ch' \<and> (\<forall>j. lane j ch' = lane j ch)"
    and send_order: "sound ch \<Longrightarrow> bound tx j ch \<Longrightarrow> ch_start_send ops tx c ch = (r, ch') \<Longrightarrow>
      carries sound bound receivers no_new ch ch' \<and> (\<forall>i. i \<noteq> j \<longrightarrow> lane i ch' = lane i ch) \<and>
      (case r of
         Ok _ \<Rightarrow> set (lane j ch') \<subseteq> insert c (set (lane j ch)) \<and> (receivers j ch \<le> 1 \<longrightarrow> lane j ch' = lane j ch @ [c])
       | Err _ \<Rightarrow> lane j ch' = lane j ch)"
    and item_order: "sound ch \<Longrightarrow> mx_poll_next ops cx ch = (Ready (Some (sid, Some c)), ch') \<Longrightarrow>
      carries sound bound receivers no_new ch ch' \<and> (\<forall>i. i \<noteq> sid \<longrightarrow> lane i ch' = lane i ch) \<and>
      c \<in> set (lane sid ch) \<and> set (lane sid ch') \<subseteq> set (lane sid ch) \<and>
      (receivers sid ch \<le> 1 \<longrightarrow> lane sid ch = c # lane sid ch')"
    and channel_order: "sound ch \<Longrightarrow> mx_channel ops sid ch = (tx, ch') \<Longrightarrow>
      carries sound bound receivers (\<lambda>j. if j = sid then 1 else 0) ch ch' \<and> bound tx sid ch'
      \<and> (\<forall>j. lane j ch' = lane j ch)"
    and clone_order: "sound ch \<Longrightarrow> bound tx sid ch \<Longrightarrow> mx_clone ops tx ch = (tx', ch') \<Longrightarrow>
      carries sound bound receivers no_new ch ch' \<and> bound tx' sid ch' \<and> (\<forall>j. lane j ch' = lane j ch)"
begin

text \<open>A stream is opened with a channel of its own and a clone of its sender.\<close>

lemma open_order:
  assumes "sound ch" and "mx_channel ops sid ch = (tx, ch1)" and "mx_clone ops tx ch1 = (tx', ch2)"
  shows "carries sound bound receivers (\<lambda>j. if j = sid then 1 else 0) ch ch2 \<and> bound tx sid ch2 \<and> bound tx' sid ch2
    \<and> (\<forall>j. lane j ch2 = lane j ch)"
proof -
  note c = channel_order [OF assms(1,2)]
  then have "sound ch1" "bound tx sid ch1"
    by (simp_all add: carries_def)
  from clone_order [OF this assms(3)] have d: "carries sound bound receivers no_new ch1 ch2" "bound tx' sid ch2"
    "\<forall>j. lane j ch2 = lane j ch1"
    by blast+
  have "receivers j ch2 \<le> receivers j ch1" "receivers j ch1 \<le> receivers j ch + (if j = sid then 1 else 0)" for j
    using c d(1) by (simp_all add: carries_def)
  then have "receivers j ch2 \<le> receivers j ch + (if j = sid then 1 else 0)" for j
    by (rule le_trans)
  with c d show ?thesis
    unfolding carries_def by metis
qed

end

subsection \<open>The reference implementation\<close>

abbreviation live :: "u32 \<Rightarrow> (u32, receiver) tagged \<Rightarrow> bool" where
  "live j t \<equiv> ts_key t = j \<and> \<not> ts_reported_none t"

fun rx_lane :: "u32 \<Rightarrow> (u32, receiver) tagged list \<Rightarrow> stream_command list" where
  "rx_lane j [] = []"
| "rx_lane j (t # ts) = (if live j t then rc_queue (ts_inner t) else []) @ rx_lane j ts"

fun rx_count :: "u32 \<Rightarrow> (u32, receiver) tagged list \<Rightarrow> nat" where
  "rx_count j [] = 0"
| "rx_count j (t # ts) = (if live j t then 1 else 0) + rx_count j ts"

definition chans_sound :: "chans \<Rightarrow> bool" where
  "chans_sound s \<longleftrightarrow> (\<forall>t \<in> set (cs_rx s). \<forall>tx \<in> set (rc_senders (ts_inner t)). tx < cs_next s)"

definition chans_bound :: "sender \<Rightarrow> u32 \<Rightarrow> chans \<Rightarrow> bool" where
  "chans_bound tx j s \<longleftrightarrow> tx < cs_next s \<and> (\<forall>t \<in> set (cs_rx s). tx \<in> set (rc_senders (ts_inner t)) \<longrightarrow> ts_key t = j)"

definition chans_lane :: "u32 \<Rightarrow> chans \<Rightarrow> stream_command list" where
  "chans_lane j s = rx_lane j (cs_rx s)"

definition chans_count :: "u32 \<Rightarrow> chans \<Rightarrow> nat" where
  "chans_count j s = rx_count j (cs_rx s)"

lemmas chans_defs = chans_sound_def chans_bound_def chans_lane_def chans_count_def

text \<open>Receivers may go or lose senders.\<close>

definition rx_keeps :: "(u32, receiver) tagged list \<Rightarrow> (u32, receiver) tagged list \<Rightarrow> bool" where
  "rx_keeps ts ts' \<longleftrightarrow> (\<forall>j. rx_count j ts' \<le> rx_count j ts)
     \<and> (\<forall>t' \<in> set ts'. \<exists>t \<in> set ts. ts_key t' = ts_key t \<and> set (rc_senders (ts_inner t')) \<subseteq> set (rc_senders (ts_inner t)))"

lemma rx_keeps_carries:
  assumes "chans_sound s" and "rx_keeps (cs_rx s) (cs_rx s')" and "cs_next s' = cs_next s"
  shows "carries chans_sound chans_bound chans_count no_new s s'"
  using assms by (fastforce simp: carries_def chans_defs rx_keeps_def)

lemma rx_keeps_refl: "rx_keeps ts ts"
  by (auto simp: rx_keeps_def)

lemma rx_keeps_drop: "rx_keeps ts ts' \<Longrightarrow> rx_keeps (t # ts) ts'"
  by (auto simp: rx_keeps_def trans_le_add2)

lemma rx_keeps_Cons:
  "rx_keeps ts ts' \<Longrightarrow> ts_key t' = ts_key t \<Longrightarrow> (ts_reported_none t \<longrightarrow> ts_reported_none t') \<Longrightarrow>
    set (rc_senders (ts_inner t')) \<subseteq> set (rc_senders (ts_inner t)) \<Longrightarrow> rx_keeps (t # ts) (t' # ts')"
  by (auto simp: rx_keeps_def intro: add_mono le_SucI)

lemma rx_keeps_map:
  assumes "\<And>t. ts_key (f t) = ts_key t \<and> (ts_reported_none t \<longrightarrow> ts_reported_none (f t))
    \<and> set (rc_senders (ts_inner (f t))) \<subseteq> set (rc_senders (ts_inner t))"
  shows "rx_keeps ts (map f ts)"
  by (induction ts) (use assms in \<open>auto intro!: rx_keeps_Cons rx_keeps_refl\<close>)

lemma rx_lane_map:
  assumes "\<And>t. ts_key (f t) = ts_key t \<and> ts_reported_none (f t) = ts_reported_none t
    \<and> rc_queue (ts_inner (f t)) = rc_queue (ts_inner t)"
  shows "rx_lane j (map f ts) = rx_lane j ts" and "rx_count j (map f ts) = rx_count j ts"
  using assms by (induction ts) auto

lemma rx_lane_none: "rx_count j ts = 0 \<Longrightarrow> rx_lane j ts = []"
  by (induction ts) (auto split: if_splits)

lemma rx_lane_append [simp]: "rx_lane j (ts @ us) = rx_lane j ts @ rx_lane j us" "rx_count j (ts @ us) = rx_count j ts + rx_count j us"
  by (induction ts) auto

lemma send_to_order:
  assumes "send_to tx c ts = (r, ts')" and "\<forall>t \<in> set ts. tx \<in> set (rc_senders (ts_inner t)) \<longrightarrow> ts_key t = j"
  shows "rx_keeps ts ts' \<and> (\<forall>i. i \<noteq> j \<longrightarrow> rx_lane i ts' = rx_lane i ts) \<and>
    (case r of
       Ok _ \<Rightarrow> set (rx_lane j ts') \<subseteq> insert c (set (rx_lane j ts)) \<and> (rx_count j ts \<le> 1 \<longrightarrow> rx_lane j ts' = rx_lane j ts @ [c])
     | Err _ \<Rightarrow> rx_lane j ts' = rx_lane j ts)"
  using assms
proof (induction ts arbitrary: r ts')
  case (Cons t ts)
  show ?case
  proof (cases "owns tx t")
    case True
    with Cons.prems have "ts_key t = j" "\<not> ts_reported_none t"
      by (auto simp: owns_def)
    with True Cons.prems(1) show ?thesis
      by (auto simp: tagged_inner_mut_def rx_lane_none intro!: rx_keeps_Cons rx_keeps_refl)
  next
    case False
    obtain r1 ts1 where 1: "send_to tx c ts = (r1, ts1)"
      by (rule prod.exhaust)
    with Cons.IH [OF 1] Cons.prems False show ?thesis
      by (cases r1) (auto simp: rx_lane_none intro!: rx_keeps_Cons rx_keeps_refl)
  qed
qed (simp add: rx_keeps_refl)

lemma select_next_order:
  assumes "select_next cx ts = (r, ts')"
  shows "rx_keeps ts ts' \<and>
    (case r of
       Ready (Some (sid, Some c)) \<Rightarrow> (\<forall>i. i \<noteq> sid \<longrightarrow> rx_lane i ts' = rx_lane i ts) \<and> c \<in> set (rx_lane sid ts)
         \<and> set (rx_lane sid ts') \<subseteq> set (rx_lane sid ts)
         \<and> 1 \<le> rx_count sid ts \<and> (rx_count sid ts \<le> 1 \<longrightarrow> rx_lane sid ts = c # rx_lane sid ts')
     | _ \<Rightarrow> \<forall>i. rx_lane i ts' = rx_lane i ts)"
  using assms
proof (induction ts arbitrary: r ts')
  case (Cons t ts)
  consider (reported) "ts_reported_none t"
    | (item) c q where "\<not> ts_reported_none t" "rc_queue (ts_inner t) = c # q"
    | (empty) "\<not> ts_reported_none t" "rc_queue (ts_inner t) = []"
    by (meson list.exhaust)
  then show ?case
  proof cases
    case reported
    then have "rx_lane i (t # ts) = rx_lane i ts" "rx_count i (t # ts) = rx_count i ts"
      "select_next cx (t # ts) = select_next cx ts" for i
      by (simp_all add: tagged_poll_next_def)
    with Cons.IH Cons.prems show ?thesis by (simp only: rx_keeps_drop simp_thms)
  next
    case item
    with Cons.prems show ?thesis
      by (auto simp: tagged_poll_next_def receiver_poll_next_def intro!: rx_keeps_Cons rx_keeps_refl)
  next
    case empty
    obtain r1 ts1 where 1: "select_next cx ts = (r1, ts1)"
      by (rule prod.exhaust)
    show ?thesis
    proof (cases "rc_closed (ts_inner t) \<or> rc_senders (ts_inner t) = []")
      case True
      with empty Cons.prems show ?thesis
        by (auto simp: tagged_poll_next_def receiver_poll_next_def intro!: rx_keeps_Cons rx_keeps_refl)
    next
      case False
      with empty Cons.prems 1 Cons.IH [OF 1] show ?thesis
        by (auto simp: tagged_poll_next_def receiver_poll_next_def intro!: rx_keeps_Cons rx_keeps_refl
            split: if_splits poll.splits option.splits prod.splits; metis)
    qed
  qed
qed (simp add: rx_keeps_refl)

interpretation list_mux: ordered_mux list_mux chans_sound chans_bound chans_count chans_lane
proof (unfold_locales, goal_cases)
  case (1 ch ch')
  from 1(2) have "rx_keeps (cs_rx ch) (cs_rx ch') \<and> cs_next ch' = cs_next ch \<and> (\<forall>j. rx_lane j (cs_rx ch') = rx_lane j (cs_rx ch))"
  proof cases
    case polled
    then show ?thesis by (auto simp: idle_chan_def list_mux_def rx_keeps_refl)
  next
    case (dropped tx)
    then show ?thesis
      by (auto simp: list_mux_def tagged_inner_mut_def intro!: rx_keeps_map rx_lane_map)
  next
    case (no_command cx r)
    then show ?thesis
      using select_next_order [of cx "cs_rx ch"]
      by (auto simp: list_mux_def split: prod.splits poll.splits option.splits)
  qed
  with 1(1) show ?case
    by (auto simp: chans_lane_def intro: rx_keeps_carries)
next
  case (2 ch tx j c r ch')
  obtain ts where s: "send_to tx c (cs_rx ch) = (r, ts)" "ch' = ch\<lparr>cs_rx := ts\<rparr>"
    using 2(3) by (auto simp: list_mux_def split: prod.splits)
  have "\<forall>t \<in> set (cs_rx ch). tx \<in> set (rc_senders (ts_inner t)) \<longrightarrow> ts_key t = j"
    using 2(2) by (simp add: chans_bound_def)
  note o = send_to_order [OF s(1) this]
  then have "carries chans_sound chans_bound chans_count no_new ch ch'"
    using 2(1) s(2) by (intro rx_keeps_carries) simp_all
  with o show ?case
    unfolding s(2) by (cases r) (simp_all add: chans_lane_def chans_count_def)
next
  case (3 ch cx sid c ch')
  obtain ts where s: "select_next cx (cs_rx ch) = (Ready (Some (sid, Some c)), ts)" "ch' = ch\<lparr>cs_rx := ts\<rparr>"
    using 3(2) by (auto simp: list_mux_def split: prod.splits)
  note o = select_next_order [OF s(1)]
  then have "carries chans_sound chans_bound chans_count no_new ch ch'"
    using 3(1) s(2) by (intro rx_keeps_carries) simp_all
  with o show ?case
    by (simp add: s(2) chans_lane_def chans_count_def)
next
  case (4 ch sid tx ch')
  then show ?case
    by (fastforce simp: list_mux_def carries_def chans_defs tagged_new_def)
next
  case (5 ch tx sid tx' ch')
  let ?f = "\<lambda>t. if owns tx t then tagged_inner_mut (\<lambda>r. r\<lparr>rc_senders := cs_next ch # rc_senders r\<rparr>) t else t"
  have c: "tx' = cs_next ch" "ch' = ch\<lparr>cs_next := Suc (cs_next ch), cs_rx := map ?f (cs_rx ch)\<rparr>"
    using 5(3) by (auto simp: list_mux_def)
  have "rx_lane j (map ?f (cs_rx ch)) = rx_lane j (cs_rx ch)" "rx_count j (map ?f (cs_rx ch)) = rx_count j (cs_rx ch)" for j
    by (rule rx_lane_map, simp add: tagged_inner_mut_def)+
  with 5(1,2) c show ?case
    by (fastforce simp: carries_def chans_defs tagged_inner_mut_def owns_def)
qed

end
