(* ===== verification/Stream_Order.thy ===== *)
theory Stream_Order
  imports Stream_Bytes Ordered_Channel
begin

text \<open>
  What one step of a connection or of its user does to the bytes of a stream. On the way out: the
  frames of the stream that wait for the socket, in the order in which they will go, keep that
  order, and a write appends its bytes. On the way in: what arrives is appended to the buffer and
  what is read is taken off its front.
\<close>

subsection \<open>On the way out\<close>

text \<open>The frames of a stream that are still to be sent: the pending one and the lane of the stream.\<close>

definition due :: "(u32 \<Rightarrow> 'ch \<Rightarrow> stream_command list) \<Rightarrow> u32 \<Rightarrow> ('io, 'ch) active \<Rightarrow> frame list" where
  "due lane sid s = filter (of_stream sid) (case a_pending_write_frame s of Some f \<Rightarrow> [f] | None \<Rightarrow> [])
     @ map (command_frame sid) (lane sid (w_chan s))"

text \<open>The handle of the stream has yet to send \<open>SYN\<close>.\<close>

definition flagged :: "u32 \<Rightarrow> ('io, 'ch) active \<Rightarrow> bool" where
  "flagged sid s \<longleftrightarrow> (\<exists>st \<in> set (w_handles s). stm_id st = sid \<and> stm_flag st = Syn)"

text \<open>
  A step that sends \<open>ss\<close> and takes the bytes \<open>w\<close> from the user of the stream: the frames due move on
  and at most one is added, with these bytes. Only a handle that owes it sends \<open>SYN\<close>, and then owes
  it no longer.
\<close>

definition queues ::
    "(u32 \<Rightarrow> 'ch \<Rightarrow> stream_command list) \<Rightarrow> u32 \<Rightarrow> ('io, 'ch) active \<Rightarrow> frame list \<Rightarrow> bytes \<Rightarrow> ('io, 'ch) active \<Rightarrow> bool" where
  "queues lane sid s ss w s' \<longleftrightarrow>
     (\<exists>new. due lane sid s @ new = filter (of_stream sid) ss @ due lane sid s' \<and> pays sid new = w
        \<and> (new = [] \<or> (\<exists>g. new = [g] \<and> of_stream sid g \<and> streams_get sid s \<noteq> None \<and> (has_syn g \<longrightarrow> flagged sid s)))
        \<and> (flagged sid s' \<longrightarrow> flagged sid s \<and> w = [] \<and> (\<forall>g \<in> set new. \<not> has_syn g \<and> frame_credit sid g = 0)
             \<or> streams_get sid s = None \<and> own_id (a_mode s) sid))"

lemma queues_same:
  assumes "due lane sid s = filter (of_stream sid) ss @ due lane sid s'" and "flagged sid s' \<Longrightarrow> flagged sid s"
  shows "queues lane sid s ss [] s'"
  using assms by (auto simp: queues_def)

lemma due_cong:
  assumes "a_pending_write_frame s' = a_pending_write_frame s" and "lane sid (w_chan s') = lane sid (w_chan s)"
  shows "due lane sid s' = due lane sid s"
  using assms by (simp add: due_def)

text \<open>What \<open>queues\<close> looks at.\<close>

definition same_lanes :: "('io, 'ch) active \<Rightarrow> ('io, 'ch) active \<Rightarrow> bool" where
  "same_lanes s s' \<longleftrightarrow> w_chan s' = w_chan s \<and> w_handles s' = w_handles s \<and> a_streams s' = a_streams s
     \<and> a_pending_write_frame s' = a_pending_write_frame s \<and> a_mode s' = a_mode s"

lemma queues_cong:
  assumes "same_lanes s s0" and "same_lanes t0 t" and "queues lane sid s0 ss w t0"
  shows "queues lane sid s ss w t"
  using assms by (simp add: queues_def same_lanes_def due_def flagged_def streams_get_def)

lemma same_lanes_reply: "same_lanes s (queue_reply act s)"
  by (cases "(act, s)" rule: queue_reply.cases) (simp_all add: same_lanes_def)

lemma of_stream_close [simp]: "of_stream sid (frame_close_stream j ack) \<longleftrightarrow> j = sid"
  by (auto simp: of_stream_def frame_close_stream_def frame_new_def header_data_def hdr_fin_def hdr_ack_def Let_def)

lemma has_syn_close [simp]: "\<not> has_syn (frame_close_stream j ack)"
  using contains_flag_or [of FIN SYN 0] contains_flag_or [of ACK SYN FIN] contains_zero [of SYN]
  by (auto simp: has_syn_def frame_close_stream_def frame_new_def header_data_def hdr_fin_def hdr_ack_def Let_def
      flags_contains_def SYN_def ACK_def FIN_def)

lemma of_stream_unique: "of_stream i f \<Longrightarrow> of_stream j f \<Longrightarrow> i = j"
  by (simp add: of_stream_def)

lemma credit_close [simp]: "frame_credit sid (frame_close_stream j ack) = 0"
  by (simp add: frame_credit_def frame_close_stream_def frame_new_def header_data_def hdr_fin_def hdr_ack_def Let_def)

lemma pay_close [simp]: "pay sid (frame_close_stream j ack) = []"
  by (simp add: pay_def frame_close_stream_def frame_new_def Let_def)

lemma drop_stream_frame:
  assumes "on_drop_stream j s = Some (Some f, s')"
  shows "frame_stream f = j \<and> streams_get j s \<noteq> None"
  using assms
  by (auto simp: on_drop_stream_def Let_def bind_eq_Some_conv frame_new_def header_data_def hdr_rst_def hdr_fin_def
      split: option.splits stream_state.splits; metis stream_state.exhaust)

text \<open>A stream has one handle.\<close>

lemma flagged_update:
  assumes "core_ok s" and "linked sid s" and i: "i < length (w_handles s)"
    and s': "w_handles s' = (w_handles s)[i := (w_handles s ! i)\<lparr>stm_flag := fl\<rparr>]"
  shows "flagged sid s' \<longleftrightarrow> (if stm_id (w_handles s ! i) = sid then fl = Syn else flagged sid s)"
proof -
  have d: "distinct (addresses s)"
    using assms(1) by (simp add: core_ok_def world_ok_def)
  have only: "k = i" if "stm_id (w_handles s ! i) = sid" "k < length (w_handles s)" "stm_id (w_handles s ! k) = sid" for k
  proof -
    have "streams_get sid s = Some (stm_shared (w_handles s ! i))" "streams_get sid s = Some (stm_shared (w_handles s ! k))"
      using assms(2) i that nth_mem [of _ "w_handles s"] unfolding linked_def by blast+
    then have "addresses s ! i = addresses s ! k"
      using i that by simp
    with nth_eq_iff_index_eq [OF d, of i k] i that show ?thesis
      by simp
  qed
  have f: "flagged sid t \<longleftrightarrow> (\<exists>k < length (w_handles t). stm_id (w_handles t ! k) = sid \<and> stm_flag (w_handles t ! k) = Syn)" for t
    unfolding flagged_def Bex_def in_set_conv_nth by blast
  show ?thesis
    using i only by (auto simp: f s' nth_list_update)
qed

text \<open>The bytes of a stream that a call on the \<open>i\<close>-th handle takes and gives.\<close>

definition call_bytes :: "('io, 'ch) env \<Rightarrow> u32 \<Rightarrow> nat \<Rightarrow> stream_call \<Rightarrow> ('io, 'ch) active \<Rightarrow> bytes \<times> bytes" where
  "call_bytes env sid i c s =
     (let st = w_handles s ! i in
      case cell (stm_shared st) s of
        Some sh \<Rightarrow> if stm_id st = sid
          then (call_written (e_ch env) c (handle_ctx st sh s), call_read (e_ch env) (rtt_get (w_rtt s)) c (handle_ctx st sh s))
          else ([], [])
      | None \<Rightarrow> ([], []))"

text \<open>A connection over channels that keep the order.\<close>

locale lane_env =
  duplex_env env out inp queued ends + order: ordered_mux "e_ch env" sound bound receivers lane
  for env :: "('io, 'ch) env" and out and inp and queued and ends and sound and bound and receivers and lane
begin

definition lanes_ok :: "u32 \<Rightarrow> ('io, 'ch) active \<Rightarrow> bool" where
  "lanes_ok sid s \<longleftrightarrow> sound (w_chan s)
     \<and> (\<forall>st \<in> set (w_handles s). \<forall>tx \<in> {stm_sender st, stm_window_update_sender st}. bound tx (stm_id st) (w_chan s))
     \<and> (\<forall>j. \<forall>c \<in> set (lane j (w_chan s)). of_stream j (command_frame j c))
     \<and> receivers sid (w_chan s) \<le> (if streams_get sid s = None then 0 else 1)
     \<and> (\<forall>f. a_pending_read_frame s = Some f \<longrightarrow> \<not> of_stream sid f)"

text \<open>Steps that add no command.\<close>

lemma lanes_ok_carries:
  assumes "lanes_ok sid s" and "carries sound bound receivers no_new (w_chan s) (w_chan s')"
    and "\<And>st'. st' \<in> set (w_handles s') \<Longrightarrow> \<exists>st \<in> set (w_handles s). \<exists>fl. st' = st\<lparr>stm_flag := fl\<rparr>"
    and "\<And>j c. c \<in> set (lane j (w_chan s')) \<Longrightarrow> c \<in> set (lane j (w_chan s)) \<or> of_stream j (command_frame j c)"
    and "streams_get sid s' = None \<Longrightarrow> streams_get sid s = None"
    and "\<And>f. a_pending_read_frame s' = Some f \<Longrightarrow> \<not> of_stream sid f"
  shows "lanes_ok sid s'"
proof -
  have "receivers sid (w_chan s') \<le> receivers sid (w_chan s)"
    using assms(2) by (simp add: carries_def)
  then have "receivers sid (w_chan s') \<le> (if streams_get sid s' = None then 0 else 1)"
    using assms(1,5) by (auto simp: lanes_ok_def split: if_splits)
  moreover have "bound tx (stm_id st') (w_chan s')"
    if "st' \<in> set (w_handles s')" "tx \<in> {stm_sender st', stm_window_update_sender st'}" for st' tx
    using assms(3) [OF that(1)] that(2) assms(1,2) by (auto simp: lanes_ok_def carries_def)
  moreover have "of_stream j (command_frame j c)" if "c \<in> set (lane j (w_chan s'))" for j c
    using assms(4) [OF that] assms(1) by (auto simp: lanes_ok_def)
  ultimately show ?thesis
    using assms(2,6) by (simp add: lanes_ok_def carries_def)
qed

lemma carries_trans:
  assumes "carries sound bound receivers no_new ch ch1" and "carries sound bound receivers no_new ch1 ch2"
  shows "carries sound bound receivers no_new ch ch2"
proof -
  have "receivers j ch2 \<le> receivers j ch1" "receivers j ch1 \<le> receivers j ch" for j
    using assms by (simp_all add: carries_def)
  then have "receivers j ch2 \<le> receivers j ch" for j
    by (rule le_trans)
  with assms show ?thesis by (simp add: carries_def)
qed

lemma same_handle: "st \<in> set hs \<Longrightarrow> \<exists>st' \<in> set hs. \<exists>fl. st = st'\<lparr>stm_flag := fl\<rparr>"
  by (intro bexI [of _ st] exI [of _ "stm_flag st"]) simp_all

lemma carries_refl: "lanes_ok sid s \<Longrightarrow> carries sound bound receivers no_new (w_chan s) (w_chan s)"
  by (simp add: carries_def lanes_ok_def)

text \<open>A stream is opened: nothing is queued, and the new handle may owe \<open>SYN\<close>.\<close>

lemma opened_queues:
  assumes ok: "lanes_ok sid s" and o: "opened_by env fl j s st sh s'" and "a_pending_write_frame s' = a_pending_write_frame s"
    and "\<And>f. a_pending_read_frame s' = Some f \<Longrightarrow> \<not> of_stream sid f" and "fl = Syn \<Longrightarrow> own_id (a_mode s) j"
  shows "queues lane sid s [] [] s' \<and> lanes_ok sid s'"
proof -
  from o obtain ch where ch: "mx_channel (e_ch env) j (w_chan s) = (stm_sender st, ch)"
    "mx_clone (e_ch env) (stm_sender st) ch = (stm_window_update_sender st, w_chan s')"
    and st: "w_handles s' = w_handles s @ [st]" "stm_id st = j" "stm_flag st = fl" "streams_get j s = None"
      "a_streams s' = a_streams s @ [(j, stm_shared st)]"
    by (auto simp: opened_by_def)
  have "sound (w_chan s)"
    using ok by (simp add: lanes_ok_def)
  note c = order.open_order [OF this ch]
  have get: "streams_get sid s' = (if j = sid then Some (stm_shared st) else streams_get sid s)"
    using st(4,5) by (auto simp: streams_get_def map_add_def split: option.splits)
  have lanes: "lane i (w_chan s') = lane i (w_chan s)" for i
    using c by blast
  have "receivers sid (w_chan s') \<le> receivers sid (w_chan s) + (if sid = j then 1 else 0)"
    using c by (simp add: carries_def)
  then have "receivers sid (w_chan s') \<le> (if streams_get sid s' = None then 0 else 1)"
    using ok st(4) get by (auto simp: lanes_ok_def split: if_splits)
  moreover have "\<forall>st' \<in> set (w_handles s'). \<forall>tx \<in> {stm_sender st', stm_window_update_sender st'}. bound tx (stm_id st') (w_chan s')"
    using ok c st(1,2) by (auto simp: lanes_ok_def carries_def)
  ultimately have "lanes_ok sid s'"
    using ok c assms(4) by (simp add: lanes_ok_def lanes carries_def)
  moreover have "due lane sid s' = due lane sid s"
    using assms(3) lanes by (intro due_cong)
  moreover have "flagged sid s' \<Longrightarrow> flagged sid s \<or> streams_get sid s = None \<and> own_id (a_mode s) sid"
    using st assms(5) by (auto simp: flagged_def)
  ultimately show ?thesis
    by (auto simp: queues_def)
qed

text \<open>The sending steps of the connection.\<close>

lemma command_queues:
  assumes ok: "lanes_ok sid s" and "a_pending_write_frame s = None"
    and p: "mx_poll_next (e_ch env) cx (w_chan s) = (Ready (Some (j, Some c)), ch)"
    and s': "s' = s\<lparr>w_chan := ch, a_pending_write_frame := Some (command_frame j c)\<rparr>"
  shows "queues lane sid s [] [] s' \<and> lanes_ok sid s'"
proof -
  have "sound (w_chan s)" and one: "receivers sid (w_chan s) \<le> 1"
    using ok by (auto simp: lanes_ok_def split: if_splits)
  note i = order.item_order [OF this(1) p]
  have f: "of_stream j (command_frame j c)"
    using ok i by (simp add: lanes_ok_def)
  have "due lane sid s = due lane sid s'"
  proof (cases "j = sid")
    case True
    with i one f assms(2) show ?thesis by (simp add: due_def s')
  next
    case False
    with f of_stream_unique [of j "command_frame j c" sid] i assms(2) show ?thesis by (auto simp: due_def s')
  qed
  moreover have "\<And>j c. c \<in> set (lane j ch) \<Longrightarrow> c \<in> set (lane j (w_chan s))"
    using i by (metis subsetD)
  then have "lanes_ok sid s'"
    using i ok by (intro lanes_ok_carries [OF ok]) (auto simp: s' streams_get_def lanes_ok_def intro: same_handle)
  ultimately show ?thesis
    by (auto simp: s' flagged_def intro: queues_same)
qed

lemma idle_queues:
  assumes ok: "lanes_ok sid s" and "mux_idle (e_ch env) (w_chan s) (w_chan s')"
    and "w_handles s' = w_handles s" and "streams_get sid s' = None \<Longrightarrow> streams_get sid s = None"
    and "\<And>f. a_pending_read_frame s' = Some f \<Longrightarrow> \<not> of_stream sid f"
    and w: "filter (of_stream sid) (case a_pending_write_frame s of Some f \<Rightarrow> [f] | None \<Rightarrow> [])
      = filter (of_stream sid) (ss @ (case a_pending_write_frame s' of Some f \<Rightarrow> [f] | None \<Rightarrow> []))"
  shows "queues lane sid s ss [] s' \<and> lanes_ok sid s'"
proof -
  have "sound (w_chan s)"
    using ok by (simp add: lanes_ok_def)
  note i = order.idle_order [OF this assms(2)]
  have "due lane sid s = filter (of_stream sid) ss @ due lane sid s'"
    using i w by (simp add: due_def)
  moreover have "lanes_ok sid s'"
    using i assms(3-5) by (intro lanes_ok_carries [OF ok]) (auto intro: same_handle)
  ultimately show ?thesis
    using assms(3) by (auto simp: flagged_def intro: queues_same)
qed

lemma flows_idle: "flows s s' \<Longrightarrow> mux_idle (e_ch env) (w_chan s) (w_chan s')"
  using mux_idle.polled [OF idle_chan_simps(1)] by (simp add: flows_def)

lemma lanes_ok_cong:
  assumes "lanes_ok sid s" and "same_lanes s t" and "\<And>f. a_pending_read_frame t = Some f \<Longrightarrow> \<not> of_stream sid f"
  shows "lanes_ok sid t"
  using assms by (simp add: lanes_ok_def same_lanes_def streams_get_def)

lemma got_queues:
  assumes ok: "lanes_ok sid s" and core: "core_ok s" and f: "frame_ok f" and kp: "keeps sid s t"
    and none: "a_pending_read_frame s = None" and d: "on_frame env f s = Some (r, s1)"
    and t: "t = (case r of Ok act \<Rightarrow> queue_reply act s1 | Err e \<Rightarrow> s1)"
  shows "queues lane sid s [] [] t \<and> lanes_ok sid t \<and> a_mode t = a_mode s"
proof -
  from on_frame_effect [OF core f d] obtain s0 where
    s0: "quiet s s0" "flows s s0" "a_streams s0 = a_streams s" and e: "frame_effect env f s0 s1"
    by blast
  from on_frame_ok [OF core f] d have io: "same_io s s1"
    by (auto simp: handles_def)
  have l0: "same_lanes s s0" and l1: "same_lanes s1 t" and r0: "a_pending_read_frame s0 = None" "a_pending_read_frame s1 = None"
    using s0 io none same_lanes_reply
    by (auto simp: same_lanes_def quiet_def same_io_def flows_def t split: result.splits)
  have rd: "\<not> of_stream sid g" if "a_pending_read_frame t = Some g" for g
  proof (cases r)
    case (Ok act)
    with that reply_tags [of f s act s1] d none io show ?thesis
      by (cases act) (auto simp: t same_io_def of_stream_def)
  next
    case (Err e)
    with that none io show ?thesis by (simp add: t same_io_def)
  qed
  have ok0: "lanes_ok sid s0"
    using lanes_ok_cong [OF ok l0] r0 by simp
  have pw: "a_pending_write_frame s1 = a_pending_write_frame s0"
    using io l0 by (simp add: same_io_def same_lanes_def)
  have "queues lane sid s0 [] [] s1 \<and> lanes_ok sid s1"
  proof (cases "\<exists>st sh. opened_by env Ack (frame_stream f) s0 st sh s1")
    case False
    with e have "flows s0 s1 \<or> (\<exists>b sh. flows (put_cell b sh s0) s1)"
      by cases (auto simp: changed_by_def)
    then have "w_handles s1 = w_handles s0" "w_chan s1 = w_chan s0"
      by (auto simp: flows_def put_cell_def)
    moreover have "streams_get sid s0 = None" if "streams_get sid s1 = None"
      using that kp l0 l1 by (cases "streams_get sid s0") (auto simp: keeps_def same_lanes_def streams_get_def)
    ultimately show ?thesis
      using pw r0(2) idle_chan_simps(1) [of "e_ch env" "w_chan s0"]
      by (intro idle_queues [OF ok0]) (auto intro: mux_idle.polled)
  next
    case True
    then show ?thesis
      using opened_queues [OF ok0 _ pw] r0(2) by auto
  qed
  with queues_cong [OF l0 l1] lanes_ok_cong [OF _ l1 rd] l1 io show ?thesis
    by (auto simp: same_lanes_def same_io_def)
qed

lemma dropped_queues:
  assumes ok: "lanes_ok sid s" and core: "core_ok s" and kp: "keeps sid s s'" and none: "a_pending_write_frame s = None"
    and p: "mx_poll_next (e_ch env) cx (w_chan s) = (Ready (Some (j, None)), ch)"
    and d: "on_drop_stream j (s\<lparr>w_chan := ch\<rparr>) = Some (fo, s1)"
    and s': "s' = (case fo of Some f \<Rightarrow> s1\<lparr>a_pending_write_frame := Some f\<rparr> | None \<Rightarrow> s1)"
  shows "queues lane sid s [] [] s' \<and> lanes_ok sid s' \<and> a_mode s' = a_mode s"
proof -
  let ?s0 = "s\<lparr>w_chan := ch\<rparr>"
  have "core_ok ?s0"
    using core by simp
  from on_drop_stream_ok [OF this, of j] d have h: "quiet ?s0 s1"
    by auto
  note fl = flows_drop_stream [OF d]
  have eq: "w_handles s' = w_handles s" "w_chan s' = ch" "a_streams s' = AList.delete j (a_streams s)"
    "a_pending_read_frame s' = a_pending_read_frame s" "a_mode s' = a_mode s"
    "a_pending_write_frame s1 = None"
    using fl h none by (auto simp: s' flows_def quiet_def same_io_def split: option.splits)
  have "\<not> of_stream sid f" if "fo = Some f" for f
    using drop_stream_frame [of j ?s0 f s1] d that kp eq(3)
    by (auto simp: keeps_def streams_get_def delete_conv' of_stream_def)
  then have w: "filter (of_stream sid) (case a_pending_write_frame s' of Some f \<Rightarrow> [f] | None \<Rightarrow> []) = []"
    using eq(6) by (auto simp: s' split: option.splits)
  have "mux_idle (e_ch env) (w_chan s) (w_chan s')"
    using mux_idle.no_command [OF p] eq(2) by simp
  moreover have "streams_get sid s = None" if "streams_get sid s' = None"
    using that kp by (cases "streams_get sid s") (auto simp: keeps_def)
  moreover have "\<And>f. a_pending_read_frame s' = Some f \<Longrightarrow> \<not> of_stream sid f"
    using ok eq(4) by (simp add: lanes_ok_def)
  ultimately show ?thesis
    using idle_queues [OF ok _ eq(1), of "[]"] w none eq(5) by simp
qed

lemma peer_step_queues:
  assumes "peer_step env s l s'" and ok: "lanes_ok sid s" and core: "core_ok s" and kp: "keeps sid s s'"
    and "\<forall>f \<in> set (got_by l). frame_ok f"
  shows "queues lane sid s (sent_by l) [] s' \<and> lanes_ok sid s' \<and> a_mode s' = a_mode s"
proof -
  have rd: "\<And>f. a_pending_read_frame s = Some f \<Longrightarrow> \<not> of_stream sid f"
    using ok by (simp add: lanes_ok_def)
  note still = mux_idle.polled [OF idle_chan_simps(1) [of "e_ch env" "w_chan s"]]
  have step: ?thesis if "mux_idle (e_ch env) (w_chan s) (w_chan s')" "w_handles s' = w_handles s"
      "a_streams s' = a_streams s" "a_mode s' = a_mode s" "\<And>f. a_pending_read_frame s' = Some f \<Longrightarrow> \<not> of_stream sid f"
      "filter (of_stream sid) (case a_pending_write_frame s of Some f \<Rightarrow> [f] | None \<Rightarrow> [])
        = filter (of_stream sid) (sent_by l @ (case a_pending_write_frame s' of Some f \<Rightarrow> [f] | None \<Rightarrow> []))"
    using idle_queues [OF ok that(1,2) _ that(5,6)] that(3,4) by (simp add: streams_get_def)
  from assms(1) show ?thesis
  proof cases
    case (io k)
    with rd still show ?thesis
      by (intro step) auto
  next
    case (ping p rt)
    have "\<not> of_stream sid f" if "p = Some f" for f
      using ping(3) that by (auto simp: next_ping_def Let_def of_stream_def frame_ping_def frame_new_def header_ping_def
          split: if_splits)
    with ping(1,2) rd still show ?thesis
      by (cases p; intro step) auto
  next
    case (reply f)
    with rd still show ?thesis
      by (intro step) auto
  next
    case (send f)
    with rd still show ?thesis
      by (intro step) auto
  next
    case (command cx j c ch)
    with command_queues [OF ok command(3,4,2)] show ?thesis by simp
  next
    case (dropped cx j ch fo s1)
    with dropped_queues [OF ok core kp dropped(3-5,2)] show ?thesis by simp
  next
    case (blocked cx ch)
    with rd mux_idle.no_command [OF blocked(3)] show ?thesis
      by (intro step) auto
  next
    case (no_streams cx ch)
    with rd mux_idle.no_command [OF no_streams(3)] show ?thesis
      by (intro step) auto
  next
    case (got f act s1)
    with got_queues [OF ok core _ kp got(3,4)] assms(5) show ?thesis by simp
  next
    case (go_away f e)
    with got_queues [OF ok core _ kp go_away(2,3)] assms(5) show ?thesis by simp
  qed
qed

text \<open>The steps of the user.\<close>

lemma send_lanes:
  assumes ok: "lanes_ok sid s" and i: "i < length (w_handles s)" and st: "st = w_handles s ! i"
    and tx: "tx \<in> {stm_sender st, stm_window_update_sender st}" and idle: "idle_chan (e_ch env) (w_chan s) ch"
    and send: "ch_start_send (e_ch env) tx c ch = (r, w_chan s')" and c: "of_stream (stm_id st) (command_frame (stm_id st) c)"
    and s': "a_streams s' = a_streams s" "same_io s s'" "w_handles s' = (w_handles s)[i := st\<lparr>stm_flag := fl\<rparr>]"
  shows "lanes_ok sid s' \<and>
    due lane sid s' = due lane sid s @ (if r = Ok () \<and> stm_id st = sid then [command_frame sid c] else [])"
proof -
  have one: "receivers sid (w_chan s) \<le> 1" and b: "sound (w_chan s)" "bound tx (stm_id st) (w_chan s)"
    using ok tx nth_mem [OF i] unfolding st by (auto simp: lanes_ok_def split: if_splits)
  note o1 = order.idle_order [OF b(1) mux_idle.polled [OF idle]]
  then have b1: "sound ch" "bound tx (stm_id st) ch" and "receivers sid ch \<le> receivers sid (w_chan s)"
    using b(2) by (simp_all add: carries_def)
  then have one1: "receivers sid ch \<le> 1"
    using one by linarith
  note o2 = order.send_order [OF b1 send]
  have carry: "carries sound bound receivers no_new (w_chan s) (w_chan s')"
    using o1 o2 by (blast intro: carries_trans)
  have new: "of_stream j (command_frame j d)" if "d \<in> set (lane j (w_chan s'))" "d \<notin> set (lane j (w_chan s))" for j d
    using that o1 o2 c by (cases r; cases "j = stm_id st") auto
  have "lanes_ok sid s'"
  proof (rule lanes_ok_carries [OF ok carry])
    show "\<exists>st \<in> set (w_handles s). \<exists>fl. st' = st\<lparr>stm_flag := fl\<rparr>" if "st' \<in> set (w_handles s')" for st'
    proof (cases "st' \<in> set (w_handles s)")
      case False
      then have "st' = st\<lparr>stm_flag := fl\<rparr>"
        using that unfolding s'(3) by (auto dest!: set_update_subset_insert [THEN subsetD])
      with i show ?thesis by (auto simp: st)
    qed (rule same_handle)
  qed (use new s' ok in \<open>auto simp: streams_get_def same_io_def lanes_ok_def\<close>)
  moreover have "lane sid (w_chan s') = lane sid (w_chan s) @ (if r = Ok () \<and> stm_id st = sid then [c] else [])"
    using o1 o2 one1 by (cases r; cases "sid = stm_id st") auto
  then have "due lane sid s' = due lane sid s @ (if r = Ok () \<and> stm_id st = sid then [command_frame sid c] else [])"
    using s'(2) by (simp add: due_def same_io_def)
  ultimately show ?thesis by blast
qed

lemma call_queues:
  assumes ok: "lanes_ok sid s" and core: "core_ok s" and lk: "linked sid s"
    and c: "i < length (w_handles s)" "call_ok c" "handle_call (e_ch env) i c s = Some s'"
  shows "queues lane sid s [] (fst (call_bytes env sid i c s)) s' \<and> lanes_ok sid s' \<and> a_mode s' = a_mode s"
proof -
  define st where st: "st = w_handles s ! i"
  from handle_call_ctx [OF core c] obtain sh x fl where sh: "cell (stm_shared st) s = Some sh"
    and x: "run_call (e_ch env) (rtt_get (w_rtt s)) c (handle_ctx st sh s) = Some x"
    and fl: "cx_stream x = st\<lparr>stm_flag := fl\<rparr>"
    and s': "s' = (put_cell (stm_shared st) (cx_shared x) s)
       \<lparr>w_handles := (w_handles s)[i := cx_stream x], w_acc := cx_acc x, w_chan := cx_chan x\<rparr>"
    unfolding st by blast
  note f = handle_call_fields [OF c(3)]
  have hs: "w_handles s' = (w_handles s)[i := st\<lparr>stm_flag := fl\<rparr>]" and ch: "w_chan s' = cx_chan x"
    using fl by (simp_all add: s')
  note fu = flagged_update [OF core lk c(1) hs [unfolded st]]
  have known: "streams_get sid s \<noteq> None" "stm_flag st = Syn \<Longrightarrow> flagged sid s" if "stm_id st = sid"
    using that lk c(1) nth_mem [OF c(1)] by (auto simp: linked_def flagged_def st)
  have w: "fst (call_bytes env sid i c s) = (if stm_id st = sid then call_written (e_ch env) c (handle_ctx st sh s) else [])"
    using sh by (simp add: call_bytes_def Let_def flip: st)
  have mode: "a_mode s' = a_mode s"
    using f by (simp add: same_io_def)
  from sends_call [OF x] have "queues lane sid s [] (fst (call_bytes env sid i c s)) s' \<and> lanes_ok sid s'"
  proof cases
    case idle
    have hs: "w_handles s' = w_handles s"
      using idle(2) fl hs c(1) by (simp add: handle_ctx_def st)
    have "mux_idle (e_ch env) (w_chan s) (w_chan s')"
      using idle(1) ch by (simp add: handle_ctx_def mux_idle.polled)
    moreover have "\<And>f. a_pending_read_frame s' = Some f \<Longrightarrow> \<not> of_stream sid f"
      using f ok by (simp add: same_io_def lanes_ok_def)
    ultimately show ?thesis
      using idle_queues [OF ok _ hs, of "[]"] idle(3) f w by (simp add: same_io_def streams_get_def)
  next
    case (frame ch tx g r)
    let ?g = "snd (add_flag (stm_flag st) g)"
    have g: "of_stream (stm_id st) ?g" "pay (stm_id st) ?g = (if hdr_tag (fr_header g) = Data then fr_body g else [])"
      "has_syn ?g \<longleftrightarrow> stm_flag st = Syn"
      using frame(3,5,6) flagged_frame(1) [OF frame(3)] by (auto simp: of_stream_def pay_def handle_ctx_def)
    have "lanes_ok sid s' \<and> due lane sid s' = due lane sid s @ (if r = Ok () \<and> stm_id st = sid then [?g] else [])"
      using send_lanes [OF ok c(1) st _ _ _ _ _ _ hs, of tx ch "SendFrame ?g" r] frame(1,2,8) g(1) f ch
      by (simp add: handle_ctx_def)
    moreover have "flagged sid s' \<Longrightarrow> stm_id st \<noteq> sid \<and> flagged sid s"
      using fu frame(7) fl by (auto simp: st split: if_splits)
    ultimately show ?thesis
      using g known frame(9) w by (auto simp: queues_def)
  next
    case (close ch tx r)
    have "lanes_ok sid s' \<and> due lane sid s' = due lane sid s
        @ (if r = Ok () \<and> stm_id st = sid then [frame_close_stream sid (stm_flag st = Ack)] else [])"
      using send_lanes [OF ok c(1) st _ _ _ _ _ _ hs, of tx ch "CloseStream (stm_flag st = Ack)" r] close(1,2,4) f ch
      by (simp add: handle_ctx_def)
    moreover have "flagged sid s' \<Longrightarrow> flagged sid s"
      using fu close(3) fl known(2) by (auto simp: st handle_ctx_def split: if_splits)
    ultimately show ?thesis
      using known(1) close(5) w by (auto simp: queues_def)
  qed
  with mode show ?thesis by blast
qed

lemma drop_queues:
  assumes ok: "lanes_ok sid s" and d: "drop_handle (e_ch env) (held s) i s = Some s'"
  shows "queues lane sid s [] [] s' \<and> lanes_ok sid s' \<and> a_mode s' = a_mode s"
proof -
  note f = drop_handle_fields [OF d]
  let ?ch = "mx_drop (e_ch env) (stm_sender (w_handles s ! i)) (w_chan s)"
  have s: "sound (w_chan s)"
    using ok by (simp add: lanes_ok_def)
  note o1 = order.idle_order [OF s mux_idle.dropped, of "stm_sender (w_handles s ! i)"]
  then have "sound ?ch"
    by (simp add: carries_def)
  note o2 = order.idle_order [OF this mux_idle.dropped, of "stm_window_update_sender (w_handles s ! i)"]
  have hs: "set (w_handles s') \<subseteq> set (w_handles s)"
    using d by (auto simp: drop_handle_def Let_def arc_drop_def bind_eq_Some_conv split: if_splits
        dest: in_set_takeD in_set_dropD)
  have "carries sound bound receivers no_new (w_chan s) (w_chan s')" and lanes: "lane j (w_chan s') = lane j (w_chan s)" for j
    using f o1 o2 by (auto intro: carries_trans)
  then have "lanes_ok sid s'"
    using hs f ok by (intro lanes_ok_carries [OF ok])
      (auto simp: streams_get_def same_io_def lanes_ok_def intro: same_handle)
  moreover have "due lane sid s' = due lane sid s"
    using f lanes by (intro due_cong) (simp_all add: same_io_def)
  moreover have "flagged sid s' \<Longrightarrow> flagged sid s"
    using hs unfolding flagged_def by blast
  ultimately show ?thesis
    using f by (simp add: same_io_def queues_same)
qed

lemma outbound_queues:
  assumes ok: "lanes_ok sid s" and core: "core_ok s" and p: "active_poll_new_outbound env cx s = Some (r, s')"
  shows "queues lane sid s [] [] s' \<and> lanes_ok sid s' \<and> a_mode s' = a_mode s"
proof -
  from poll_new_outbound_ok [OF core, of cx] p have io: "same_io s s'" and r: "outbound_ok cx s r s'"
    by (auto simp: handles_def)
  have rd: "\<And>f. a_pending_read_frame s' = Some f \<Longrightarrow> \<not> of_stream sid f"
    using io ok by (simp add: same_io_def lanes_ok_def)
  have "queues lane sid s [] [] s' \<and> lanes_ok sid s'"
  proof (cases "\<exists>st. r = Ready (Ok st)")
    case True
    with p outbound_opens [OF core] obtain st sh where "opened_by env Syn (a_next_id s) s st sh s'"
      by blast
    moreover have "own_id (a_mode s) (a_next_id s)"
      using core by (simp add: core_ok_def map_ok_def)
    ultimately show ?thesis
      using opened_queues [OF ok, of Syn "a_next_id s" st sh s'] rd io by (simp add: same_io_def)
  next
    case False
    then consider "r = Pending" | e where "r = Ready (Err e)"
      by (metis poll.exhaust result.exhaust)
    then have s: "same_lanes s s'"
      using r by cases (simp_all add: outbound_ok_def same_lanes_def)
    then have "queues lane sid s [] [] s'"
      by (intro queues_same) (simp_all add: same_lanes_def due_def flagged_def)
    with lanes_ok_cong [OF ok s rd] show ?thesis by blast
  qed
  with io show ?thesis by (simp add: same_io_def)
qed

end

subsection \<open>On the way in\<close>

text \<open>
  A step that receives \<open>gs\<close> and gives the bytes \<open>r\<close> to the user of the stream. A stream that the
  connection did not know is opened by the user, or by a frame with \<open>SYN\<close>.
\<close>

definition reads :: "u32 \<Rightarrow> ('io, 'ch) active \<Rightarrow> frame list \<Rightarrow> bytes \<Rightarrow> ('io, 'ch) active \<Rightarrow> bool" where
  "reads sid s gs r s' \<longleftrightarrow>
     (case streams_get sid s of
        Some a \<Rightarrow> r @ buffered sid s' = buffered sid s @ pays sid gs
      | None \<Rightarrow> r = [] \<and> (streams_get sid s' \<noteq> None \<longrightarrow>
          (if own_id (a_mode s) sid then gs = [] \<and> buffered sid s' = []
           else \<exists>f. gs = [f] \<and> of_stream sid f \<and> has_syn f \<and> buffered sid s' = pay sid f)))"

lemma reads_same:
  assumes "buffered sid s' = buffered sid s" and "streams_get sid s' = streams_get sid s"
  shows "reads sid s [] [] s'"
  using assms by (simp add: reads_def split: option.splits)

lemma buffered_cells:
  assumes "streams_get sid s' = streams_get sid s" and "\<And>a. streams_get sid s = Some a \<Longrightarrow> cell a s' = cell a s"
  shows "buffered sid s' = buffered sid s"
  using assms by (cases "streams_get sid s") (simp_all add: buffered_def)

lemma buffered_cong:
  assumes "a_streams s' = a_streams s" and "w_heap s' = w_heap s"
  shows "buffered sid s' = buffered sid s" and "streams_get sid s' = streams_get sid s"
proof -
  show "streams_get sid s' = streams_get sid s"
    using assms(1) by (simp add: streams_get_def)
  then show "buffered sid s' = buffered sid s"
    using assms(2) by (intro buffered_cells) (simp_all add: cell_def)
qed

lemma may_receive_flows:
  assumes "core_ok s'" and "flows s s'" and "a_streams s' = a_streams s"
  shows "may_receive sid s' = may_receive sid s"
proof (cases "streams_get sid s")
  case (Some a)
  then have "streams_get sid s' = Some a"
    using assms(3) by (simp add: streams_get_def)
  with core_ok_held [OF assms(1)] Some assms(2) show ?thesis
    by (force simp: may_receive_def flows_def)
qed (use assms(3) in \<open>simp add: may_receive_def streams_get_def\<close>)

context lane_env
begin

lemma got_reads:
  assumes core: "core_ok s" and f: "frame_ok f" and kp: "keeps sid s t"
    and fits: "frame_payload sid f \<le> may_receive sid s"
    and nosyn: "streams_get sid s \<noteq> None \<Longrightarrow> of_stream sid f \<Longrightarrow> \<not> has_syn f"
    and d: "on_frame env f s = Some (r, s1)" and t: "t = (case r of Ok act \<Rightarrow> queue_reply act s1 | Err e \<Rightarrow> s1)"
  shows "reads sid s [f] [] t"
proof -
  from on_frame_effect [OF core f d] obtain s0 where
    s0: "quiet s s0" "flows s s0" "a_streams s0 = a_streams s" and e: "frame_effect env f s0 s1"
    by blast
  from on_frame_ok [OF core f] d have core1: "core_ok s1"
    by (auto simp: handles_def)
  have core0: "core_ok s0"
    using s0(1) by (simp add: quiet_def)
  have g0: "streams_get sid s0 = streams_get sid s" and gt: "streams_get sid t = streams_get sid s1"
    using s0(3) by (simp_all add: streams_get_def t queue_reply_fields split: result.splits)
  have b: "buffered sid s0 = buffered sid s" "a_mode s0 = a_mode s"
    using buffered_flows [OF core0 s0(2) g0] s0(1) by (simp_all add: quiet_def same_io_def)
  have "cell a t = cell a s1" for a
    by (simp add: t queue_reply_fields split: result.splits)
  then have bt: "buffered sid t = buffered sid s1"
    by (intro buffered_cells gt)
  have "received_by sid f s0 s1"
    using fits nosyn kp g0 gt may_receive_flows [OF core0 s0(2,3), of sid]
    by (intro received_effect [OF core0 core1 e]) (auto simp: keeps_def)
  with b bt g0 gt show ?thesis
    by (auto simp: received_by_def reads_def split: option.splits)
qed

lemma peer_step_reads:
  assumes "peer_step env s l s'" and core: "core_ok s" and kp: "keeps sid s s'"
    and "\<And>f. l = Got f \<Longrightarrow> frame_ok f \<and> frame_payload sid f \<le> may_receive sid s
      \<and> (streams_get sid s \<noteq> None \<longrightarrow> of_stream sid f \<longrightarrow> \<not> has_syn f)"
  shows "reads sid s (got_by l) [] s'"
  using assms(1)
proof cases
  case (dropped cx j ch fo s1)
  let ?s0 = "s\<lparr>w_chan := ch\<rparr>"
  have "core_ok ?s0"
    using core by simp
  from on_drop_stream_ok [OF this, of j] dropped(5) have core1: "core_ok s1"
    by (auto simp: quiet_def)
  note fl = flows_drop_stream [OF dropped(5)]
  have eq: "a_streams s' = a_streams s1" "w_heap s' = w_heap s1"
    by (simp_all add: dropped(2) split: option.splits)
  have g: "streams_get sid s1 = streams_get sid ?s0"
    using fl kp eq(1) by (intro removed_same [of _ _ j]) (auto simp: keeps_def streams_get_def)
  have "buffered sid s1 = buffered sid s"
    using buffered_flows [OF core1 _ g] fl buffered_cong(1) [of ?s0 s] by simp
  with g buffered_cong [OF eq] dropped(1) show ?thesis
    by (auto simp: streams_get_def intro!: reads_same)
next
  case (got f act s1)
  with got_reads [OF core _ kp _ _ got(4)] assms(4) show ?thesis by simp
next
  case (go_away f e)
  with got_reads [OF core _ kp _ _ go_away(3)] assms(4) show ?thesis by simp
next
  case (ping p rt)
  then show ?thesis
    by (cases p) (auto intro!: reads_same buffered_cong)
qed (auto intro!: reads_same buffered_cong)

lemma outbound_reads:
  assumes core: "core_ok s" and p: "active_poll_new_outbound env cx s = Some (r, s')"
  shows "reads sid s [] [] s'"
proof (cases "\<exists>st. r = Ready (Ok st)")
  case True
  with p outbound_opens [OF core] obtain st sh where
    o: "opened_by env Syn (a_next_id s) s st sh s'" "chunks_bytes (sh_buffer sh) = []"
    by blast
  moreover have "own_id (a_mode s) (a_next_id s)"
    using core by (simp add: core_ok_def map_ok_def)
  moreover have "streams_get (a_next_id s) s = None"
    using o(1) by (simp add: opened_by_def)
  ultimately show ?thesis
    using buffered_opened [OF core o(1), of sid] by (auto simp: reads_def split: option.splits if_splits)
next
  case False
  then consider "r = Pending" | e where "r = Ready (Err e)"
    by (metis poll.exhaust result.exhaust)
  then show ?thesis
    using poll_new_outbound_ok [OF core, of cx] p
    by cases (auto simp: outbound_ok_def intro!: reads_same buffered_cong)
qed

lemma call_reads_bytes:
  assumes core: "core_ok s" and lk: "linked sid s"
    and c: "i < length (w_handles s)" "call_ok c" "handle_call (e_ch env) i c s = Some s'"
  shows "reads sid s [] (snd (call_bytes env sid i c s)) s'"
proof -
  define st where st: "st = w_handles s ! i"
  from handle_call_ctx [OF core c] obtain sh x where sh: "cell (stm_shared st) s = Some sh"
    and ctx: "ctx_ok (rtt_get (w_rtt s)) (handle_ctx st sh s)"
    and x: "run_call (e_ch env) (rtt_get (w_rtt s)) c (handle_ctx st sh s) = Some x"
    and s': "s' = (put_cell (stm_shared st) (cx_shared x) s)
       \<lparr>w_handles := (w_handles s)[i := cx_stream x], w_acc := cx_acc x, w_chan := cx_chan x\<rparr>"
    unfolding st by blast
  have r: "snd (call_bytes env sid i c s)
      = (if stm_id st = sid then call_read (e_ch env) (rtt_get (w_rtt s)) c (handle_ctx st sh s) else [])"
    using sh by (simp add: call_bytes_def Let_def flip: st)
  have get: "streams_get sid s' = streams_get sid s" and link: "stm_id st = sid \<longleftrightarrow> streams_get sid s = Some (stm_shared st)"
    and cells: "cell b s' = (if b = stm_shared st then Some (cx_shared x) else cell b s)" for b
    using lk sh nth_mem [OF c(1)] by (simp_all add: s' streams_get_def put_cell_def st linked_def cell_put_cell cell_Some)
      (simp_all add: cell_def nth_list_update)
  note b = call_reads [OF ctx c(2) x]
  show ?thesis
  proof (cases "stm_id st = sid")
    case True
    with link b r cells sh get show ?thesis
      by (simp add: reads_def buffered_def handle_ctx_def)
  next
    case False
    with link cells have "buffered sid s' = buffered sid s"
      by (intro buffered_cells get) auto
    with False r get show ?thesis
      by (simp add: reads_same)
  qed
qed

lemma drop_reads:
  assumes core: "core_ok s" and c: "i < length (w_handles s)" "drop_handle (e_ch env) (held s) i s = Some s'"
  shows "reads sid s [] [] s'"
proof -
  have w: "world_ok (a_config s) (held s) s"
    using core by (simp add: core_ok_def)
  from drop_handle_ok [OF w c(1), of "e_ch env"] c(2) have d: "\<forall>a \<in> set (held s). cell a s' = cell a s"
    by auto
  have g: "streams_get sid s' = streams_get sid s"
    using drop_handle_fields [OF c(2)] by (simp add: streams_get_def)
  moreover have "cell a s' = cell a s" if "streams_get sid s = Some a" for a
    using bspec [OF d held_get [OF that]] .
  ultimately have "buffered sid s' = buffered sid s"
    by (intro buffered_cells)
  with g show ?thesis by (intro reads_same)
qed

end

end
