(* ===== verification/Delivery.thy ===== *)
theory Delivery
  imports Stream_Order "HOL-Library.Sublist"
begin

text \<open>
  Two connections and a stream between them, with the record of all that happened: the frames each
  side has sent and received, the bytes its user has written to the stream and read from it. The
  bytes arrive in the order in which they were written, none twice and none left out.
\<close>

record ('io, 'ch) party =
  pt_conn :: "('io, 'ch) active"
  pt_sent :: "frame list"
  pt_got :: "frame list"
  pt_written :: bytes
  pt_read :: bytes

definition party_new :: "('io, 'ch) active \<Rightarrow> ('io, 'ch) party" where
  "party_new s = \<lparr>pt_conn = s, pt_sent = [], pt_got = [], pt_written = [], pt_read = []\<rparr>"

inductive deed :: "('io, 'ch) env \<Rightarrow> u32 \<Rightarrow> ('io, 'ch) party \<Rightarrow> ('io, 'ch) party \<Rightarrow> bool" for env sid p where
  peer: "peer_step env (pt_conn p) l s \<Longrightarrow>
    deed env sid p (p\<lparr>pt_conn := s, pt_sent := pt_sent p @ sent_by l, pt_got := pt_got p @ got_by l\<rparr>)"
| outbound: "active_poll_new_outbound env cx (pt_conn p) = Some (r, s) \<Longrightarrow> deed env sid p (p\<lparr>pt_conn := s\<rparr>)"
| call: "i < length (w_handles (pt_conn p)) \<Longrightarrow> call_ok c \<Longrightarrow> handle_call (e_ch env) i c (pt_conn p) = Some s \<Longrightarrow>
    deed env sid p (p\<lparr>pt_conn := s, pt_written := pt_written p @ fst (call_bytes env sid i c (pt_conn p)),
      pt_read := pt_read p @ snd (call_bytes env sid i c (pt_conn p))\<rparr>)"
| drop: "i < length (w_handles (pt_conn p)) \<Longrightarrow>
    drop_handle (e_ch env) (held (pt_conn p)) i (pt_conn p) = Some s \<Longrightarrow> deed env sid p (p\<lparr>pt_conn := s\<rparr>)"

text \<open>Each side receives what the other has sent, in that order, and neither forgets the stream.\<close>

inductive chat ::
    "('io, 'ch) env \<Rightarrow> ('io, 'ch) env \<Rightarrow> u32 \<Rightarrow> ('io, 'ch) party \<Rightarrow> ('io, 'ch) party \<Rightarrow>
       ('io, 'ch) party \<Rightarrow> ('io, 'ch) party \<Rightarrow> bool" for el er sid p0 q0 where
  start: "chat el er sid p0 q0 p0 q0"
| left: "chat el er sid p0 q0 p q \<Longrightarrow> deed el sid p p' \<Longrightarrow> prefix (pt_got p') (pt_sent q) \<Longrightarrow>
    keeps sid (pt_conn p) (pt_conn p') \<Longrightarrow> chat el er sid p0 q0 p' q"
| right: "chat el er sid p0 q0 p q \<Longrightarrow> deed er sid q q' \<Longrightarrow> prefix (pt_got q') (pt_sent p) \<Longrightarrow>
    keeps sid (pt_conn q) (pt_conn q') \<Longrightarrow> chat el er sid p0 q0 p q'"

subsection \<open>A chat is a talk\<close>

definition transit :: "('io, 'ch) party \<Rightarrow> ('io, 'ch) party \<Rightarrow> frame list" where
  "transit p q = List.drop (length (pt_got q)) (pt_sent p)"

definition duo_of :: "('io, 'ch) party \<Rightarrow> ('io, 'ch) party \<Rightarrow> ('io, 'ch) duo" where
  "duo_of p q = \<lparr>left = pt_conn p, right = pt_conn q, to_right = transit p q, to_left = transit q p\<rparr>"

lemma transit_append: "prefix (pt_got q) (pt_sent p) \<Longrightarrow> pt_got q @ transit p q = pt_sent p"
  by (auto simp: transit_def prefix_def)

lemma deed_log:
  assumes "deed env sid p p'"
  shows "\<exists>ss gs w r. pt_sent p' = pt_sent p @ ss \<and> pt_got p' = pt_got p @ gs \<and> pt_written p' = pt_written p @ w
    \<and> pt_read p' = pt_read p @ r \<and> (\<forall>xs ys. turn env (pt_conn p) xs (gs @ ys) (pt_conn p') (xs @ ss) ys)"
  using assms
proof cases
  case (peer l s)
  then show ?thesis
    by (cases l) (auto intro: turn.intros)
next
  case (outbound cx r s)
  then show ?thesis
    by (auto intro!: turn.user intro: user_step.intros)
next
  case (call i c s)
  then show ?thesis
    by (auto intro!: turn.user intro: user_step.intros)
next
  case (drop i s)
  then show ?thesis
    by (auto intro!: turn.user intro: user_step.intros)
qed

lemma transit_step:
  assumes "pt_sent p' = pt_sent p @ ss" and "pt_got p' = pt_got p @ gs"
    and "prefix (pt_got p') (pt_sent q)" and "prefix (pt_got q) (pt_sent p)"
  shows "transit p' q = transit p q @ ss" and "transit q p = gs @ transit q p'"
  using assms by (auto simp: transit_def prefix_def)

lemma deed_exchange_left:
  assumes "deed el sid p p'" and "prefix (pt_got p') (pt_sent q)" and "prefix (pt_got q) (pt_sent p)"
  shows "exchange el er (duo_of p q) (duo_of p' q) \<and> prefix (pt_got q) (pt_sent p')"
proof -
  from deed_log [OF assms(1)] obtain ss gs where l: "pt_sent p' = pt_sent p @ ss" "pt_got p' = pt_got p @ gs"
    and t: "\<forall>xs ys. turn el (pt_conn p) xs (gs @ ys) (pt_conn p') (xs @ ss) ys"
    by blast
  show ?thesis
    using exchange.left [of el "duo_of p q" "pt_conn p'" "transit p q @ ss" "transit q p'" er] t l(1) assms(3)
      transit_step [OF l assms(2,3)]
    by (simp add: duo_of_def)
qed

lemma deed_exchange_right:
  assumes "deed er sid q q'" and "prefix (pt_got q') (pt_sent p)" and "prefix (pt_got p) (pt_sent q)"
  shows "exchange el er (duo_of p q) (duo_of p q') \<and> prefix (pt_got p) (pt_sent q')"
proof -
  from deed_log [OF assms(1)] obtain ss gs where l: "pt_sent q' = pt_sent q @ ss" "pt_got q' = pt_got q @ gs"
    and t: "\<forall>xs ys. turn er (pt_conn q) xs (gs @ ys) (pt_conn q') (xs @ ss) ys"
    by blast
  show ?thesis
    using exchange.right [of er "duo_of p q" "pt_conn q'" "transit q p @ ss" "transit p q'" el] t l(1) assms(3)
      transit_step [OF l assms(2,3)]
    by (simp add: duo_of_def)
qed

lemma chat_talk:
  assumes "chat el er sid p0 q0 p q" and "prefix (pt_got q0) (pt_sent p0)" and "prefix (pt_got p0) (pt_sent q0)"
  shows "talk el er sid (duo_of p0 q0) (duo_of p q) \<and> prefix (pt_got q) (pt_sent p) \<and> prefix (pt_got p) (pt_sent q)"
  using assms
proof (induction rule: chat.induct)
  case start
  then show ?case by (simp add: talk.start)
next
  case (left p q p')
  with deed_exchange_left [OF left.hyps(2,3), of er] show ?case
    by (auto simp: duo_of_def keeps_def intro: talk.turn)
next
  case (right p q q')
  with deed_exchange_right [OF right.hyps(2,3), of el] show ?case
    by (auto simp: duo_of_def keeps_def intro: talk.turn)
qed

subsection \<open>What one side has sent\<close>

definition outgoing :: "(u32 \<Rightarrow> 'ch \<Rightarrow> stream_command list) \<Rightarrow> u32 \<Rightarrow> ('io, 'ch) party \<Rightarrow> frame list" where
  "outgoing lane sid p = filter (of_stream sid) (pt_sent p) @ due lane sid (pt_conn p)"

text \<open>At most one frame has \<open>SYN\<close>, and neither payload nor credit goes before it.\<close>

definition syn_first :: "u32 \<Rightarrow> frame list \<Rightarrow> bool" where
  "syn_first sid fs \<longleftrightarrow> (\<forall>xs f ys. fs = xs @ f # ys \<longrightarrow> has_syn f \<longrightarrow>
     pays sid xs = [] \<and> frames_credit sid xs = 0 \<and> (\<forall>g \<in> set ys. \<not> has_syn g))"

lemma syn_first_snoc:
  assumes "syn_first sid fs" and "has_syn g \<Longrightarrow> pays sid fs = [] \<and> frames_credit sid fs = 0 \<and> (\<forall>f \<in> set fs. \<not> has_syn f)"
  shows "syn_first sid (fs @ [g])"
  unfolding syn_first_def
proof (intro allI impI)
  fix xs f ys
  assume fs: "fs @ [g] = xs @ f # ys" and f: "has_syn f"
  show "pays sid xs = [] \<and> frames_credit sid xs = 0 \<and> (\<forall>g \<in> set ys. \<not> has_syn g)"
  proof (cases ys rule: rev_cases)
    case Nil
    with fs f assms(2) show ?thesis by simp
  next
    case (snoc zs z)
    with fs have "fs = xs @ f # zs" "z = g"
      by simp_all
    with assms snoc f show ?thesis
      by (auto simp: syn_first_def)
  qed
qed

definition sends_ok :: "(u32 \<Rightarrow> 'ch \<Rightarrow> stream_command list) \<Rightarrow> u32 \<Rightarrow> ('io, 'ch) party \<Rightarrow> bool" where
  "sends_ok lane sid p \<longleftrightarrow> pays sid (outgoing lane sid p) = pt_written p \<and> syn_first sid (outgoing lane sid p)
     \<and> (flagged sid (pt_conn p) \<longrightarrow> pt_written p = [] \<and> (\<forall>g \<in> set (outgoing lane sid p). \<not> has_syn g \<and> frame_credit sid g = 0))
     \<and> (streams_get sid (pt_conn p) = None \<longrightarrow> outgoing lane sid p = [])"

lemma queues_outgoing:
  assumes "queues lane sid (pt_conn p) ss w (pt_conn p')" and "pt_sent p' = pt_sent p @ ss"
  obtains new where "outgoing lane sid p' = outgoing lane sid p @ new" and "pays sid new = w"
    and "new = [] \<or> (\<exists>g. new = [g] \<and> streams_get sid (pt_conn p) \<noteq> None \<and> (has_syn g \<longrightarrow> flagged sid (pt_conn p)))"
    and "flagged sid (pt_conn p') \<longrightarrow> flagged sid (pt_conn p) \<and> w = [] \<and> (\<forall>g \<in> set new. \<not> has_syn g \<and> frame_credit sid g = 0)
      \<or> streams_get sid (pt_conn p) = None \<and> own_id (a_mode (pt_conn p)) sid"
proof -
  from assms(1) obtain new where "due lane sid (pt_conn p) @ new = filter (of_stream sid) ss @ due lane sid (pt_conn p')"
    "pays sid new = w"
    "new = [] \<or> (\<exists>g. new = [g] \<and> of_stream sid g \<and> streams_get sid (pt_conn p) \<noteq> None \<and> (has_syn g \<longrightarrow> flagged sid (pt_conn p)))"
    "flagged sid (pt_conn p') \<longrightarrow> flagged sid (pt_conn p) \<and> w = [] \<and> (\<forall>g \<in> set new. \<not> has_syn g \<and> frame_credit sid g = 0)
      \<or> streams_get sid (pt_conn p) = None \<and> own_id (a_mode (pt_conn p)) sid"
    unfolding queues_def by blast
  then show thesis
    using assms(2) by (intro that [of new]) (auto simp: outgoing_def)
qed

lemma sends_ok_step:
  assumes ok: "sends_ok lane sid p" and "queues lane sid (pt_conn p) ss w (pt_conn p')"
    and "pt_sent p' = pt_sent p @ ss" and w: "pt_written p' = pt_written p @ w" and kp: "keeps sid (pt_conn p) (pt_conn p')"
  shows "sends_ok lane sid p'"
proof -
  from queues_outgoing [OF assms(2,3)] obtain new where
    o: "outgoing lane sid p' = outgoing lane sid p @ new" "pays sid new = w"
    and new: "new = [] \<or> (\<exists>g. new = [g] \<and> streams_get sid (pt_conn p) \<noteq> None \<and> (has_syn g \<longrightarrow> flagged sid (pt_conn p)))"
    and fl: "flagged sid (pt_conn p') \<longrightarrow> flagged sid (pt_conn p) \<and> w = [] \<and> (\<forall>g \<in> set new. \<not> has_syn g \<and> frame_credit sid g = 0)
      \<or> streams_get sid (pt_conn p) = None \<and> own_id (a_mode (pt_conn p)) sid"
    by blast
  have un: "streams_get sid (pt_conn p) = None" if "streams_get sid (pt_conn p') = None"
    using that kp by (cases "streams_get sid (pt_conn p)") (auto simp: keeps_def)
  have "syn_first sid (outgoing lane sid p')"
    using new ok o(1) by (auto simp: sends_ok_def frames_credit_def intro!: syn_first_snoc)
  moreover have "outgoing lane sid p' = []" if "streams_get sid (pt_conn p') = None"
    using un [OF that] new ok o(1) by (auto simp: sends_ok_def)
  moreover have "pt_written p' = [] \<and> (\<forall>g \<in> set (outgoing lane sid p'). \<not> has_syn g \<and> frame_credit sid g = 0)" if "flagged sid (pt_conn p')"
    using fl that ok new o w by (auto simp: sends_ok_def)
  ultimately show ?thesis
    using ok o w by (simp add: sends_ok_def)
qed

text \<open>The side that did not open the stream sends no \<open>SYN\<close>.\<close>

definition plain :: "(u32 \<Rightarrow> 'ch \<Rightarrow> stream_command list) \<Rightarrow> u32 \<Rightarrow> ('io, 'ch) party \<Rightarrow> bool" where
  "plain lane sid p \<longleftrightarrow> (\<forall>g \<in> set (outgoing lane sid p). \<not> has_syn g) \<and> \<not> flagged sid (pt_conn p)"

lemma plain_step:
  assumes ok: "plain lane sid p" and "queues lane sid (pt_conn p) ss w (pt_conn p')"
    and "pt_sent p' = pt_sent p @ ss" and "\<not> own_id (a_mode (pt_conn p)) sid"
  shows "plain lane sid p'"
proof -
  from queues_outgoing [OF assms(2,3)] obtain new where "outgoing lane sid p' = outgoing lane sid p @ new"
    "new = [] \<or> (\<exists>g. new = [g] \<and> streams_get sid (pt_conn p) \<noteq> None \<and> (has_syn g \<longrightarrow> flagged sid (pt_conn p)))"
    "flagged sid (pt_conn p') \<longrightarrow> flagged sid (pt_conn p)"
    using assms(4) by metis
  with ok show ?thesis
    by (auto simp: plain_def)
qed

subsection \<open>What one side has received\<close>

text \<open>The opener receives all of it, the other side all from the frame on that opened the stream there.\<close>

definition opener_ok :: "u32 \<Rightarrow> ('io, 'ch) party \<Rightarrow> bool" where
  "opener_ok sid p \<longleftrightarrow>
     (if streams_get sid (pt_conn p) = None then pt_read p = []
      else pt_read p @ buffered sid (pt_conn p) = pays sid (pt_got p))"

definition acceptor_ok :: "u32 \<Rightarrow> ('io, 'ch) party \<Rightarrow> bool" where
  "acceptor_ok sid q \<longleftrightarrow>
     (if streams_get sid (pt_conn q) = None then pt_read q = []
      else \<exists>xs f ys. pt_got q = xs @ f # ys \<and> of_stream sid f \<and> has_syn f
        \<and> pt_read q @ buffered sid (pt_conn q) = pays sid (f # ys))"

lemma opener_step:
  assumes ok: "opener_ok sid p" and "reads sid (pt_conn p) gs r (pt_conn p')" and "pt_got p' = pt_got p @ gs"
    and "pt_read p' = pt_read p @ r" and kp: "keeps sid (pt_conn p) (pt_conn p')" and "own_id (a_mode (pt_conn p)) sid"
    and none: "streams_get sid (pt_conn p) = None \<Longrightarrow> pays sid (pt_got p) = []"
  shows "opener_ok sid p'"
proof (cases "streams_get sid (pt_conn p)")
  case None
  with assms none show ?thesis
    by (auto simp: opener_ok_def reads_def)
next
  case (Some a)
  then have "streams_get sid (pt_conn p') = Some a"
    using kp by (simp add: keeps_def)
  moreover have "r @ buffered sid (pt_conn p') = buffered sid (pt_conn p) @ pays sid gs"
    using assms(2) Some by (simp add: reads_def)
  ultimately show ?thesis
    using ok Some assms(3,4) by (simp add: opener_ok_def)
qed

lemma acceptor_step:
  assumes ok: "acceptor_ok sid q" and "reads sid (pt_conn q) gs r (pt_conn q')" and "pt_got q' = pt_got q @ gs"
    and "pt_read q' = pt_read q @ r" and kp: "keeps sid (pt_conn q) (pt_conn q')" and "\<not> own_id (a_mode (pt_conn q)) sid"
  shows "acceptor_ok sid q'"
proof (cases "streams_get sid (pt_conn q)")
  case None
  with assms show ?thesis
    by (force simp: acceptor_ok_def reads_def)
next
  case (Some a)
  then have "streams_get sid (pt_conn q') = Some a"
    using kp by (simp add: keeps_def)
  moreover have "r @ buffered sid (pt_conn q') = buffered sid (pt_conn q) @ pays sid gs"
    using assms(2) Some by (simp add: reads_def)
  moreover obtain xs f ys where "pt_got q = xs @ f # ys" "of_stream sid f" "has_syn f"
    "pt_read q @ buffered sid (pt_conn q) = pays sid (f # ys)"
    using ok Some by (auto simp: acceptor_ok_def)
  then have "pt_got q' = xs @ f # (ys @ gs)" "of_stream sid f" "has_syn f"
    "pt_read q' @ buffered sid (pt_conn q') = pays sid (f # (ys @ gs))"
    using assms(3,4) calculation(2) by simp_all
  ultimately show ?thesis
    unfolding acceptor_ok_def by simp (intro exI [of _ xs] exI [of _ f] exI [of _ "ys @ gs"], simp)
qed

subsection \<open>Both sides\<close>

context lane_env
begin

text \<open>A deed, by what it does to the stream.\<close>

lemma deed_effect:
  assumes "deed env sid p p'" and ok: "lanes_ok sid (pt_conn p)" "core_ok (pt_conn p)" "linked sid (pt_conn p)"
    and kp: "keeps sid (pt_conn p) (pt_conn p')"
    and in_ok: "\<And>f. pt_got p' = pt_got p @ [f] \<Longrightarrow> frame_ok f \<and> frame_payload sid f \<le> may_receive sid (pt_conn p)
      \<and> (streams_get sid (pt_conn p) \<noteq> None \<longrightarrow> of_stream sid f \<longrightarrow> \<not> has_syn f)"
  shows "\<exists>ss gs w r. pt_sent p' = pt_sent p @ ss \<and> pt_got p' = pt_got p @ gs \<and> pt_written p' = pt_written p @ w
    \<and> pt_read p' = pt_read p @ r \<and> queues lane sid (pt_conn p) ss w (pt_conn p')
    \<and> reads sid (pt_conn p) gs r (pt_conn p') \<and> lanes_ok sid (pt_conn p') \<and> a_mode (pt_conn p') = a_mode (pt_conn p)"
  using assms(1)
proof cases
  case (peer l s)
  have "\<And>f. l = Got f \<Longrightarrow> frame_ok f \<and> frame_payload sid f \<le> may_receive sid (pt_conn p)
      \<and> (streams_get sid (pt_conn p) \<noteq> None \<longrightarrow> of_stream sid f \<longrightarrow> \<not> has_syn f)"
    using in_ok peer(1) by simp
  moreover from this have "\<forall>f \<in> set (got_by l). frame_ok f"
    by (cases l) simp_all
  ultimately show ?thesis
    using peer_step_queues [OF peer(2) ok(1,2)] peer_step_reads [OF peer(2) ok(2)] kp peer(1)
    by (intro exI [of _ "sent_by l"] exI [of _ "got_by l"] exI [of _ "[]"]) simp
next
  case (outbound cx r s)
  with outbound_queues [OF ok(1,2) outbound(2)] outbound_reads [OF ok(2) outbound(2), of sid] show ?thesis
    by (intro exI [of _ "[]"]) simp
next
  case (call i c s)
  with call_queues [OF ok call(2-4)] call_reads_bytes [OF ok(2,3) call(2-4)] show ?thesis
    by (intro exI [of _ "[]"] exI [of _ "fst (call_bytes env sid i c (pt_conn p))"]
        exI [of _ "snd (call_bytes env sid i c (pt_conn p))"]) simp
next
  case (drop i s)
  with drop_queues [OF ok(1) drop(3)] drop_reads [OF ok(2) drop(2,3), of sid] show ?thesis
    by (intro exI [of _ "[]"]) simp
qed

end

text \<open>Of the frames of the stream that were sent and have not been received.\<close>

lemma pays_transit:
  assumes "prefix (pt_got q) (pt_sent p)"
  shows "pays sid (pt_got q) @ pays sid (transit p q) @ pays sid (due lane sid (pt_conn p)) = pays sid (outgoing lane sid p)"
  using transit_append [OF assms]
  by (simp add: outgoing_def pays_filter flip: append_assoc) (metis pays_simps(3))

text \<open>The side that accepts knows the stream only if the opener does, and has lost nothing of it.\<close>

lemma accepted_known:
  assumes "acceptor_ok sid q" and "sends_ok lane sid p" and "prefix (pt_got q) (pt_sent p)"
    and "streams_get sid (pt_conn q) \<noteq> None"
  shows "streams_get sid (pt_conn p) \<noteq> None" and "pt_read q @ buffered sid (pt_conn q) = pays sid (pt_got q)"
    and "pt_sent p = pt_got q @ fs \<Longrightarrow> f \<in> set fs \<Longrightarrow> of_stream sid f \<Longrightarrow> \<not> has_syn f"
proof -
  from assms(1,4) obtain xs g ys where g: "pt_got q = xs @ g # ys" "of_stream sid g" "has_syn g"
    "pt_read q @ buffered sid (pt_conn q) = pays sid (g # ys)"
    by (auto simp: acceptor_ok_def)
  obtain zs where zs: "pt_sent p = pt_got q @ zs"
    using assms(3) by (auto simp: prefix_def)
  have o: "outgoing lane sid p = filter (of_stream sid) xs @ g # (filter (of_stream sid) (ys @ zs) @ due lane sid (pt_conn p))"
    using g(1,2) zs by (simp add: outgoing_def)
  then show "streams_get sid (pt_conn p) \<noteq> None"
    using assms(2) by (auto simp: sends_ok_def)
  have s: "pays sid (filter (of_stream sid) xs) = [] \<and> frames_credit sid (filter (of_stream sid) xs) = 0
      \<and> (\<forall>h \<in> set (filter (of_stream sid) (ys @ zs) @ due lane sid (pt_conn p)). \<not> has_syn h)"
    using assms(2) o g(3) unfolding sends_ok_def syn_first_def by blast
  then show "pt_read q @ buffered sid (pt_conn q) = pays sid (pt_got q)"
    using g by (simp add: pays_filter)
  show "\<not> has_syn f" if "pt_sent p = pt_got q @ fs" "f \<in> set fs" "of_stream sid f"
    using s that zs by simp
qed

text \<open>What arrives is within the window.\<close>

lemma incoming_fits:
  assumes "balanced qs qr sid s there r back" and "balanced qr qs sid r back s there" and "there = f # fs"
  shows "frame_payload sid f \<le> may_receive sid r" and "may_send sid r + frame_credit sid f < 2 ^ 32"
  using assms may_less(1) [of sid s] by (simp_all add: balanced_def)

text \<open>A frame that is next on the way, at either side.\<close>

definition arrives_ok :: "u32 \<Rightarrow> ('io, 'ch) active \<Rightarrow> frame \<Rightarrow> bool" where
  "arrives_ok sid s f \<longleftrightarrow> frame_ok f \<and> frame_payload sid f \<le> may_receive sid s \<and> may_send sid s + frame_credit sid f < 2 ^ 32
     \<and> (streams_get sid s \<noteq> None \<longrightarrow> of_stream sid f \<longrightarrow> \<not> has_syn f)"

locale chat_env =
  l: lane_env el outl inl ql endsl soundl boundl receiversl lanel +
  r: lane_env er outr inr qr endsr soundr boundr receiversr laner
  for el :: "('io, 'ch) env" and outl and inl and ql and endsl and soundl and boundl and receiversl and lanel
    and er :: "('io, 'ch) env" and outr and inr and qr and endsr and soundr and boundr and receiversr and laner
begin

definition chat_ok :: "u32 \<Rightarrow> ('io, 'ch) party \<Rightarrow> ('io, 'ch) party \<Rightarrow> bool" where
  "chat_ok sid p q \<longleftrightarrow> duo_ok ql qr sid (duo_of p q) \<and> prefix (pt_got q) (pt_sent p) \<and> prefix (pt_got p) (pt_sent q)
     \<and> l.lanes_ok sid (pt_conn p) \<and> r.lanes_ok sid (pt_conn q)
     \<and> own_id (a_mode (pt_conn p)) sid \<and> \<not> own_id (a_mode (pt_conn q)) sid
     \<and> sends_ok lanel sid p \<and> sends_ok laner sid q \<and> plain laner sid q \<and> opener_ok sid p \<and> acceptor_ok sid q"

lemma left_arrives:
  assumes ok: "chat_ok sid p q" and pre: "prefix (pt_got p @ [f]) (pt_sent q)"
  shows "arrives_ok sid (pt_conn p) f"
proof -
  have duo: "duo_ok ql qr sid (duo_of p q)"
    using ok by (simp add: chat_ok_def)
  obtain fs where "transit q p = f # fs"
    using pre by (auto simp: transit_def prefix_def)
  then have "frame_ok f" "frame_payload sid f \<le> may_receive sid (pt_conn p)" "may_send sid (pt_conn p) + frame_credit sid f < 2 ^ 32"
    using duo incoming_fits [of qr ql sid "pt_conn q" "transit q p" "pt_conn p" "transit p q" f fs]
    by (simp_all add: duo_ok_def duo_of_def)
  moreover have "of_stream sid f \<Longrightarrow> f \<in> set (outgoing laner sid q)"
    using pre by (auto simp: outgoing_def prefix_def)
  ultimately show ?thesis
    using ok by (auto simp: arrives_ok_def chat_ok_def plain_def)
qed

lemma right_arrives:
  assumes ok: "chat_ok sid p q" and pre: "prefix (pt_got q @ [f]) (pt_sent p)"
  shows "arrives_ok sid (pt_conn q) f"
proof -
  have duo: "duo_ok ql qr sid (duo_of p q)" and pq: "prefix (pt_got q) (pt_sent p)"
    using ok by (simp_all add: chat_ok_def)
  obtain fs where tr: "transit p q = f # fs"
    using pre by (auto simp: transit_def prefix_def)
  then have "frame_ok f" "frame_payload sid f \<le> may_receive sid (pt_conn q)" "may_send sid (pt_conn q) + frame_credit sid f < 2 ^ 32"
    using duo incoming_fits [of ql qr sid "pt_conn p" "transit p q" "pt_conn q" "transit q p" f fs]
    by (simp_all add: duo_ok_def duo_of_def)
  moreover have "streams_get sid (pt_conn q) \<noteq> None \<Longrightarrow> of_stream sid f \<Longrightarrow> \<not> has_syn f"
    using accepted_known(3) [OF _ _ pq, of sid lanel "transit p q" f] ok transit_append [OF pq] tr
    by (simp add: chat_ok_def)
  ultimately show ?thesis by (simp add: arrives_ok_def)
qed

text \<open>Before the opener knows the stream the other side has nothing to say about it.\<close>

lemma opener_unknown:
  assumes ok: "chat_ok sid p q" and none: "streams_get sid (pt_conn p) = None"
  shows "streams_get sid (pt_conn q) = None" and "outgoing laner sid q = []"
proof -
  show "streams_get sid (pt_conn q) = None"
    using accepted_known(1) [of sid q lanel p] ok none
    by (cases "streams_get sid (pt_conn q)") (auto simp: chat_ok_def)
  then show "outgoing laner sid q = []"
    using ok by (simp add: chat_ok_def sends_ok_def)
qed

lemma left_ok:
  assumes ok: "chat_ok sid p q" and d: "deed el sid p p'" and pre: "prefix (pt_got p') (pt_sent q)"
    and kp: "keeps sid (pt_conn p) (pt_conn p')"
  shows "chat_ok sid p' q"
proof -
  have duo: "duo_ok ql qr sid (duo_of p q)" and pq: "prefix (pt_got q) (pt_sent p)" "prefix (pt_got p) (pt_sent q)"
    using ok by (simp_all add: chat_ok_def)
  note ex = deed_exchange_left [OF d pre pq(1), of er]
  have duo': "duo_ok ql qr sid (duo_of p' q)"
    using ex kp by (intro exchange_ok [OF l.duplex_env_axioms r.duplex_env_axioms _ duo])
      (auto simp: duo_of_def keeps_def)
  have none: "pays sid (pt_got p) = []" if "streams_get sid (pt_conn p) = None"
    using pays_transit [OF pq(2), of sid laner] opener_unknown(2) [OF ok that] by simp
  have "\<And>f. pt_got p' = pt_got p @ [f] \<Longrightarrow> arrives_ok sid (pt_conn p) f"
    using left_arrives [OF ok] pre by simp
  with l.deed_effect [OF d _ _ _ kp] ok obtain ss gs w r where
    e: "pt_sent p' = pt_sent p @ ss" "pt_got p' = pt_got p @ gs" "pt_written p' = pt_written p @ w"
      "pt_read p' = pt_read p @ r" "queues lanel sid (pt_conn p) ss w (pt_conn p')"
      "reads sid (pt_conn p) gs r (pt_conn p')" "l.lanes_ok sid (pt_conn p')" "a_mode (pt_conn p') = a_mode (pt_conn p)"
    by (auto simp: arrives_ok_def chat_ok_def duo_ok_def duo_of_def peer_ok_def)
  have "sends_ok lanel sid p'" "opener_ok sid p'"
    using ok sends_ok_step [OF _ e(5,1,3) kp] opener_step [OF _ e(6,2,4) kp _ none] by (auto simp: chat_ok_def)
  with ok duo' ex pre e(7,8) show ?thesis
    by (simp add: chat_ok_def)
qed

lemma right_ok:
  assumes ok: "chat_ok sid p q" and d: "deed er sid q q'" and pre: "prefix (pt_got q') (pt_sent p)"
    and kp: "keeps sid (pt_conn q) (pt_conn q')"
  shows "chat_ok sid p q'"
proof -
  have duo: "duo_ok ql qr sid (duo_of p q)" and pq: "prefix (pt_got q) (pt_sent p)" "prefix (pt_got p) (pt_sent q)"
    using ok by (simp_all add: chat_ok_def)
  note ex = deed_exchange_right [OF d pre pq(2), of el]
  have duo': "duo_ok ql qr sid (duo_of p q')"
    using ex kp by (intro exchange_ok [OF l.duplex_env_axioms r.duplex_env_axioms _ duo])
      (auto simp: duo_of_def keeps_def)
  have "\<And>f. pt_got q' = pt_got q @ [f] \<Longrightarrow> arrives_ok sid (pt_conn q) f"
    using right_arrives [OF ok] pre by simp
  with r.deed_effect [OF d _ _ _ kp] ok obtain ss gs w r where
    e: "pt_sent q' = pt_sent q @ ss" "pt_got q' = pt_got q @ gs" "pt_written q' = pt_written q @ w"
      "pt_read q' = pt_read q @ r" "queues laner sid (pt_conn q) ss w (pt_conn q')"
      "reads sid (pt_conn q) gs r (pt_conn q')" "r.lanes_ok sid (pt_conn q')" "a_mode (pt_conn q') = a_mode (pt_conn q)"
    by (auto simp: arrives_ok_def chat_ok_def duo_ok_def duo_of_def peer_ok_def)
  have "sends_ok laner sid q'" "plain laner sid q'" "acceptor_ok sid q'"
    using ok sends_ok_step [OF _ e(5,1,3) kp] plain_step [OF _ e(5,1)] acceptor_step [OF _ e(6,2,4) kp]
    by (auto simp: chat_ok_def)
  with ok duo' ex pre e(7,8) show ?thesis
    by (simp add: chat_ok_def)
qed

lemma chat_keeps_ok: "chat el er sid p0 q0 p q \<Longrightarrow> chat_ok sid p0 q0 \<Longrightarrow> chat_ok sid p q"
  by (induction rule: chat.induct) (auto intro: left_ok right_ok)

lemma delivered:
  assumes ok: "chat_ok sid p q"
  shows "pt_written q = pt_read p @ buffered sid (pt_conn p) @ pays sid (transit q p) @ pays sid (due laner sid (pt_conn q))"
    and "streams_get sid (pt_conn q) \<noteq> None \<Longrightarrow>
      pt_written p = pt_read q @ buffered sid (pt_conn q) @ pays sid (transit p q) @ pays sid (due lanel sid (pt_conn p))"
    and "streams_get sid (pt_conn q) = None \<Longrightarrow> pt_read q = []"
proof -
  have pq: "prefix (pt_got q) (pt_sent p)" "prefix (pt_got p) (pt_sent q)" and p: "sends_ok lanel sid p" and q: "sends_ok laner sid q"
    and a: "acceptor_ok sid q"
    using ok by (simp_all add: chat_ok_def)
  have "pt_read p @ buffered sid (pt_conn p) = pays sid (pt_got p)"
  proof (cases "streams_get sid (pt_conn p)")
    case None
    with opener_unknown(2) [OF ok] pays_transit [OF pq(2), of sid laner] ok show ?thesis
      by (simp add: chat_ok_def opener_ok_def buffered_def)
  qed (use ok in \<open>simp add: chat_ok_def opener_ok_def\<close>)
  with pays_transit [OF pq(2), of sid laner] q
  show "pt_written q = pt_read p @ buffered sid (pt_conn p) @ pays sid (transit q p) @ pays sid (due laner sid (pt_conn q))"
    by (simp add: sends_ok_def flip: append_assoc)
  show "pt_written p = pt_read q @ buffered sid (pt_conn q) @ pays sid (transit p q) @ pays sid (due lanel sid (pt_conn p))"
    if "streams_get sid (pt_conn q) \<noteq> None"
    using accepted_known(2) [OF a p pq(1) that] pays_transit [OF pq(1), of sid lanel] p
    by (simp add: sends_ok_def flip: append_assoc)
  show "pt_read q = []" if "streams_get sid (pt_conn q) = None"
    using a that by (simp add: acceptor_ok_def)
qed

end

text \<open>Channels before the first stream.\<close>

definition idle_channels ::
    "('ch \<Rightarrow> stream_command multiset) \<Rightarrow> ('ch \<Rightarrow> bool) \<Rightarrow> (u32 \<Rightarrow> 'ch \<Rightarrow> nat) \<Rightarrow> (u32 \<Rightarrow> 'ch \<Rightarrow> stream_command list) \<Rightarrow> 'ch \<Rightarrow> bool" where
  "idle_channels queued sound receivers lane ch \<longleftrightarrow> queued ch = {#} \<and> sound ch \<and> (\<forall>j. receivers j ch = 0 \<and> lane j ch = [])"

context chat_env
begin

lemma chat_new_ok:
  assumes "built_config cl" and "built_config cr" and "own_id ml sid" and "\<not> own_id mr sid"
    and "idle_channels ql soundl receiversl lanel chl" and "idle_channels qr soundr receiversr laner chr"
  shows "chat_ok sid (party_new (active_new iol chl nl cl ml)) (party_new (active_new ior chr nr cr mr))"
proof -
  let ?l = "active_new iol chl nl cl ml" and ?r = "active_new ior chr nr cr mr"
  have "duo_ok ql qr sid (duo_new ?l ?r)"
    using duo_new_ok [OF assms(1,2), of ql chl qr chr] assms(5,6) by (simp add: idle_channels_def)
  moreover have "duo_of (party_new ?l) (party_new ?r) = duo_new ?l ?r"
    by (simp add: duo_of_def duo_new_def party_new_def transit_def)
  ultimately show ?thesis
    using assms(3-6)
    by (simp add: chat_ok_def party_new_def active_new_def l.lanes_ok_def r.lanes_ok_def idle_channels_def sends_ok_def
        plain_def opener_ok_def acceptor_ok_def outgoing_def due_def flagged_def syn_first_def streams_get_def)
qed

end

subsection \<open>Property\<close>

text \<open>
  C1: Streams deliver. Two new connections talk to each other, in any interleaving of their
  steps and of the calls of their users, and neither has forgotten the stream, which one
  side may open. What the accepting side has read from it, what waits in its buffer, the payload on
  the wire and the payload queued at the opener are together, in this order, exactly what was written
  at the opener, and the same in the other direction. So each side reads a prefix of what the other
  has written: no byte is lost, repeated or reordered. As long as the accepting side does not
  know the stream, it has read nothing.
\<close>

theorem streams_deliver:
  assumes "chat_env el outl inl ql endsl soundl boundl receiversl lanel er outr inr qr endsr soundr boundr receiversr laner"
    and "built_config cl" and "built_config cr" and "own_id ml sid" and "\<not> own_id mr sid"
    and "idle_channels ql soundl receiversl lanel chl" and "idle_channels qr soundr receiversr laner chr"
    and "chat el er sid (party_new (active_new iol chl nowl cl ml)) (party_new (active_new ior chr nowr cr mr)) p q"
  shows "(streams_get sid (pt_conn q) \<noteq> None \<longrightarrow>
      pt_written p = pt_read q @ buffered sid (pt_conn q) @ pays sid (transit p q) @ pays sid (due lanel sid (pt_conn p)))
    \<and> pt_written q = pt_read p @ buffered sid (pt_conn p) @ pays sid (transit q p) @ pays sid (due laner sid (pt_conn q))
    \<and> prefix (pt_read q) (pt_written p) \<and> prefix (pt_read p) (pt_written q)"
proof -
  from chat_env.chat_keeps_ok [OF assms(1,8) chat_env.chat_new_ok [OF assms(1-7)]]
  have "chat_env.chat_ok ql soundl boundl receiversl lanel qr soundr boundr receiversr laner sid p q" .
  note d = chat_env.delivered [OF assms(1) this]
  then have "prefix (pt_read q) (pt_written p)" "prefix (pt_read p) (pt_written q)"
    by (cases "streams_get sid (pt_conn q)"; simp)+
  with d show ?thesis by blast
qed

subsection \<open>A byte on its way\<close>

interpretation test: lane_env test_env pipe_out pipe_in chans_queued chans_ends chans_sound chans_bound chans_count chans_lane
  unfolding lane_env_def by (simp add: test.duplex_env_axioms) (simp add: test_env_def list_mux.ordered_mux_axioms)

interpretation test: chat_env test_env pipe_out pipe_in chans_queued chans_ends chans_sound chans_bound chans_count chans_lane
  test_env pipe_out pipe_in chans_queued chans_ends chans_sound chans_bound chans_count chans_lane
  by unfold_locales

lemma client_call_bytes:
  "call_bytes test_env 1 0 (CallWrite 8 [7]) (client_after client_shared Syn []) = ([7], [])"
  by (simp add: call_bytes_def handle_ctx_def client_after_def client_chans_def client_shared_def
      client_stream_def test_env_def list_mux_def test_conn_def active_new_def
      stream_poll_write_def shared_new_def fc_new_def can_write_def send_window_def DEFAULT_CREDIT_eq
      default_config_def size_defs Let_def consume_send_window_def fc_consume_send_window_def
      checked_sub_def frame_data_def u32_try_from_def add_flag_def send_command_def cell_def
      tagged_new_def owns_def tagged_inner_mut_def flags_contains_def hdr_syn_def header_data_def SYN_def ACK_def)

text \<open>The client opens a stream, writes a byte and sends it; the server takes it.\<close>

lemma short_chat:
  "\<exists>p q. chat test_env test_env 1 (party_new (test_conn [])) (party_new test_server) p q
     \<and> streams_get 1 (pt_conn q) \<noteq> None \<and> pt_written p = [7] \<and> pt_read q = [] \<and> transit p q = []
     \<and> due chans_lane 1 (pt_conn p) = [] \<and> pt_conn p = client_after client_shared' NoFlag [] \<and> pt_sent q = []"
proof -
  let ?p0 = "party_new (test_conn [])" and ?q0 = "party_new test_server"
  let ?c = "\<lambda>s ss w. \<lparr>pt_conn = s, pt_sent = ss, pt_got = [], pt_written = w, pt_read = []\<rparr>"
  let ?s0 = "client_after client_shared Syn []" and ?s1 = "client_after client_shared' NoFlag [SendFrame opening_frame]"
    and ?s3 = "client_after client_shared' NoFlag []"
  let ?s2 = "?s3\<lparr>a_pending_write_frame := Some opening_frame\<rparr>"
  have none: "streams_get 1 (test_conn []) = None" "streams_get 1 test_server = None"
    by (simp_all add: test_conn_def test_server_def active_new_def streams_get_def)
  have get: "streams_get 1 ?s2 = Some 0"
    by (simp add: client_after_def streams_get_def)
  have "deed test_env 1 ?p0 (?c ?s0 [] [])"
    using deed.outbound [of test_env 7 ?p0 _ ?s0] client_opens by (auto simp: party_new_def)
  then have 1: "chat test_env test_env 1 ?p0 ?q0 (?c ?s0 [] []) ?q0"
    by (intro chat.left [OF chat.start]) (simp_all add: keeps_def none party_new_def)
  have "deed test_env 1 (?c ?s0 [] []) (?c ?s1 [] [7])"
    using deed.call [of 0 "?c ?s0 [] []" "CallWrite 8 [7]" test_env ?s1 1] client_writes
    by (simp add: client_call_bytes)
  then have 2: "chat test_env test_env 1 ?p0 ?q0 (?c ?s1 [] [7]) ?q0"
    by (intro chat.left [OF 1]) (simp_all add: keeps_def)
  have "peer_step test_env ?s1 Tau ?s2"
    using peer_step.command [of ?s1 test_env 9 1 "SendFrame opening_frame" "client_chans []"] client_chans_next by simp
  then have "deed test_env 1 (?c ?s1 [] [7]) (?c ?s2 [] [7])"
    using deed.peer [of test_env "?c ?s1 [] [7]" Tau ?s2] by simp
  then have 3: "chat test_env test_env 1 ?p0 ?q0 (?c ?s2 [] [7]) ?q0"
    by (intro chat.left [OF 2]) (simp_all add: keeps_def get)
  have "peer_step test_env ?s2 (Sent opening_frame) ?s3"
    using peer_step.send [of ?s2 opening_frame test_env] by simp
  then have "deed test_env 1 (?c ?s2 [] [7]) (?c ?s3 [opening_frame] [7])"
    using deed.peer [of test_env "?c ?s2 [] [7]" "Sent opening_frame" ?s3] by simp
  then have 4: "chat test_env test_env 1 ?p0 ?q0 (?c ?s3 [opening_frame] [7]) ?q0"
    by (intro chat.left [OF 3]) (simp_all add: keeps_def get)
  from server_opens obtain st t where t: "on_frame test_env opening_frame test_server = Some (Ok (ActNew st), t)"
    "streams_get 1 t = Some (stm_shared st)"
    by blast
  have "a_pending_read_frame test_server = None"
    by (simp add: test_server_def active_new_def)
  from peer_step.got [OF this t(1)] have
    "deed test_env 1 ?q0 \<lparr>pt_conn = t, pt_sent = [], pt_got = [opening_frame], pt_written = [], pt_read = []\<rparr>"
    using deed.peer [of test_env ?q0 "Got opening_frame" t] by (simp add: party_new_def)
  then have "chat test_env test_env 1 ?p0 ?q0 (?c ?s3 [opening_frame] [7])
      \<lparr>pt_conn = t, pt_sent = [], pt_got = [opening_frame], pt_written = [], pt_read = []\<rparr>"
    by (intro chat.right [OF 4]) (simp_all add: keeps_def none party_new_def)
  moreover have "due chans_lane 1 ?s3 = []"
    by (simp add: due_def chans_lane_def client_chans_def tagged_new_def)
  ultimately show ?thesis
    using t(2) by (intro exI [of _ "?c ?s3 [opening_frame] [7]"]
        exI [of _ "\<lparr>pt_conn = t, pt_sent = [], pt_got = [opening_frame], pt_written = [], pt_read = []\<rparr>"]) (simp add: transit_def)
qed

theorem streams_deliver_witness:
  "\<exists>q :: (pipe, chans) party. streams_get 1 (pt_conn q) \<noteq> None \<and> buffered 1 (pt_conn q) = [7]"
proof -
  obtain p q where d: "chat test_env test_env 1 (party_new (test_conn [])) (party_new test_server) p q"
    "streams_get 1 (pt_conn q) \<noteq> None" "pt_written p = [7]" "pt_read q = []" "transit p q = []"
    "due chans_lane 1 (pt_conn p) = []"
    using short_chat by blast
  have i: "idle_channels chans_queued chans_sound chans_count chans_lane no_channels"
    by (simp add: idle_channels_def no_channels_def chans_defs)
  have o: "own_id Client 1" "\<not> own_id Server 1"
    by (simp_all add: own_id_def is_client_def is_server_def)
  from streams_deliver [OF test.chat_env_axioms built_config.default built_config.default o i i
      d(1) [unfolded test_conn_def test_server_def]]
  have "pt_written p = pt_read q @ buffered 1 (pt_conn q) @ pays 1 (transit p q) @ pays 1 (due chans_lane 1 (pt_conn p))"
    using d(2) by blast
  with d(2-6) show ?thesis
    by (intro exI [of _ q]) simp
qed

end
