(* ===== verification/Wakeups.thy ===== *)
theory Wakeups
  imports Conn_World
begin

text \<open>
  The two halves of a split stream. The handle of a stream may be polled from a task that reads and
  from another that writes (\<^verbatim>\<open>yamux/src/connection/stream.rs\<close>). Both send commands to the connection,
  over two senders of one channel, because a sender of the \<open>mpsc\<close> channel has room for one waker
  only, which it overwrites whenever the channel is full. So neither half makes the other miss its
  wake-up.
\<close>

subsection \<open>Which half uses which sender\<close>

inductive uses :: "('ch, 'z) chan_ops_scheme \<Rightarrow> sender \<Rightarrow> 'ch \<Rightarrow> 'ch \<Rightarrow> bool" for ops tx ch where
  none: "uses ops tx ch ch"
| ready: "uses ops tx ch ch1 \<Longrightarrow> ch_poll_ready ops tx cx ch1 = (p, ch2) \<Longrightarrow> uses ops tx ch ch2"
| send: "uses ops tx ch ch1 \<Longrightarrow> ch_start_send ops tx c ch1 = (r, ch2) \<Longrightarrow> uses ops tx ch ch2"
| flush: "uses ops tx ch ch1 \<Longrightarrow> ch_poll_flush ops tx cx ch1 = (p, ch2) \<Longrightarrow> uses ops tx ch ch2"

lemma uses_trans: "uses ops tx ch1 ch2 \<Longrightarrow> uses ops tx ch ch1 \<Longrightarrow> uses ops tx ch ch2"
  by (induction rule: uses.induct) (auto intro: uses.intros)

lemma uses_send_command:
  assumes "send_command ops tx cmd s = (r, s')" and "uses ops tx ch (cx_chan s)"
  shows "uses ops tx ch (cx_chan s')"
  using send_command_cases [OF assms(1)] uses.send [OF assms(2), of cmd] by (simp add: prod_eq_iff)

datatype half = Reading | Writing

fun half_sender :: "half \<Rightarrow> stream \<Rightarrow> sender" where
  "half_sender Reading st = stm_window_update_sender st"
| "half_sender Writing st = stm_sender st"

fun call_half :: "stream_call \<Rightarrow> half" where
  "call_half (CallNext _ _ _) = Reading"
| "call_half (CallRead _ _ _ _) = Reading"
| "call_half _ = Writing"

text \<open>Nor does a half touch the waker the other half has left in the shared cell.\<close>

fun half_waker :: "half \<Rightarrow> shared \<Rightarrow> waker option" where
  "half_waker Reading sh = sh_reader sh"
| "half_waker Writing sh = sh_writer sh"

fun other_half :: "half \<Rightarrow> half" where
  "other_half Reading = Writing"
| "other_half Writing = Reading"

definition on_half :: "('ch, 'z) chan_ops_scheme \<Rightarrow> half \<Rightarrow> 'ch sctx \<Rightarrow> 'ch sctx \<Rightarrow> bool" where
  "on_half ops h s s' \<longleftrightarrow> uses ops (half_sender h (cx_stream s)) (cx_chan s) (cx_chan s')
     \<and> (\<exists>fl. cx_stream s' = (cx_stream s)\<lparr>stm_flag := fl\<rparr>)
     \<and> half_waker (other_half h) (cx_shared s') = half_waker (other_half h) (cx_shared s)"

lemma on_half_refl: "on_half ops h s s"
  by (auto simp: on_half_def uses.none intro: exI [of _ "stm_flag (cx_stream s)"])

lemma on_half_trans:
  assumes "on_half ops h s t" and "on_half ops h t u"
  shows "on_half ops h s u"
proof -
  have "half_sender h (cx_stream t) = half_sender h (cx_stream s)"
    using assms(1) by (cases h) (auto simp: on_half_def)
  with assms show ?thesis
    by (auto simp: on_half_def intro: uses_trans)
qed

lemma on_half_chan:
  assumes "uses ops (half_sender h (cx_stream s)) (cx_chan s) ch"
  shows "on_half ops h s (s\<lparr>cx_chan := ch\<rparr>)"
  using assms by (auto simp: on_half_def intro: exI [of _ "stm_flag (cx_stream s)"])

lemma on_half_send:
  assumes "send_command ops (half_sender h (cx_stream s)) cmd t = (r, s')" and "on_half ops h s t"
  shows "on_half ops h s s'"
  using assms send_command_cases [OF assms(1)] uses_send_command [OF assms(1)] by (simp add: on_half_def)

lemma on_half_window_update:
  assumes "send_window_update ops cx t1 t2 rtt s = Some (r, s')"
  shows "on_half ops Reading s s'"
proof (cases "can_read (cx_state s)")
  case False
  with assms show ?thesis by (simp add: send_window_update_def on_half_refl)
next
  case True
  obtain p ch where rdy: "ch_poll_ready ops (stm_window_update_sender (cx_stream s)) cx (cx_chan s) = (p, ch)"
    by (rule prod.exhaust)
  note u = uses.ready [OF uses.none rdy]
  show ?thesis
  proof (cases "p = Ready (Ok ())")
    case False
    with True rdy assms u show ?thesis
      by (cases p) (auto simp: send_window_update_def intro!: on_half_chan split: result.splits)
  next
    case p: True
    with True rdy assms obtain upd acc sh where
      upd: "shared_next_window_update t1 t2 rtt (cx_acc s) (cx_shared s) = Some (upd, acc, sh)"
      by (auto simp: send_window_update_def bind_eq_Some_conv)
    let ?s1 = "s\<lparr>cx_chan := ch, cx_acc := acc, cx_shared := sh\<rparr>"
    have h: "on_half ops Reading s (?s1\<lparr>cx_stream := (cx_stream s)\<lparr>stm_flag := fl\<rparr>\<rparr>)" for fl
      using upd u by (auto simp: on_half_def shared_next_window_update_def bind_eq_Some_conv)
    show ?thesis
    proof (cases upd)
      case None
      with True rdy p assms upd h [of "stm_flag (cx_stream s)"] show ?thesis
        by (auto simp: send_window_update_def)
    next
      case (Some credit)
      obtain fl f where "add_flag (stm_flag (cx_stream s)) (frame_window_update (stm_id (cx_stream s)) credit) = (fl, f)"
        by (rule prod.exhaust)
      moreover obtain q s1 where sc: "send_command ops (stm_window_update_sender (cx_stream s)) (SendFrame f)
          (?s1\<lparr>cx_stream := (cx_stream s)\<lparr>stm_flag := fl\<rparr>\<rparr>) = (q, s1)"
        by (rule prod.exhaust)
      ultimately have "s' = s1"
        using True rdy p assms upd Some by (auto simp: send_window_update_def)
      with on_half_send [of ops Reading s, OF _ h] sc show ?thesis by auto
    qed
  qed
qed

lemma on_half_reader:
  assumes "on_half ops Reading s t" and "cx_stream u = cx_stream t" and "cx_chan u = cx_chan t"
    and "sh_writer (cx_shared u) = sh_writer (cx_shared t)"
  shows "on_half ops Reading s u"
  using assms by (simp add: on_half_def)

lemma on_half_write:
  assumes "stream_poll_write ops cx buf s = Some (r, s')"
  shows "on_half ops Writing s s'"
proof -
  obtain p ch where rdy: "ch_poll_ready ops (stm_sender (cx_stream s)) cx (cx_chan s) = (p, ch)"
    by (rule prod.exhaust)
  note u = on_half_chan [of ops Writing s ch] uses.ready [OF uses.none rdy]
  show ?thesis
  proof (cases "p = Ready (Ok ()) \<and> can_write (cx_state s) \<and> send_window (cx_shared s) \<noteq> 0")
    case False
    with rdy assms u show ?thesis
      by (cases p) (auto simp: stream_poll_write_def Let_def on_half_def split: result.splits if_splits)
  next
    case True
    let ?k = "write_size buf s"
    obtain q s1 where sc: "send_command ops (stm_sender (cx_stream s))
        (SendFrame (data_frame ?k buf (cx_stream s))) (after_write ?k (s\<lparr>cx_chan := ch\<rparr>)) = (q, s1)"
      by (rule prod.exhaust)
    with True rdy assms poll_write_sends [of ops s cx _ ch, OF _ _ _ refl, of _ buf] have "s' = s1"
      by (auto split: result.splits)
    moreover have "on_half ops Writing s (after_write ?k (s\<lparr>cx_chan := ch\<rparr>))"
      using u by (auto simp: on_half_def after_write_def Let_def)
    ultimately show ?thesis
      using on_half_send [of ops Writing s] sc by auto
  qed
qed

lemma on_half_close:
  assumes "stream_poll_close ops cx s = (r, s')"
  shows "on_half ops Writing s s'"
proof -
  obtain p ch where rdy: "ch_poll_ready ops (stm_sender (cx_stream s)) cx (cx_chan s) = (p, ch)"
    by (rule prod.exhaust)
  note u = uses.ready [OF uses.none rdy]
  show ?thesis
  proof (cases "p = Ready (Ok ()) \<and> cx_state s \<noteq> Closed")
    case False
    with rdy assms u on_half_chan [of ops Writing s ch] on_half_refl [of ops Writing s] show ?thesis
      by (cases p) (auto simp: stream_poll_close_def is_closed_def split: result.splits if_splits)
  next
    case True
    let ?ack = "stm_flag (cx_stream s) = Ack"
    let ?s1 = "if ?ack then s\<lparr>cx_chan := ch, cx_stream := (cx_stream s)\<lparr>stm_flag := NoFlag\<rparr>\<rparr>
      else s\<lparr>cx_chan := ch\<rparr>"
    obtain q s1 where sc: "send_command ops (stm_sender (cx_stream s)) (CloseStream ?ack) ?s1 = (q, s1)"
      by (rule prod.exhaust)
    have "on_half ops Writing s ?s1"
      using u on_half_chan [of ops Writing s ch] by (auto simp: on_half_def)
    with sc on_half_send [of ops Writing s] have "on_half ops Writing s s1"
      by auto
    moreover have "s' = s1 \<or> s' = s1\<lparr>cx_shared := snd (update_state SendClosed (cx_shared s1))\<rparr>"
      using True rdy assms sc by (auto simp: stream_poll_close_def is_closed_def Let_def split: result.splits if_splits)
    ultimately show ?thesis
      by (auto simp: on_half_def update_state_def)
  qed
qed

lemma on_half_read:
  assumes "stream_poll_read ops cx t1 t2 rtt m s = Some (r, s')"
  shows "on_half ops Reading s s'"
proof (cases "no_read_after_close ops s")
  case True
  with assms show ?thesis by (simp add: stream_poll_read_def on_half_refl)
next
  case False
  with assms obtain p s1 where up: "send_window_update ops cx t1 t2 rtt s = Some (p, s1)"
    by (auto simp: stream_poll_read_def bind_eq_Some_conv)
  with False assms show ?thesis
    by (intro on_half_reader [OF on_half_window_update [OF up]])
      (auto simp: stream_poll_read_def Let_def bind_eq_Some_conv split: if_splits poll.splits result.splits)
qed

lemma on_half_next:
  assumes "stream_poll_next ops cx t1 t2 rtt s = Some (r, s')"
  shows "on_half ops Reading s s'"
proof (cases "no_read_after_close ops s")
  case True
  with assms show ?thesis by (simp add: stream_poll_next_def on_half_refl)
next
  case False
  with assms obtain p s1 where up: "send_window_update ops cx t1 t2 rtt s = Some (p, s1)"
    by (auto simp: stream_poll_next_def bind_eq_Some_conv)
  with False assms show ?thesis
    by (intro on_half_reader [OF on_half_window_update [OF up]])
      (auto simp: stream_poll_next_def Let_def bind_eq_Some_conv split: if_splits poll.splits result.splits option.splits)
qed

lemma on_half_call:
  assumes "run_call ops rtt c s = Some s'"
  shows "on_half ops (call_half c) s s'"
proof (cases c)
  case (CallFlush cx)
  obtain p ch where f: "ch_poll_flush ops (stm_sender (cx_stream s)) cx (cx_chan s) = (p, ch)"
    by (rule prod.exhaust)
  then have "s' = s\<lparr>cx_chan := ch\<rparr>"
    using assms CallFlush by (auto simp: stream_poll_flush_def split: poll.splits result.splits)
  with CallFlush uses.flush [OF uses.none f] show ?thesis
    by (simp add: on_half_chan)
next
  case (CallClose cx)
  with assms show ?thesis
    by (auto intro: on_half_close [of ops cx s "fst (stream_poll_close ops cx s)"])
qed (use assms in \<open>auto intro: on_half_read on_half_next on_half_write\<close>)

subsection \<open>A half that waits stays registered\<close>

fun run_calls ::
    "('ch, 'z) chan_ops_scheme \<Rightarrow> duration option \<Rightarrow> stream_call list \<Rightarrow> 'ch sctx \<Rightarrow> 'ch sctx run" where
  "run_calls ops rtt [] s = Some s"
| "run_calls ops rtt (c # cs) s = do { s \<leftarrow> run_call ops rtt c s; run_calls ops rtt cs s }"

fun call_waker :: "stream_call \<Rightarrow> waker" where
  "call_waker (CallNext cx _ _) = cx"
| "call_waker (CallRead cx _ _ _) = cx"
| "call_waker (CallWrite cx _) = cx"
| "call_waker (CallFlush cx) = cx"
| "call_waker (CallClose cx) = cx"

text \<open>Whether the call returns \<open>Poll::Pending\<close>.\<close>

fun call_pends :: "('ch, 'z) chan_ops_scheme \<Rightarrow> duration option \<Rightarrow> stream_call \<Rightarrow> 'ch sctx \<Rightarrow> bool" where
  "call_pends ops rtt (CallNext cx t1 t2) s \<longleftrightarrow>
     (case stream_poll_next ops cx t1 t2 rtt s of Some (r, _) \<Rightarrow> \<not> is_ready r | None \<Rightarrow> False)"
| "call_pends ops rtt (CallRead cx t1 t2 m) s \<longleftrightarrow>
     (case stream_poll_read ops cx t1 t2 rtt m s of Some (r, _) \<Rightarrow> \<not> is_ready r | None \<Rightarrow> False)"
| "call_pends ops rtt (CallWrite cx buf) s \<longleftrightarrow>
     (case stream_poll_write ops cx buf s of Some (r, _) \<Rightarrow> \<not> is_ready r | None \<Rightarrow> False)"
| "call_pends ops rtt (CallFlush cx) s \<longleftrightarrow> \<not> is_ready (fst (stream_poll_flush ops cx s))"
| "call_pends ops rtt (CallClose cx) s \<longleftrightarrow> \<not> is_ready (fst (stream_poll_close ops cx s))"

lemma pending_read:
  assumes "stream_poll_read ops cx t1 t2 rtt m s = Some (Pending, s')"
  shows "sh_reader (cx_shared s') = Some cx"
proof (cases "no_read_after_close ops s")
  case True
  with assms show ?thesis by (simp add: stream_poll_read_def)
next
  case False
  with assms obtain p s1 where "send_window_update ops cx t1 t2 rtt s = Some (p, s1)"
    by (auto simp: stream_poll_read_def bind_eq_Some_conv)
  with False assms show ?thesis
    by (auto simp: stream_poll_read_def Let_def bind_eq_Some_conv split: if_splits poll.splits result.splits)
qed

lemma pending_next:
  assumes "stream_poll_next ops cx t1 t2 rtt s = Some (Pending, s')"
  shows "sh_reader (cx_shared s') = Some cx"
proof (cases "no_read_after_close ops s")
  case True
  with assms show ?thesis by (simp add: stream_poll_next_def)
next
  case False
  with assms obtain p s1 where "send_window_update ops cx t1 t2 rtt s = Some (p, s1)"
    by (auto simp: stream_poll_next_def bind_eq_Some_conv)
  with False assms show ?thesis
    by (auto simp: stream_poll_next_def Let_def bind_eq_Some_conv split: if_splits poll.splits result.splits option.splits)
qed

text \<open>
  What the code relies on of the channel: a sender keeps the waker of the last poll that found the
  channel full, and what another sender does is nothing to it.
\<close>

locale parking_channel =
  fixes ops :: "('ch, 'z) chan_ops_scheme"
    and waiting :: "sender \<Rightarrow> 'ch \<Rightarrow> waker option"
  assumes ready_registers: "ch_poll_ready ops tx cx ch = (Pending, ch') \<Longrightarrow> waiting tx ch' = Some cx"
    and flush_registers: "ch_poll_flush ops tx cx ch = (Pending, ch') \<Longrightarrow> waiting tx ch' = Some cx"
    and ready_others: "tx' \<noteq> tx \<Longrightarrow> waiting tx' (snd (ch_poll_ready ops tx cx ch)) = waiting tx' ch"
    and send_others: "tx' \<noteq> tx \<Longrightarrow> waiting tx' (snd (ch_start_send ops tx c ch)) = waiting tx' ch"
    and flush_others: "tx' \<noteq> tx \<Longrightarrow> waiting tx' (snd (ch_poll_flush ops tx cx ch)) = waiting tx' ch"
begin

text \<open>The places from which the task behind a half is woken.\<close>

definition registered :: "half \<Rightarrow> waker \<Rightarrow> 'ch sctx \<Rightarrow> bool" where
  "registered h cx s \<longleftrightarrow> waiting (half_sender h (cx_stream s)) (cx_chan s) = Some cx
     \<or> half_waker h (cx_shared s) = Some cx"

lemma uses_others: "uses ops tx ch ch' \<Longrightarrow> tx' \<noteq> tx \<Longrightarrow> waiting tx' ch' = waiting tx' ch"
  by (induction rule: uses.induct) (metis ready_others send_others flush_others snd_conv)+

lemma other_half_keeps:
  assumes "on_half ops (other_half h) s s'" and "stm_sender (cx_stream s) \<noteq> stm_window_update_sender (cx_stream s)"
  shows "registered h cx s' = registered h cx s"
  using assms uses_others [of _ "cx_chan s" "cx_chan s'"]
  by (cases h) (auto simp: on_half_def registered_def)

lemma other_calls_keep:
  assumes "run_calls ops rtt cs s = Some s'" and "\<forall>c \<in> set cs. call_half c = other_half h"
    and "stm_sender (cx_stream s) \<noteq> stm_window_update_sender (cx_stream s)"
  shows "registered h cx s' = registered h cx s"
  using assms
proof (induction cs arbitrary: s)
  case (Cons c cs)
  then obtain t where t: "run_call ops rtt c s = Some t" "run_calls ops rtt cs t = Some s'"
    by (auto simp: bind_eq_Some_conv)
  from on_half_call [OF t(1)] Cons.prems have h: "on_half ops (other_half h) s t"
    by simp
  moreover from this have "stm_sender (cx_stream t) \<noteq> stm_window_update_sender (cx_stream t)"
    using Cons.prems by (auto simp: on_half_def)
  ultimately show ?case
    using Cons.IH [OF t(2)] Cons.prems other_half_keeps [OF h] by simp
qed simp

lemma pending_write_registers:
  assumes "stream_poll_write ops cx buf s = Some (Pending, s')"
  shows "registered Writing cx s'"
proof -
  obtain p ch where rdy: "ch_poll_ready ops (stm_sender (cx_stream s)) cx (cx_chan s) = (p, ch)"
    by (rule prod.exhaust)
  show ?thesis
  proof (cases "p = Ready (Ok ()) \<and> can_write (cx_state s) \<and> send_window (cx_shared s) \<noteq> 0")
    case True
    with rdy assms poll_write_sends [of ops s cx _ ch, OF _ _ _ refl, of _ buf] show ?thesis
      by (auto split: result.splits prod.splits)
  next
    case False
    with rdy assms ready_registers [of _ cx _ ch] show ?thesis
      by (cases p) (auto simp: stream_poll_write_def registered_def Let_def split: result.splits if_splits)
  qed
qed

lemma pending_flush_registers:
  assumes "stream_poll_flush ops cx s = (Pending, s')"
  shows "registered Writing cx s'"
proof -
  obtain p ch where f: "ch_poll_flush ops (stm_sender (cx_stream s)) cx (cx_chan s) = (p, ch)"
    by (rule prod.exhaust)
  with assms flush_registers [of _ cx _ ch] show ?thesis
    by (cases p) (auto simp: stream_poll_flush_def registered_def split: result.splits)
qed

lemma pending_close_registers:
  assumes "stream_poll_close ops cx s = (Pending, s')"
  shows "registered Writing cx s'"
proof -
  obtain p ch where f: "ch_poll_ready ops (stm_sender (cx_stream s)) cx (cx_chan s) = (p, ch)"
    by (rule prod.exhaust)
  with assms ready_registers [of _ cx _ ch] show ?thesis
    by (cases p) (auto simp: stream_poll_close_def registered_def Let_def split: result.splits if_splits prod.splits)
qed

lemma pending_registers:
  assumes "call_pends ops rtt c s" and "run_call ops rtt c s = Some s'"
  shows "registered (call_half c) (call_waker c) s'"
proof (cases c)
  case (CallFlush cx)
  with assms pending_flush_registers [of cx s s'] show ?thesis
    by (cases "stream_poll_flush ops cx s") (auto simp: is_ready_def split: poll.splits)
next
  case (CallClose cx)
  with assms pending_close_registers [of cx s s'] show ?thesis
    by (cases "stream_poll_close ops cx s") (auto simp: is_ready_def split: poll.splits)
next
  case (CallWrite cx buf)
  with assms pending_write_registers [of cx buf s s'] show ?thesis
    by (auto simp: is_ready_def split: poll.splits option.splits)
qed (use assms in \<open>auto simp: is_ready_def registered_def pending_next pending_read
    split: poll.splits option.splits\<close>)

end

subsection \<open>A reference channel\<close>

text \<open>
  A bounded channel the way the documentation of \<open>mpsc::channel\<close> has it: every sender may have one
  command beyond the buffer, after which it is parked until the receiver takes a command. Taking a
  command releases the sender that has been parked longest and wakes its task.
\<close>

record pchan =
  pc_buffer :: nat
  pc_queue :: "stream_command list"
  pc_parked :: "sender list"
  pc_task :: "sender \<Rightarrow> waker option"
  pc_next :: sender
  pc_woken :: "waker list"

definition pchan_channel :: "nat \<Rightarrow> sender \<times> pchan" where
  "pchan_channel n = (0, \<lparr>pc_buffer = n, pc_queue = [], pc_parked = [], pc_task = (\<lambda>_. None),
     pc_next = 1, pc_woken = []\<rparr>)"

definition pchan_poll_ready :: "sender \<Rightarrow> waker \<Rightarrow> pchan \<Rightarrow> (unit, unit) result poll \<times> pchan" where
  "pchan_poll_ready tx cx ch =
     (if tx \<in> set (pc_parked ch) then (Pending, ch\<lparr>pc_task := (pc_task ch)(tx := Some cx)\<rparr>)
      else (Ready (Ok ()), ch))"

definition pchan_start_send :: "sender \<Rightarrow> stream_command \<Rightarrow> pchan \<Rightarrow> (unit, unit) result \<times> pchan" where
  "pchan_start_send tx c ch =
     (if tx \<in> set (pc_parked ch) then (Err (), ch\<lparr>pc_task := (pc_task ch)(tx := None)\<rparr>)
      else let ch = ch\<lparr>pc_queue := pc_queue ch @ [c]\<rparr> in
        (Ok (), if pc_buffer ch < length (pc_queue ch)
           then ch\<lparr>pc_parked := pc_parked ch @ [tx], pc_task := (pc_task ch)(tx := None)\<rparr> else ch))"

fun pchan_unpark :: "sender list \<Rightarrow> pchan \<Rightarrow> pchan" where
  "pchan_unpark [] ch = ch"
| "pchan_unpark (tx # txs) ch = ch\<lparr>pc_parked := txs, pc_task := (pc_task ch)(tx := None),
     pc_woken := wake (pc_task ch tx) (pc_woken ch)\<rparr>"

definition pchan_try_recv :: "pchan \<Rightarrow> (stream_command \<times> pchan) option" where
  "pchan_try_recv ch =
     (case pc_queue ch of
        [] \<Rightarrow> None
      | c # q \<Rightarrow> Some (c, pchan_unpark (pc_parked ch) (ch\<lparr>pc_queue := q\<rparr>)))"

text \<open>The one channel of a stream as the channels of a connection; its receiver stays open.\<close>

definition pchan_ops :: "u32 \<Rightarrow> pchan mux_ops" where
  "pchan_ops sid =
     \<lparr>ch_poll_ready = pchan_poll_ready, ch_start_send = pchan_start_send, ch_is_closed = (\<lambda>tx ch. False),
      ch_poll_flush = pchan_poll_ready, mx_channel = (\<lambda>sid ch. pchan_channel (pc_buffer ch)),
      mx_clone = (\<lambda>tx ch. (pc_next ch, ch\<lparr>pc_next := Suc (pc_next ch)\<rparr>)), mx_drop = (\<lambda>tx ch. ch),
      mx_poll_next = (\<lambda>cx ch. case pchan_try_recv ch of
          Some (c, ch) \<Rightarrow> (Ready (Some (sid, Some c)), ch) | None \<Rightarrow> (Pending, ch)),
      mx_close_all = id, mx_drop_all = id\<rparr>"

interpretation pchan: parking_channel "pchan_ops sid" "\<lambda>tx ch. pc_task ch tx" for sid
  by unfold_locales
    (auto simp: pchan_ops_def pchan_poll_ready_def pchan_start_send_def Let_def split: if_splits)

subsection \<open>The unit test\<close>

text \<open>
  The test of \<^verbatim>\<open>stream.rs\<close>. The channel, \<open>try_recv\<close> and the tasks that have been woken are its
  parameters; a \<open>FlagWaker\<close> is the number of a task, and \<open>write_waker\<close> and \<open>read_waker\<close> are two of
  them. A failed assertion is \<open>None\<close>.
\<close>

definition write_waker :: waker where
  "write_waker = 1"

definition read_waker :: waker where
  "read_waker = 2"

definition outbound_ctx ::
    "('ch, 'z) mux_ops_scheme \<Rightarrow> instant \<Rightarrow> sender \<Rightarrow> 'ch \<Rightarrow> 'ch sctx run" where
  "outbound_ctx ops now tx ch = do {
     let w = \<lparr>w_heap = [], w_acc = 0, w_chan = ch, w_rtt = rtt_new now, w_handles = [], w_woken = [], w_ticks = 0\<rparr>;
     let (st, w) = stream_new_outbound ops (\<lambda>_. now) 1 default_config tx w;
     sh \<leftarrow> cell (stm_shared st) w;
     Some (handle_ctx st sh w) }"

definition read_half_does_not_steal_the_write_half_wakeup ::
    "('ch, 'z) mux_ops_scheme \<Rightarrow> (nat \<Rightarrow> sender \<times> 'ch) \<Rightarrow> ('ch \<Rightarrow> (stream_command \<times> 'ch) option) \<Rightarrow>
       ('ch \<Rightarrow> waker list) \<Rightarrow> instant \<Rightarrow> unit run" where
  "read_half_does_not_steal_the_write_half_wakeup ops channel try_recv woken now = do {
     let (tx, ch) = channel 0;
     s \<leftarrow> outbound_ctx ops now tx ch;
     (r, s) \<leftarrow> stream_poll_write ops write_waker [0x68, 0x65, 0x6C, 0x6C, 0x6F] s;
     _ \<leftarrow> assert_that (is_ready r);
     (r, s) \<leftarrow> stream_poll_write ops write_waker [0x77, 0x6F, 0x72, 0x6C, 0x64] s;
     _ \<leftarrow> assert_that (\<not> is_ready r);
     (r, s) \<leftarrow> stream_poll_read ops read_waker now now (rtt_get (rtt_new now)) 16 s;
     _ \<leftarrow> assert_that (\<not> is_ready r);
     (_, ch) \<leftarrow> try_recv (cx_chan s);
     assert_that (write_waker \<in> set (woken ch)) }"

text \<open>Its run on the reference channel, state by state.\<close>

definition test_ctx :: "flag \<Rightarrow> u32 \<Rightarrow> waker option \<Rightarrow> pchan \<Rightarrow> pchan sctx" where
  "test_ctx fl window reader ch =
     \<lparr>cx_stream = \<lparr>stm_id = 1, stm_config = default_config, stm_sender = 0, stm_window_update_sender = 1,
        stm_flag = fl, stm_shared = 0\<rparr>,
      cx_shared = (shared_new DEFAULT_CREDIT window default_config 0)\<lparr>sh_reader := reader\<rparr>,
      cx_acc = 0, cx_chan = ch\<rparr>"

definition test_chan :: "waker option \<Rightarrow> stream_command list \<Rightarrow> sender list \<Rightarrow> pchan" where
  "test_chan task q parked = (snd (pchan_channel 0))\<lparr>pc_queue := q, pc_parked := parked,
     pc_task := (\<lambda>_. None)(0 := task), pc_next := 2\<rparr>"

lemmas test_defs = test_ctx_def test_chan_def pchan_channel_def pchan_ops_def shared_new_def
  fc_new_def default_config_def size_defs DEFAULT_CREDIT_eq Let_def

lemma test_opens:
  "outbound_ctx (pchan_ops 1) 0 0 (snd (pchan_channel 0)) = Some (test_ctx Syn DEFAULT_CREDIT None (test_chan None [] []))"
  by (simp add: outbound_ctx_def test_defs stream_new_outbound_def stream_new_def cell_def handle_ctx_def)

definition hello_frame :: frame where
  "hello_frame = \<lparr>fr_header = hdr_syn (header_data 1 5), fr_body = [0x68, 0x65, 0x6C, 0x6C, 0x6F]\<rparr>"

lemma test_writes:
  "stream_poll_write (pchan_ops 1) write_waker [0x68, 0x65, 0x6C, 0x6C, 0x6F]
       (test_ctx Syn DEFAULT_CREDIT None (test_chan None [] []))
     = Some (Ready (Ok 5), test_ctx NoFlag (DEFAULT_CREDIT - 5) None (test_chan None [SendFrame hello_frame] [0]))"
  by (simp add: test_defs stream_poll_write_def pchan_poll_ready_def pchan_start_send_def hello_frame_def can_write_def
      send_window_def consume_send_window_def fc_consume_send_window_def checked_sub_def frame_data_def
      u32_try_from_def add_flag_def send_command_def flags_contains_def hdr_syn_def header_data_def SYN_def ACK_def)

lemma test_write_pends:
  "stream_poll_write (pchan_ops 1) write_waker buf (test_ctx fl w None (test_chan task q [0]))
     = Some (Pending, test_ctx fl w None (test_chan (Some write_waker) q [0]))"
  by (simp add: test_defs stream_poll_write_def pchan_poll_ready_def)

lemma test_no_credit:
  "shared_next_window_update 0 0 None 0 (shared_new DEFAULT_CREDIT w default_config 0)
     = Some (None, 0, shared_new DEFAULT_CREDIT w default_config 0)"
  by (simp add: test_defs shared_next_window_update_def fc_next_window_update_def assert_invariants_def
      spare_window_def window_deficit_def checked_sub_def umul_def usub_def assert_that_def window_limit_def
      chunks_new_def chunks_len_def saturating_sub_def u32_of_usize_or_max_def)

lemma test_read_pends:
  "stream_poll_read (pchan_ops 1) read_waker 0 0 None 16 (test_ctx fl w None (test_chan task q [0]))
     = Some (Pending, test_ctx fl w (Some read_waker) (test_chan task q [0]))"
proof -
  have "send_window_update (pchan_ops 1) read_waker 0 0 None (test_ctx fl w None (test_chan task q [0]))
      = Some (Ready (Ok ()), test_ctx fl w None (test_chan task q [0]))"
    using test_no_credit [of w] by (simp add: test_ctx_def test_chan_def pchan_channel_def pchan_ops_def shared_new_def
        send_window_update_def pchan_poll_ready_def can_read_def Let_def)
  moreover have "\<not> no_read_after_close (pchan_ops 1) (test_ctx fl w None (test_chan task q [0]))"
    by (simp add: no_read_after_close_def pchan_ops_def)
  moreover have "chunks_copy 16 chunks_new = Some ([], chunks_new)"
    by (simp add: chunks_copy_def run_loop.simps copy_step_def chunks_front_def chunks_new_def)
  ultimately show ?thesis
    by (simp add: stream_poll_read_def test_ctx_def shared_new_def can_read_def)
qed

lemma test_recv_wakes:
  "pchan_try_recv (cx_chan (test_ctx fl w reader (test_chan (Some cx) (c # q) [0])))
     = Some (c, (test_chan None q [])\<lparr>pc_woken := [cx]\<rparr>)"
  by (simp add: pchan_try_recv_def test_ctx_def test_chan_def pchan_channel_def wake_def fun_eq_iff)

lemma wakeup_test_passes:
  "read_half_does_not_steal_the_write_half_wakeup (pchan_ops 1) pchan_channel pchan_try_recv pc_woken 0 = Some ()"
  using test_opens
  by (simp add: read_half_does_not_steal_the_write_half_wakeup_def pchan_channel_def [of 0] test_writes test_write_pends
      test_read_pends test_recv_wakes rtt_new_def rtt_get_def is_ready_def assert_that_def)

subsection \<open>The properties\<close>

text \<open>
  C13: Neither half of a split stream steals the wake-up of the other. When a call is pending, the waker
  of its task is where it will be found: with the sender of its half of the stream, or in the
  shared cell as its reader or writer. However often the other half is polled then, it is still
  there.
\<close>

theorem halves_keep_their_wakers:
  assumes "parking_channel ops waiting"
    and "stm_sender (cx_stream s) \<noteq> stm_window_update_sender (cx_stream s)"
    and "call_pends ops rtt c s" and "run_call ops rtt c s = Some t"
    and "\<forall>d \<in> set cs. call_half d = other_half (call_half c)" and "run_calls ops rtt cs t = Some u"
  shows "waiting (half_sender (call_half c) (cx_stream u)) (cx_chan u) = Some (call_waker c)
    \<or> half_waker (call_half c) (cx_shared u) = Some (call_waker c)"
proof -
  from on_half_call [OF assms(4)] assms(2)
  have "stm_sender (cx_stream t) \<noteq> stm_window_update_sender (cx_stream t)"
    by (auto simp: on_half_def)
  with parking_channel.pending_registers [OF assms(1,3,4)]
    parking_channel.other_calls_keep [OF assms(1,6,5)]
  have "parking_channel.registered waiting (call_half c) (call_waker c) u"
    by simp
  then show ?thesis
    by (simp add: parking_channel.registered_def [OF assms(1)])
qed

theorem halves_keep_their_wakers_witness:
  "\<exists>s t u. outbound_ctx (pchan_ops 1) 0 0 (snd (pchan_channel 0)) = Some s
    \<and> run_calls (pchan_ops 1) None [CallWrite write_waker [0x68, 0x65, 0x6C, 0x6C, 0x6F],
         CallWrite write_waker [0x77]] s = Some t
    \<and> run_calls (pchan_ops 1) None [CallRead read_waker 0 0 16] t = Some u
    \<and> (pc_task (cx_chan u) 0 = Some write_waker \<or> sh_writer (cx_shared u) = Some write_waker)
    \<and> read_half_does_not_steal_the_write_half_wakeup (pchan_ops 1) pchan_channel pchan_try_recv pc_woken 0 = Some ()"
proof -
  let ?ch = "\<lambda>task. test_chan task [SendFrame hello_frame] [0]"
  let ?s = "test_ctx NoFlag (DEFAULT_CREDIT - 5) None (?ch None)"
  let ?t = "test_ctx NoFlag (DEFAULT_CREDIT - 5) None (?ch (Some write_waker))"
  let ?u = "test_ctx NoFlag (DEFAULT_CREDIT - 5) (Some read_waker) (?ch (Some write_waker))"
  have "call_pends (pchan_ops 1) None (CallWrite write_waker [0x77]) ?s"
    "run_call (pchan_ops 1) None (CallWrite write_waker [0x77]) ?s = Some ?t"
    "run_calls (pchan_ops 1) None [CallRead read_waker 0 0 16] ?t = Some ?u"
    by (simp_all add: test_write_pends test_read_pends is_ready_def)
  from halves_keep_their_wakers [OF pchan.parking_channel_axioms _ this(1,2) _ this(3)]
  have "pc_task (cx_chan ?u) 0 = Some write_waker \<or> sh_writer (cx_shared ?u) = Some write_waker"
    by (simp add: test_ctx_def)
  then show ?thesis
    by (intro exI [of _ "test_ctx Syn DEFAULT_CREDIT None (test_chan None [] [])"] exI [of _ ?t] exI [of _ ?u])
      (simp add: test_opens test_writes test_write_pends test_read_pends wakeup_test_passes del: fun_upd_apply)
qed

end
