(* ===== verification/Credit_Exact.thy ===== *)
theory Credit_Exact
  imports Delivery Wakeups
begin

text \<open>
  The account of a stream between two connections, to the byte. Soundness of the flow control says
  that a side never has more credit than the other will accept; here it has exactly that much: no
  credit is lost on the way, and none is spent twice. It follows that a
  reader who waits for bytes leaves the writer with at least half of the default window, in his hands or
  under way, so that the two cannot come to a standstill.
\<close>

subsection \<open>Channels that keep their word\<close>

text \<open>A sender that was ready takes the next command.\<close>

locale prompt_sender = command_sender ops queued
  for ops :: "('ch, 'z) chan_ops_scheme" and queued :: "'ch \<Rightarrow> stream_command multiset" +
  assumes ready_send: "ch_poll_ready ops tx cx ch = (Ready (Ok ()), ch') \<Longrightarrow> fst (ch_start_send ops tx c ch') = Ok ()"
begin

lemma never_refuses: "\<not> refuses"
  unfolding refuses_def using ready_send by (metis result.distinct(1))

end

lemma send_to_owned: "find (owns tx) ts = Some t \<Longrightarrow> fst (send_to tx c ts) = Ok ()"
  by (induction ts) (auto split: if_splits prod.splits)

interpretation list_mux: prompt_sender list_mux chans_queued
proof unfold_locales
  show "fst (ch_start_send list_mux tx c ch') = Ok ()" if "ch_poll_ready list_mux tx cx ch = (Ready (Ok ()), ch')" for tx cx ch ch' c
    using that send_to_owned [of tx "cs_rx ch" _ c]
    by (cases "send_to tx c (cs_rx ch)") (auto simp: list_mux_def split: option.splits if_splits)
qed

subsection \<open>One side\<close>

text \<open>
  A step that sends \<open>ss\<close> and receives \<open>gs\<close>. As long as the stream is not known, nothing is on its way
  out; what comes in may be refused then.
\<close>

definition settled ::
    "('ch \<Rightarrow> stream_command multiset) \<Rightarrow> u32 \<Rightarrow> ('io, 'ch) active \<Rightarrow> frame list \<Rightarrow> frame list \<Rightarrow> ('io, 'ch) active \<Rightarrow> bool" where
  "settled queued sid s ss gs s' \<longleftrightarrow>
     (if streams_get sid s = None \<and> streams_get sid s' = None
      then payload_due queued sid s' + frames_payload sid ss = payload_due queued sid s
        \<and> credit_due queued sid s' + frames_credit sid ss = credit_due queued sid s
      else may_send sid s' + payload_due queued sid s' + frames_payload sid ss
          = may_send sid s + payload_due queued sid s + frames_credit sid gs
        \<and> may_receive sid s' + frames_payload sid gs + credit_due queued sid s
          = may_receive sid s + credit_due queued sid s' + frames_credit sid ss)"

lemma settled_moved:
  assumes "may_send sid s' = may_send sid s" and "may_receive sid s' = may_receive sid s"
    and "payload_due queued sid s' + frames_payload sid ss = payload_due queued sid s"
    and "credit_due queued sid s' + frames_credit sid ss = credit_due queued sid s"
  shows "settled queued sid s ss [] s'"
  using assms by (simp add: settled_def)

lemma settled_io:
  assumes "a_streams s' = a_streams s" and "w_heap s' = w_heap s"
    and "payload_due queued sid s' + frames_payload sid ss = payload_due queued sid s"
    and "credit_due queued sid s' + frames_credit sid ss = credit_due queued sid s"
  shows "settled queued sid s ss [] s'"
  using windows_cong [OF assms(1), of sid] assms(2-4) by (intro settled_moved) (simp_all add: cell_def)

lemma weights_other:
  assumes "\<not> of_stream sid f"
  shows "frame_credit sid f = 0" and "frame_payload sid f = 0"
  using assms by (auto simp: frame_credit_def frame_payload_def of_stream_def)

lemma windows_effect:
  assumes ok: "core_ok s" "core_ok s'" and "frame_effect env f s s'" and kp: "keeps sid s s'"
    and fits: "frame_payload sid f \<le> may_receive sid s" "may_send sid s + frame_credit sid f < 2 ^ 32"
    and nosyn: "streams_get sid s \<noteq> None \<Longrightarrow> of_stream sid f \<Longrightarrow> \<not> has_syn f"
  shows "streams_get sid s = None \<and> streams_get sid s' = None
    \<or> may_send sid s' = may_send sid s + frame_credit sid f \<and> may_receive sid s' + frame_payload sid f = may_receive sid s"
  using assms(3)
proof cases
  case same
  have g: "streams_get sid s' = streams_get sid s"
    using same(2) by (simp add: streams_get_def)
  have "\<not> of_stream sid f" if "streams_get sid s \<noteq> None"
    using same(3) fits nosyn [OF that] that by (cases "sid = frame_stream f") (auto simp: of_stream_def)
  with g windows_flows [OF ok(2) same(1) g] weights_other [of sid f] show ?thesis
    by (cases "streams_get sid s") auto
next
  case removed
  note g = removed_same [OF disjI2 [OF removed(2)] kp]
  have "\<not> of_stream sid f" if "streams_get sid s \<noteq> None"
    using that g removed(2) by (auto simp: of_stream_def streams_get_def delete_conv')
  with g windows_flows [OF ok(2) removed(1) g] weights_other [of sid f] show ?thesis
    by (cases "streams_get sid s") auto
next
  case changed
  from windows_changed [OF ok kp changed] show ?thesis
    by (auto simp: frame_credit_def frame_payload_def)
next
  case (opened st sh)
  then have "may_send (frame_stream f) s = unat DEFAULT_CREDIT" "may_receive (frame_stream f) s = unat DEFAULT_CREDIT"
    by (simp_all add: opened_by_def may_send_def may_receive_def)
  with opened(5,6) windows_opened [OF opened(1), of sid] show ?thesis
    by (auto simp: frame_credit_def frame_payload_def)
qed

context duplex_env
begin

lemma got_settled:
  assumes ok: "peer_ok queued s" and f: "frame_ok f" and kp: "keeps sid s t"
    and fits: "frame_payload sid f \<le> may_receive sid s" "may_send sid s + frame_credit sid f < 2 ^ 32"
    and nosyn: "streams_get sid s \<noteq> None \<Longrightarrow> of_stream sid f \<Longrightarrow> \<not> has_syn f"
    and none: "a_pending_read_frame s = None" and d: "on_frame env f s = Some (r, s1)"
    and t: "t = (case r of Ok act \<Rightarrow> queue_reply act s1 | Err e \<Rightarrow> s1)"
  shows "settled queued sid s [] [f] t"
proof -
  have core: "core_ok s"
    using ok by (simp add: peer_ok_def)
  from on_frame_effect [OF core f d] obtain s0 where
    s0: "quiet s s0" "flows s s0" "a_streams s0 = a_streams s" and e: "frame_effect env f s0 s1"
    by blast
  from on_frame_ok [OF core f] d have h: "handles s s1"
    by auto
  have core0: "core_ok s0" and core1: "core_ok s1"
    using s0(1) h by (simp_all add: quiet_def handles_def)
  have eq: "\<And>a. cell a t = cell a s1" "a_streams t = a_streams s1" "w_chan t = w_chan s1"
    "a_pending_write_frame t = a_pending_write_frame s1"
    by (simp_all add: t queue_reply_fields split: result.splits)
  have g0: "streams_get sid s0 = streams_get sid s" and gt: "streams_get sid t = streams_get sid s1"
    using s0(3) eq(2) by (simp_all add: streams_get_def)
  note w0 = windows_flows [OF core0 s0(2) g0] and wt = windows_cong(1,2) [OF eq(2,1), of sid]
  have "pending_weight (frame_payload sid) (a_pending_read_frame t) = 0
      \<and> pending_weight (frame_credit sid) (a_pending_read_frame t) = 0"
  proof (cases r)
    case (Ok act)
    then show ?thesis
      using reply_weights [of f s act s1 sid] d none h by (cases act) (auto simp: t handles_def same_io_def)
  next
    case (Err e)
    with none h show ?thesis
      by (simp add: t handles_def same_io_def)
  qed
  then have due: "payload_due queued sid t = payload_due queued sid s" "credit_due queued sid t = credit_due queued sid s"
    using h none eq(3,4) by (simp_all add: payload_due_def credit_due_def handles_def same_io_def)
  have "streams_get sid s0 = None \<and> streams_get sid s1 = None
      \<or> may_send sid s1 = may_send sid s0 + frame_credit sid f \<and> may_receive sid s1 + frame_payload sid f = may_receive sid s0"
    using fits nosyn kp g0 gt w0 by (intro windows_effect [OF core0 core1 e]) (auto simp: keeps_def)
  with due g0 gt w0 wt show ?thesis
    by (auto simp: settled_def)
qed

lemma peer_step_settled:
  assumes "peer_step env s l s'" and ok: "peer_ok queued s" and kp: "keeps sid s s'"
    and in_ok: "\<And>f. l = Got f \<Longrightarrow> frame_ok f \<and> frame_payload sid f \<le> may_receive sid s
      \<and> may_send sid s + frame_credit sid f < 2 ^ 32 \<and> (streams_get sid s \<noteq> None \<longrightarrow> of_stream sid f \<longrightarrow> \<not> has_syn f)"
  shows "settled queued sid s (sent_by l) (got_by l) s'"
  using assms(1)
proof cases
  case (ping p rt)
  have "frame_payload sid f = 0 \<and> frame_credit sid f = 0" if "p = Some f" for f
    using ping(3) that by (auto simp: next_ping_def Let_def split: if_splits)
  with ping(1,2) show ?thesis
    by (cases p) (auto simp: payload_due_def credit_due_def intro!: settled_io)
next
  case (command cx j c ch)
  with mux.poll_next_item [OF command(4)] show ?thesis
    by (auto simp: payload_due_def credit_due_def intro!: settled_io)
next
  case (dropped cx j ch fo s1)
  let ?s0 = "s\<lparr>w_chan := ch\<rparr>"
  have q: "queued ch = queued (w_chan s)"
    using mux.poll_next_end [OF dropped(4)] by simp
  have core: "core_ok ?s0"
    using ok by (simp add: peer_ok_def)
  from on_drop_stream_ok [OF core, of j] dropped(5) have h: "quiet ?s0 s1"
    by auto
  then have core1: "core_ok s1"
    by (simp add: quiet_def)
  note fl = flows_drop_stream [OF dropped(5)]
  have eq: "\<And>a. cell a s' = cell a s1" "a_streams s' = a_streams s1" "w_chan s' = w_chan s1"
    "a_pending_read_frame s' = a_pending_read_frame s1" "a_pending_write_frame s1 = None"
    using dropped(1-3) h by (auto simp: quiet_def same_io_def split: option.splits)
  have g: "streams_get sid s1 = streams_get sid ?s0"
    using fl kp eq(2) by (intro removed_same [of _ _ j]) (auto simp: keeps_def streams_get_def)
  have "may_send sid s' = may_send sid s" "may_receive sid s' = may_receive sid s"
    using windows_flows [OF core1 _ g] fl windows_cong [OF eq(2,1), of sid] windows_cong [of ?s0 s sid] by simp_all
  moreover have "pending_weight (frame_payload sid) (a_pending_write_frame s') = 0"
    "pending_weight (frame_credit sid) (a_pending_write_frame s') = 0"
    using fl eq(5) by (auto simp: dropped(2) split: option.splits)
  ultimately show ?thesis
    using h q eq(3,4) dropped(1,3)
    by (auto simp: payload_due_def credit_due_def quiet_def same_io_def intro!: settled_moved)
next
  case (blocked cx ch)
  with mux.poll_next_pending [OF blocked(3)] show ?thesis
    by (auto simp: payload_due_def credit_due_def intro!: settled_io)
next
  case (no_streams cx ch)
  with mux.poll_next_none [OF no_streams(3)] show ?thesis
    by (auto simp: payload_due_def credit_due_def intro!: settled_io)
next
  case (got f act s1)
  with got_settled [OF ok _ kp _ _ _ got(3,4)] in_ok show ?thesis by simp
next
  case (go_away f e)
  with got_settled [OF ok _ kp _ _ _ go_away(2,3)] in_ok show ?thesis by simp
qed (auto simp: payload_due_def credit_due_def intro!: settled_io)

lemma outbound_settled:
  assumes ok: "peer_ok queued s" and p: "active_poll_new_outbound env cx s = Some (r, s')"
  shows "settled queued sid s [] [] s'"
proof -
  have core: "core_ok s"
    using ok by (simp add: peer_ok_def)
  from poll_new_outbound_ok [OF core, of cx] p have io: "same_io s s'" and h: "outbound_ok cx s r s'" and core': "core_ok s'"
    by (auto simp: handles_def)
  from io have due: "payload_due queued sid s' = payload_due queued sid s" "credit_due queued sid s' = credit_due queued sid s"
    using handles_def poll_new_outbound_ok [OF core, of cx] p by (auto simp: payload_due_def credit_due_def same_io_def handles_def)
  have "may_send sid s' = may_send sid s \<and> may_receive sid s' = may_receive sid s"
  proof (cases "\<exists>st. r = Ready (Ok st)")
    case False
    then consider "r = Pending" | e where "r = Ready (Err e)"
      by (metis poll.exhaust result.exhaust)
    then have "flows s s' \<and> streams_get sid s' = streams_get sid s"
      using h by cases (simp_all add: outbound_ok_def flows_def streams_get_def)
    then show ?thesis
      using windows_flows [OF core'] by blast
  next
    case True
    with p obtain st where "active_poll_new_outbound env cx s = Some (Ready (Ok st), s')"
      by blast
    from outbound_opens [OF core this] obtain sh where o: "opened_by env Syn (a_next_id s) s st sh s'"
      "send_window sh = DEFAULT_CREDIT" "fc_receive_window (sh_flow sh) = DEFAULT_CREDIT"
      by blast
    then have "streams_get (a_next_id s) s = None"
      by (simp add: opened_by_def)
    with windows_opened [OF o(1), of sid] o(2,3) show ?thesis
      by (auto simp: may_send_def may_receive_def)
  qed
  with due show ?thesis
    by (intro settled_moved) simp_all
qed

lemma drop_settled:
  assumes ok: "peer_ok queued s" and c: "i < length (w_handles s)" "drop_handle (e_ch env) (held s) i s = Some s'"
  shows "settled queued sid s [] [] s'"
proof -
  have core: "core_ok s" and w: "world_ok (a_config s) (held s) s"
    using ok by (auto simp: peer_ok_def core_ok_def)
  from drop_handle_ok [OF w c(1), of "e_ch env"] c(2) have d: "\<forall>a \<in> set (held s). cell a s' = cell a s"
    by auto
  note f = drop_handle_fields [OF c(2)]
  have "queued (w_chan s') = queued (w_chan s)"
    using f mux.drop_queued by simp
  moreover have "streams_get sid s' = streams_get sid s" "cell a s' = cell a s" if "streams_get sid s = Some a" for a
    using f bspec [OF d held_get [OF that]] by (simp_all add: streams_get_def)
  then have "may_send sid s' = may_send sid s" "may_receive sid s' = may_receive sid s"
    using f by (cases "streams_get sid s"; simp add: may_send_def may_receive_def streams_get_def)+
  ultimately show ?thesis
    using f by (intro settled_moved) (simp_all add: payload_due_def credit_due_def same_io_def)
qed

lemma call_settled:
  assumes "peer_ok queued s" and "linked sid s" and "i < length (w_handles s)" and "call_ok c"
    and "handle_call (e_ch env) i c s = Some s'" and "\<not> mux.refuses"
  shows "settled queued sid s [] [] s'"
  using handle_call_windows [OF assms(1-5)] assms(6)
  by (auto simp: settled_def may_send_def may_receive_def)

lemma deed_settled:
  assumes "deed env sid p p'" and ok: "peer_ok queued (pt_conn p)" "linked sid (pt_conn p)" and kp: "keeps sid (pt_conn p) (pt_conn p')"
    and in_ok: "\<And>f. pt_got p' = pt_got p @ [f] \<Longrightarrow> arrives_ok sid (pt_conn p) f" and prompt: "\<not> mux.refuses"
    and log: "pt_sent p' = pt_sent p @ ss" "pt_got p' = pt_got p @ gs"
  shows "settled queued sid (pt_conn p) ss gs (pt_conn p')"
  using assms(1)
proof cases
  case (peer l s)
  then have "settled queued sid (pt_conn p) (sent_by l) (got_by l) s"
    using in_ok kp by (intro peer_step_settled [OF peer(2) ok(1)]) (auto simp: arrives_ok_def)
  with log peer(1) show ?thesis by simp
next
  case (outbound cx r s)
  with outbound_settled [OF ok(1) outbound(2), of sid] log show ?thesis by simp
next
  case (call i c s)
  with call_settled [OF ok call(2-4) prompt] log show ?thesis by simp
next
  case (drop i s)
  with drop_settled [OF ok(1) drop(2,3), of sid] log show ?thesis by simp
qed

end

subsection \<open>Reading restores the window\<close>

text \<open>
  What the window lacks, not counting the bytes in the buffer, is less than half of the maximum after
  \<open>next_window_update\<close>, and the maximum is never below the default.
\<close>

lemma window_update_refills:
  assumes "window_update_ok n acc fc upd acc' fc'" and "unat DEFAULT_CREDIT \<le> unat (fc_max_receive_window fc)"
  shows "unat DEFAULT_CREDIT div 2 \<le> unat (fc_receive_window fc') + n"
  using assms by (cases upd) (auto simp: window_update_ok_def)

lemma send_window_update_refills:
  assumes ok: "ctx_ok rtt s" and "can_read (cx_state s)"
    and "ch_poll_ready ops (stm_window_update_sender (cx_stream s)) cx (cx_chan s) = (Ready (Ok ()), ch)"
    and u: "send_window_update ops cx t1 t2 rtt s = Some (r, s')"
  shows "unat DEFAULT_CREDIT div 2 \<le> unat (fc_receive_window (flow_of s')) + length (cx_content s)"
proof -
  from ok obtain upd acc sh where
    upd: "shared_next_window_update t1 t2 rtt (cx_acc s) (cx_shared s) = Some (upd, acc, sh)"
    and w: "window_update_ok (length (cx_content s)) (cx_acc s) (flow_of s) upd acc (sh_flow sh)"
    using shared_next_window_update_ok [of "cx_shared s" "cx_acc s" rtt t1 t2] unfolding ctx_ok_def by blast
  have "flow_of s' = sh_flow sh"
    using u assms(2,3) upd
    by (auto simp: send_window_update_def Let_def send_command_def split: option.splits prod.splits result.splits)
  moreover have "unat DEFAULT_CREDIT \<le> unat (fc_max_receive_window (flow_of s))"
    using ok by (simp add: ctx_ok_def shared_ok_def fc_ok_def)
  ultimately show ?thesis
    using window_update_refills [OF w] by simp
qed

text \<open>A call that asks for at least a byte.\<close>

fun asks_bytes :: "stream_call \<Rightarrow> bool" where
  "asks_bytes (CallNext _ _ _) \<longleftrightarrow> True"
| "asks_bytes (CallRead _ _ _ m) \<longleftrightarrow> 0 < m \<and> m < 2 ^ 64"
| "asks_bytes _ \<longleftrightarrow> False"

text \<open>
  The call on the handle \<open>i\<close>, one of the stream \<open>sid\<close>, asks for bytes and is pending, though the channel for
  window updates has room: the reader waits.
\<close>

definition waits_reader :: "('io, 'ch) env \<Rightarrow> u32 \<Rightarrow> nat \<Rightarrow> stream_call \<Rightarrow> ('io, 'ch) active \<Rightarrow> bool" where
  "waits_reader env sid i c s \<longleftrightarrow>
     i < length (w_handles s) \<and> stm_id (w_handles s ! i) = sid \<and> asks_bytes c
     \<and> fst (ch_poll_ready (e_ch env) (stm_window_update_sender (w_handles s ! i)) (call_waker c) (w_chan s)) = Ready (Ok ())
     \<and> (case cell (stm_shared (w_handles s ! i)) s of None \<Rightarrow> False
        | Some sh \<Rightarrow> call_pends (e_ch env) (rtt_get (w_rtt s)) c (handle_ctx (w_handles s ! i) sh s))"

lemma asks_call_ok: "asks_bytes c \<Longrightarrow> call_ok c"
  by (cases c) simp_all

lemma next_pends_drained:
  assumes ok: "ctx_ok rtt s" and p: "stream_poll_next ops cx t1 t2 rtt s = Some (Pending, s')"
  shows "\<not> no_read_after_close ops s \<and> can_read (cx_state s) \<and> cx_content s = []"
proof -
  have n: "\<not> no_read_after_close ops s"
    using p by (auto simp: stream_poll_next_def)
  from send_window_update_ok [OF ok, of ops cx t1 t2] obtain r s1 where
    up: "send_window_update ops cx t1 t2 rtt s = Some (r, s1)" "sh_buffer (cx_shared s1) = sh_buffer (cx_shared s)"
      "cx_state s1 = cx_state s"
    by blast
  from n p up obtain q where "chunks_pop (sh_buffer (cx_shared s)) = Some (None, q)" "can_read (cx_state s)"
    by (auto simp: stream_poll_next_def Let_def bind_eq_Some_conv split: poll.splits result.splits option.splits if_splits)
  with n show ?thesis
    by (auto simp: chunks_pop_def chunks_bytes_def bind_eq_Some_conv split: list.splits)
qed

lemma pends_drained:
  assumes ok: "ctx_ok rtt s" and c: "asks_bytes c" "call_pends ops rtt c s"
  shows "\<not> no_read_after_close ops s \<and> can_read (cx_state s) \<and> cx_content s = []"
proof (cases c)
  case (CallNext cx t1 t2)
  with c(2) obtain r s' where p: "stream_poll_next ops cx t1 t2 rtt s = Some (r, s')" "\<not> is_ready r"
    by (auto split: option.splits)
  then have "r = Pending"
    by (cases r) (simp_all add: is_ready_def)
  with next_pends_drained [OF ok] p(1) show ?thesis by blast
next
  case (CallRead cx t1 t2 m)
  with c ok obtain r s' where p: "stream_poll_read ops cx t1 t2 rtt m s = Some (r, s')" "\<not> is_ready r" "0 < m"
    "read_ok m cx (no_read_after_close ops s) s r s'"
    using stream_poll_read_ok [OF ok, of m ops cx t1 t2] by (auto split: option.splits)
  then have "r = Pending"
    by (cases r) (simp_all add: is_ready_def)
  with p(3,4) show ?thesis
    by (auto simp: read_ok_def)
qed (use c in simp_all)

lemma run_call_refills:
  assumes "run_call ops rtt c s = Some x" and "asks_bytes c" and "call_pends ops rtt c s" and "ctx_ok rtt s"
    and "ch_poll_ready ops (stm_window_update_sender (cx_stream s)) (call_waker c) (cx_chan s) = (Ready (Ok ()), ch)"
  shows "unat DEFAULT_CREDIT div 2 \<le> unat (fc_receive_window (flow_of x))"
proof -
  note d = pends_drained [OF assms(4,2,3)]
  obtain t1 t2 r s1 where "send_window_update ops (call_waker c) t1 t2 rtt s = Some (r, s1)" "flow_of x = flow_of s1"
  proof (cases c)
    case (CallNext cx t1 t2)
    with assms(1) d that show thesis by (auto dest!: stream_poll_next_after_update)
  next
    case (CallRead cx t1 t2 m)
    with assms(1) d that show thesis by (auto dest!: stream_poll_read_after_update)
  qed (use assms(2) in simp_all)
  with send_window_update_refills [OF assms(4) _ assms(5)] d show ?thesis by fastforce
qed

lemma handle_call_returns:
  assumes "core_ok s" and "i < length (w_handles s)" and "call_ok c"
  shows "\<exists>s'. handle_call ops i c s = Some s'"
  using assms handle_call_ok [of "a_config s" "held s" s i c ops] by (auto simp: core_ok_def)

lemma handle_call_refills:
  assumes core: "core_ok s" and lk: "linked sid s" and r: "waits_reader env sid i c s"
    and c: "handle_call (e_ch env) i c s = Some s'"
  shows "unat DEFAULT_CREDIT div 2 \<le> may_receive sid s'"
proof -
  let ?st = "w_handles s ! i" and ?rtt = "rtt_get (w_rtt s)"
  have i: "i < length (w_handles s)" "call_ok c" "stm_id ?st = sid" "asks_bytes c"
    using r by (simp_all add: waits_reader_def asks_call_ok)
  from handle_call_ctx [OF core i(1,2) c] obtain sh x where sh: "cell (stm_shared ?st) s = Some sh"
    and ctx: "ctx_ok ?rtt (handle_ctx ?st sh s)" and x: "run_call (e_ch env) ?rtt c (handle_ctx ?st sh s) = Some x"
    and s': "s' = (put_cell (stm_shared ?st) (cx_shared x) s)
       \<lparr>w_handles := (w_handles s)[i := cx_stream x], w_acc := cx_acc x, w_chan := cx_chan x\<rparr>"
    by blast
  have get: "streams_get sid s = Some (stm_shared ?st)" "streams_get sid s' = streams_get sid s"
    using lk i(1,3) by (simp_all add: linked_def s' streams_get_def put_cell_def)
  have "cell (stm_shared ?st) s' = Some (cx_shared x)"
    using sh by (simp add: s' cell_put_cell cell_Some)
  moreover have "unat DEFAULT_CREDIT div 2 \<le> unat (fc_receive_window (flow_of x))"
    using r sh by (intro run_call_refills [OF x i(4) _ ctx]) (auto simp: waits_reader_def handle_ctx_def prod_eq_iff)
  ultimately show ?thesis
    using get by (simp add: may_receive_def)
qed

subsection \<open>Both sides\<close>

text \<open>The books of a side: what it may send and receive follows from all that went over the wire.\<close>

definition books :: "('ch \<Rightarrow> stream_command multiset) \<Rightarrow> u32 \<Rightarrow> ('io, 'ch) party \<Rightarrow> bool" where
  "books queued sid p \<longleftrightarrow>
     may_send sid (pt_conn p) + payload_due queued sid (pt_conn p) + frames_payload sid (pt_sent p)
       = unat DEFAULT_CREDIT + frames_credit sid (pt_got p)
     \<and> may_receive sid (pt_conn p) + frames_payload sid (pt_got p)
       = unat DEFAULT_CREDIT + frames_credit sid (pt_sent p) + credit_due queued sid (pt_conn p)"

text \<open>A side that has not been told of the stream has put nothing of it on its way.\<close>

definition silent :: "('ch \<Rightarrow> stream_command multiset) \<Rightarrow> u32 \<Rightarrow> ('io, 'ch) party \<Rightarrow> bool" where
  "silent queued sid q \<longleftrightarrow> payload_due queued sid (pt_conn q) = 0 \<and> credit_due queued sid (pt_conn q) = 0
     \<and> frames_payload sid (pt_sent q) = 0 \<and> frames_credit sid (pt_sent q) = 0"

lemma windows_unknown:
  assumes "streams_get sid s = None"
  shows "may_send sid s = unat DEFAULT_CREDIT" and "may_receive sid s = unat DEFAULT_CREDIT"
  using assms by (simp_all add: may_send_def may_receive_def)

lemma books_step:
  assumes "books queued sid p" and "settled queued sid (pt_conn p) ss gs (pt_conn p')"
    and "pt_sent p' = pt_sent p @ ss" and "pt_got p' = pt_got p @ gs"
    and "streams_get sid (pt_conn p) = None \<Longrightarrow> frames_credit sid gs = 0 \<and> frames_payload sid gs = 0"
  shows "books queued sid p'"
  using assms windows_unknown [of sid "pt_conn p"] windows_unknown [of sid "pt_conn p'"]
  by (auto simp: books_def settled_def split: if_splits)

lemma silent_step:
  assumes "silent queued sid q" and "settled queued sid (pt_conn q) ss gs (pt_conn q')" and "pt_sent q' = pt_sent q @ ss"
    and "streams_get sid (pt_conn q) = None" and "streams_get sid (pt_conn q') = None"
  shows "silent queued sid q'"
  using assms by (simp add: silent_def settled_def)

text \<open>The account is opened by the frame with \<open>SYN\<close>, before which nothing counts.\<close>

lemma silent_opened:
  assumes "silent queued sid q" and "settled queued sid (pt_conn q) ss gs (pt_conn q')"
    and "pt_sent q' = pt_sent q @ ss" and "pt_got q' = pt_got q @ gs"
    and "streams_get sid (pt_conn q) = None" and "streams_get sid (pt_conn q') \<noteq> None"
    and "frames_credit sid (pt_got q) = 0" and "frames_payload sid (pt_got q) = 0"
  shows "books queued sid q'"
  using assms windows_unknown [of sid "pt_conn q"] by (simp add: silent_def settled_def books_def)

lemma frames_weights_filter:
  "frames_credit sid (filter (of_stream sid) fs) = frames_credit sid fs"
  "frames_payload sid (filter (of_stream sid) fs) = frames_payload sid fs"
  by (induction fs) (auto simp: weights_other)

lemma length_pays: "length (pays sid fs) = frames_payload sid fs"
  by (induction fs) (simp_all add: length_pay)

text \<open>What was received before the frame with \<open>SYN\<close> is of no weight.\<close>

lemma before_syn:
  assumes "syn_first sid (outgoing lane sid p)" and "prefix (xs @ [f]) (pt_sent p)" and "of_stream sid f" and "has_syn f"
  shows "frames_credit sid xs = 0 \<and> frames_payload sid xs = 0"
proof -
  obtain ys where "outgoing lane sid p = filter (of_stream sid) xs @ f # ys"
    using assms(2,3) by (auto simp: outgoing_def prefix_def)
  with assms(1,4) have "pays sid (filter (of_stream sid) xs) = []" "frames_credit sid (filter (of_stream sid) xs) = 0"
    unfolding syn_first_def by blast+
  then show ?thesis
    using length_pays [of sid xs] by (simp add: frames_weights_filter pays_filter)
qed

locale exact_chat =
  chat_env el outl inl ql endsl soundl boundl receiversl lanel er outr inr qr endsr soundr boundr receiversr laner +
  pl: prompt_sender "e_ch el" ql + pr: prompt_sender "e_ch er" qr
  for el :: "('io, 'ch) env" and outl and inl and ql and endsl and soundl and boundl and receiversl and lanel
    and er :: "('io, 'ch) env" and outr and inr and qr and endsr and soundr and boundr and receiversr and laner
begin

definition exact_ok :: "u32 \<Rightarrow> ('io, 'ch) party \<Rightarrow> ('io, 'ch) party \<Rightarrow> bool" where
  "exact_ok sid p q \<longleftrightarrow> chat_ok sid p q \<and> books ql sid p
     \<and> (if streams_get sid (pt_conn q) = None then silent qr sid q else books qr sid q)"

lemma left_settled:
  assumes ok: "chat_ok sid p q" and d: "deed el sid p p'" and pre: "prefix (pt_got p') (pt_sent q)"
    and kp: "keeps sid (pt_conn p) (pt_conn p')"
  obtains ss gs where "pt_sent p' = pt_sent p @ ss" and "pt_got p' = pt_got p @ gs"
    and "settled ql sid (pt_conn p) ss gs (pt_conn p')"
proof -
  from deed_log [OF d] obtain ss gs where log: "pt_sent p' = pt_sent p @ ss" "pt_got p' = pt_got p @ gs"
    by blast
  have "settled ql sid (pt_conn p) ss gs (pt_conn p')"
    using ok pre left_arrives [OF ok]
    by (intro l.deed_settled [OF d _ _ kp _ pl.never_refuses log]) (simp_all add: chat_ok_def duo_ok_def duo_of_def)
  with log show thesis by (rule that)
qed

lemma right_settled:
  assumes ok: "chat_ok sid p q" and d: "deed er sid q q'" and pre: "prefix (pt_got q') (pt_sent p)"
    and kp: "keeps sid (pt_conn q) (pt_conn q')"
  obtains ss gs where "pt_sent q' = pt_sent q @ ss" and "pt_got q' = pt_got q @ gs"
    and "settled qr sid (pt_conn q) ss gs (pt_conn q')"
proof -
  from deed_log [OF d] obtain ss gs where log: "pt_sent q' = pt_sent q @ ss" "pt_got q' = pt_got q @ gs"
    by blast
  have "settled qr sid (pt_conn q) ss gs (pt_conn q')"
    using ok pre right_arrives [OF ok]
    by (intro r.deed_settled [OF d _ _ kp _ pr.never_refuses log]) (simp_all add: chat_ok_def duo_ok_def duo_of_def)
  with log show thesis by (rule that)
qed

lemma left_exact:
  assumes ok: "exact_ok sid p q" and d: "deed el sid p p'" and pre: "prefix (pt_got p') (pt_sent q)"
    and kp: "keeps sid (pt_conn p) (pt_conn p')"
  shows "exact_ok sid p' q"
proof -
  have chat: "chat_ok sid p q" and b: "books ql sid p"
    using ok by (simp_all add: exact_ok_def)
  from left_settled [OF chat d pre kp] obtain ss gs where
    e: "pt_sent p' = pt_sent p @ ss" "pt_got p' = pt_got p @ gs" "settled ql sid (pt_conn p) ss gs (pt_conn p')"
    by blast
  have "frames_credit sid gs = 0 \<and> frames_payload sid gs = 0" if "streams_get sid (pt_conn p) = None"
  proof -
    from opener_unknown(2) [OF chat that] have "filter (of_stream sid) gs = []"
      using pre e(2) by (auto simp: outgoing_def prefix_def)
    then show ?thesis
      using frames_weights_filter [of sid gs] by simp
  qed
  with books_step [OF b e(3,1,2)] left_ok [OF chat d pre kp] ok show ?thesis
    by (simp add: exact_ok_def)
qed

text \<open>The stream becomes known on the right by a frame with \<open>SYN\<close>.\<close>

lemma right_opens:
  assumes ok: "chat_ok sid p q" and d: "deed er sid q q'" and pre: "prefix (pt_got q') (pt_sent p)"
    and kp: "keeps sid (pt_conn q) (pt_conn q')"
    and new: "streams_get sid (pt_conn q) = None" "streams_get sid (pt_conn q') \<noteq> None"
  shows "frames_credit sid (pt_got q) = 0 \<and> frames_payload sid (pt_got q) = 0"
proof -
  have "\<And>f. pt_got q' = pt_got q @ [f] \<Longrightarrow> arrives_ok sid (pt_conn q) f"
    using right_arrives [OF ok] pre by simp
  with r.deed_effect [OF d _ _ _ kp] ok obtain gs r where "pt_got q' = pt_got q @ gs" "reads sid (pt_conn q) gs r (pt_conn q')"
    by (auto simp: arrives_ok_def chat_ok_def duo_ok_def duo_of_def peer_ok_def)
  with new ok obtain f where "pt_got q' = pt_got q @ [f]" "of_stream sid f" "has_syn f"
    by (auto simp: reads_def chat_ok_def)
  with ok pre show ?thesis
    by (intro before_syn [of sid lanel p _ f]) (simp_all add: chat_ok_def sends_ok_def)
qed

lemma right_exact:
  assumes ok: "exact_ok sid p q" and d: "deed er sid q q'" and pre: "prefix (pt_got q') (pt_sent p)"
    and kp: "keeps sid (pt_conn q) (pt_conn q')"
  shows "exact_ok sid p q'"
proof -
  have chat: "chat_ok sid p q"
    using ok by (simp add: exact_ok_def)
  from right_settled [OF chat d pre kp] obtain ss gs where
    e: "pt_sent q' = pt_sent q @ ss" "pt_got q' = pt_got q @ gs" "settled qr sid (pt_conn q) ss gs (pt_conn q')"
    by blast
  have "if streams_get sid (pt_conn q') = None then silent qr sid q' else books qr sid q'"
  proof (cases "streams_get sid (pt_conn q)")
    case None
    with ok silent_step [OF _ e(3,1)] silent_opened [OF _ e(3,1,2)] right_opens [OF chat d pre kp] show ?thesis
      by (simp add: exact_ok_def)
  next
    case (Some a)
    then have "streams_get sid (pt_conn q') = Some a"
      using kp by (simp add: keeps_def)
    with Some ok books_step [OF _ e(3,1,2)] show ?thesis
      by (simp add: exact_ok_def)
  qed
  with right_ok [OF chat d pre kp] ok show ?thesis
    by (simp add: exact_ok_def)
qed

lemma chat_exact: "chat el er sid p0 q0 p q \<Longrightarrow> exact_ok sid p0 q0 \<Longrightarrow> exact_ok sid p q"
  by (induction rule: chat.induct) (auto intro: left_exact right_exact)

lemma exact_new:
  assumes "built_config cl" and "built_config cr" and "own_id ml sid" and "\<not> own_id mr sid"
    and "idle_channels ql soundl receiversl lanel chl" and "idle_channels qr soundr receiversr laner chr"
  shows "exact_ok sid (party_new (active_new iol chl nl cl ml)) (party_new (active_new ior chr nr cr mr))"
  using chat_new_ok [OF assms] assms(5,6)
  by (simp add: exact_ok_def books_def silent_def party_new_def active_new_def streams_get_def may_send_def may_receive_def
      payload_due_def credit_due_def idle_channels_def)

text \<open>What one side may send, with all that is on its way, is what the other will accept.\<close>

lemma exact_balance:
  assumes ok: "exact_ok sid p q" and known: "streams_get sid (pt_conn q) \<noteq> None"
  shows "may_send sid (pt_conn p) + payload_due ql sid (pt_conn p) + frames_payload sid (transit p q)
      + credit_due qr sid (pt_conn q) + frames_credit sid (transit q p) = may_receive sid (pt_conn q)"
    and "may_send sid (pt_conn q) + payload_due qr sid (pt_conn q) + frames_payload sid (transit q p)
      + credit_due ql sid (pt_conn p) + frames_credit sid (transit p q) = may_receive sid (pt_conn p)"
proof -
  have b: "books ql sid p" "books qr sid q" and pq: "prefix (pt_got q) (pt_sent p)" "prefix (pt_got p) (pt_sent q)"
    using ok known by (simp_all add: exact_ok_def chat_ok_def)
  have s: "frames_payload sid (pt_sent p) = frames_payload sid (pt_got q) + frames_payload sid (transit p q)"
    "frames_credit sid (pt_sent p) = frames_credit sid (pt_got q) + frames_credit sid (transit p q)"
    "frames_payload sid (pt_sent q) = frames_payload sid (pt_got p) + frames_payload sid (transit q p)"
    "frames_credit sid (pt_sent q) = frames_credit sid (pt_got p) + frames_credit sid (transit q p)"
    by (simp_all flip: transit_append [OF pq(1)] transit_append [OF pq(2)])
  with b show "may_send sid (pt_conn p) + payload_due ql sid (pt_conn p) + frames_payload sid (transit p q)
      + credit_due qr sid (pt_conn q) + frames_credit sid (transit q p) = may_receive sid (pt_conn q)"
    unfolding books_def by linarith
  from b s show "may_send sid (pt_conn q) + payload_due qr sid (pt_conn q) + frames_payload sid (transit q p)
      + credit_due ql sid (pt_conn p) + frames_credit sid (transit p q) = may_receive sid (pt_conn p)"
    unfolding books_def by linarith
qed

text \<open>A reader who waits leaves at least half of the default window in favour of the writer.\<close>

lemma right_unblocks:
  assumes ok: "exact_ok sid p q" and known: "streams_get sid (pt_conn q) \<noteq> None" and r: "waits_reader er sid i c (pt_conn q)"
  shows "\<exists>s. handle_call (e_ch er) i c (pt_conn q) = Some s
    \<and> unat DEFAULT_CREDIT div 2 \<le> may_send sid (pt_conn p) + payload_due ql sid (pt_conn p) + frames_payload sid (transit p q)
        + credit_due qr sid s + frames_credit sid (transit q p)"
proof -
  have chat: "chat_ok sid p q" and o: "peer_ok qr (pt_conn q)" "linked sid (pt_conn q)" and i: "i < length (w_handles (pt_conn q))" "call_ok c"
    using ok r by (simp_all add: exact_ok_def chat_ok_def duo_ok_def duo_of_def waits_reader_def asks_call_ok)
  obtain s where s: "handle_call (e_ch er) i c (pt_conn q) = Some s"
    using handle_call_returns [OF _ i] o(1) unfolding peer_ok_def by blast
  let ?q = "q\<lparr>pt_conn := s, pt_written := pt_written q @ fst (call_bytes er sid i c (pt_conn q)),
      pt_read := pt_read q @ snd (call_bytes er sid i c (pt_conn q))\<rparr>"
  have get: "streams_get sid s = streams_get sid (pt_conn q)"
    using r.handle_call_windows [OF o i s] by blast
  have "exact_ok sid p ?q"
    using right_exact [OF ok deed.call [OF i s]] get chat by (simp add: keeps_def chat_ok_def)
  from exact_balance(1) [OF this] get known have
    "may_send sid (pt_conn p) + payload_due ql sid (pt_conn p) + frames_payload sid (transit p q)
      + credit_due qr sid s + frames_credit sid (transit q p) = may_receive sid s"
    by (simp add: transit_def)
  moreover have "unat DEFAULT_CREDIT div 2 \<le> may_receive sid s"
    using o by (intro handle_call_refills [OF _ _ r s]) (simp_all add: peer_ok_def)
  ultimately show ?thesis
    using s by auto
qed

lemma left_unblocks:
  assumes ok: "exact_ok sid p q" and known: "streams_get sid (pt_conn q) \<noteq> None" and r: "waits_reader el sid i c (pt_conn p)"
  shows "\<exists>s. handle_call (e_ch el) i c (pt_conn p) = Some s
    \<and> unat DEFAULT_CREDIT div 2 \<le> may_send sid (pt_conn q) + payload_due qr sid (pt_conn q) + frames_payload sid (transit q p)
        + credit_due ql sid s + frames_credit sid (transit p q)"
proof -
  have chat: "chat_ok sid p q" and o: "peer_ok ql (pt_conn p)" "linked sid (pt_conn p)" and i: "i < length (w_handles (pt_conn p))" "call_ok c"
    using ok r by (simp_all add: exact_ok_def chat_ok_def duo_ok_def duo_of_def waits_reader_def asks_call_ok)
  obtain s where s: "handle_call (e_ch el) i c (pt_conn p) = Some s"
    using handle_call_returns [OF _ i] o(1) unfolding peer_ok_def by blast
  let ?p = "p\<lparr>pt_conn := s, pt_written := pt_written p @ fst (call_bytes el sid i c (pt_conn p)),
      pt_read := pt_read p @ snd (call_bytes el sid i c (pt_conn p))\<rparr>"
  have get: "streams_get sid s = streams_get sid (pt_conn p)"
    using l.handle_call_windows [OF o i s] by blast
  have "exact_ok sid ?p q"
    using left_exact [OF ok deed.call [OF i s]] get chat by (simp add: keeps_def chat_ok_def)
  from exact_balance(2) [OF this known] have
    "may_send sid (pt_conn q) + payload_due qr sid (pt_conn q) + frames_payload sid (transit q p)
      + credit_due ql sid s + frames_credit sid (transit p q) = may_receive sid s"
    by (simp add: transit_def)
  moreover have "unat DEFAULT_CREDIT div 2 \<le> may_receive sid s"
    using o by (intro handle_call_refills [OF _ _ r s]) (simp_all add: peer_ok_def)
  ultimately show ?thesis
    using s by auto
qed

end

interpretation exact: exact_chat test_env pipe_out pipe_in chans_queued chans_ends chans_sound chans_bound chans_count chans_lane
  test_env pipe_out pipe_in chans_queued chans_ends chans_sound chans_bound chans_count chans_lane
  unfolding exact_chat_def by (simp add: test.chat_env_axioms) (simp add: test_env_def list_mux.prompt_sender_axioms)

subsection \<open>Properties\<close>

text \<open>
  C2: Flow control keeps exact books. Two new connections talk to each other, in any
  interleaving, over channels that take what they were ready for, neither has forgotten the stream and both know
  it. Then the credit a side has, the payload it has queued and on the wire, and the credit queued and on the
  wire back to it are together exactly what the other side is ready to receive: no credit is
  lost, duplicated or spent twice, whatever was read, written, tuned or granted in between.
\<close>

theorem flow_control_exact:
  assumes "exact_chat el outl inl ql endsl soundl boundl receiversl lanel er outr inr qr endsr soundr boundr receiversr laner"
    and "built_config cl" and "built_config cr" and "own_id ml sid" and "\<not> own_id mr sid"
    and "idle_channels ql soundl receiversl lanel chl" and "idle_channels qr soundr receiversr laner chr"
    and "chat el er sid (party_new (active_new iol chl nowl cl ml)) (party_new (active_new ior chr nowr cr mr)) p q"
    and "streams_get sid (pt_conn q) \<noteq> None"
  shows "may_send sid (pt_conn p) + payload_due ql sid (pt_conn p) + frames_payload sid (transit p q)
      + credit_due qr sid (pt_conn q) + frames_credit sid (transit q p) = may_receive sid (pt_conn q)
    \<and> may_send sid (pt_conn q) + payload_due qr sid (pt_conn q) + frames_payload sid (transit q p)
      + credit_due ql sid (pt_conn p) + frames_credit sid (transit p q) = may_receive sid (pt_conn p)"
  using exact_chat.exact_balance [OF assms(1) exact_chat.chat_exact [OF assms(1,8) exact_chat.exact_new [OF assms(1-7)]] assms(9)]
  by blast

theorem flow_control_exact_witness:
  "\<exists>q :: (pipe, chans) party. streams_get 1 (pt_conn q) \<noteq> None
     \<and> may_receive 1 (pt_conn q) = 262143 + credit_due chans_queued 1 (pt_conn q)"
proof -
  obtain p q where d: "chat test_env test_env 1 (party_new (test_conn [])) (party_new test_server) p q"
    "streams_get 1 (pt_conn q) \<noteq> None" "transit p q = []" "pt_conn p = client_after client_shared' NoFlag []" "pt_sent q = []"
    using short_chat by blast
  have i: "idle_channels chans_queued chans_sound chans_count chans_lane no_channels"
    by (simp add: idle_channels_def no_channels_def chans_defs)
  have o: "own_id Client 1" "\<not> own_id Server 1"
    by (simp_all add: own_id_def is_client_def is_server_def)
  have "may_send 1 (pt_conn p) = 262143" "payload_due chans_queued 1 (pt_conn p) = 0" "transit q p = []"
    by (simp_all add: d(4,5) transit_def may_send_def payload_due_def client_after_def client_shared'_def client_shared_def
        client_chans_def test_conn_def active_new_def streams_get_def cell_def send_window_def chans_defs tagged_new_def)
  with flow_control_exact [OF exact.exact_chat_axioms built_config.default built_config.default o i i
      d(1) [unfolded test_conn_def test_server_def] d(2)] d(2,3)
  show ?thesis
    by (intro exI [of _ q]) simp
qed

text \<open>
  C3: A waiting reader keeps the writer going. In the same setting, let a user poll the stream for
  bytes, with room for at least one, and let the poll be pending, so that the buffer is empty and the
  reader waits for bytes; and let the channel for window updates have had room. Then after the poll at
  least half of the default window (128 KiB) is the writer's: credit he has, credit queued or on the wire to him,
  or payload of his that is queued or on the wire to the reader. So when the reader waits and nothing
  is under way, the writer has credit: the one never waits for bytes while the other waits for credit.
\<close>

theorem reader_unblocks_writer:
  assumes "exact_chat el outl inl ql endsl soundl boundl receiversl lanel er outr inr qr endsr soundr boundr receiversr laner"
    and "built_config cl" and "built_config cr" and "own_id ml sid" and "\<not> own_id mr sid"
    and "idle_channels ql soundl receiversl lanel chl" and "idle_channels qr soundr receiversr laner chr"
    and "chat el er sid (party_new (active_new iol chl nowl cl ml)) (party_new (active_new ior chr nowr cr mr)) p q"
    and "streams_get sid (pt_conn q) \<noteq> None"
  shows "(waits_reader er sid i c (pt_conn q) \<longrightarrow> (\<exists>s. handle_call (e_ch er) i c (pt_conn q) = Some s
      \<and> 131072 \<le> may_send sid (pt_conn p) + payload_due ql sid (pt_conn p) + frames_payload sid (transit p q)
          + credit_due qr sid s + frames_credit sid (transit q p)))
    \<and> (waits_reader el sid i c (pt_conn p) \<longrightarrow> (\<exists>s. handle_call (e_ch el) i c (pt_conn p) = Some s
      \<and> 131072 \<le> may_send sid (pt_conn q) + payload_due qr sid (pt_conn q) + frames_payload sid (transit q p)
          + credit_due ql sid s + frames_credit sid (transit p q)))"
proof -
  note ok = exact_chat.chat_exact [OF assms(1,8) exact_chat.exact_new [OF assms(1-7)]]
  show ?thesis
    using exact_chat.right_unblocks [OF assms(1) ok assms(9)] exact_chat.left_unblocks [OF assms(1) ok assms(9)] by simp
qed

lemma client_waits: "waits_reader test_env 1 0 (CallRead 5 0 0 16) (client_after client_shared' NoFlag [])"
proof -
  let ?s = "client_after client_shared' NoFlag []"
  let ?sh = "shared_new DEFAULT_CREDIT 262143 default_config 0"
  let ?c = "handle_ctx (client_stream\<lparr>stm_flag := NoFlag\<rparr>) ?sh ?s"
  have sh: "client_shared' = ?sh"
    by (simp add: client_shared'_def client_shared_def shared_new_def fc_new_def)
  have rdy: "ch_poll_ready list_mux 1 5 (client_chans []) = (Ready (Ok ()), client_chans [])"
    by (simp add: list_mux_def client_chans_def tagged_new_def owns_def tagged_inner_mut_def)
  have ctx: "cx_shared ?c = ?sh" "cx_acc ?c = 0" "cx_chan ?c = client_chans []" "stm_window_update_sender (cx_stream ?c) = 1"
    by (simp_all add: handle_ctx_def client_after_def test_conn_def active_new_def client_stream_def)
  have "can_read (cx_state ?c)"
    by (simp add: handle_ctx_def shared_new_def can_read_def)
  then have "send_window_update list_mux 5 0 0 None ?c = Some (Ready (Ok ()), ?c)"
    using test_no_credit [of 262143] rdy by (simp add: send_window_update_def ctx Let_def)
  moreover have "\<not> no_read_after_close list_mux ?c"
    by (simp add: no_read_after_close_def handle_ctx_def client_stream_def client_after_def client_chans_def list_mux_def
        default_config_def)
  moreover have "chunks_copy 16 chunks_new = Some ([], chunks_new)"
    by (simp add: chunks_copy_def run_loop.simps copy_step_def chunks_front_def chunks_new_def)
  ultimately have "call_pends list_mux None (CallRead 5 0 0 16) ?c"
    by (simp add: stream_poll_read_def handle_ctx_def shared_new_def can_read_def is_ready_def Let_def)
  moreover have "w_handles ?s = [client_stream\<lparr>stm_flag := NoFlag\<rparr>]" "w_chan ?s = client_chans []" "rtt_get (w_rtt ?s) = None"
    "cell 0 ?s = Some ?sh"
    by (simp_all add: client_after_def cell_def test_conn_def active_new_def rtt_new_def rtt_get_def sh)
  moreover have "stm_shared client_stream = 0" "stm_id client_stream = 1" "stm_window_update_sender client_stream = 1" "e_ch test_env = list_mux"
    by (simp_all add: client_stream_def test_env_def)
  ultimately show ?thesis
    using rdy by (simp add: waits_reader_def del: call_pends.simps One_nat_def)
qed

theorem reader_unblocks_writer_witness:
  "\<exists>(q :: (pipe, chans) party) s.
     handle_call (e_ch test_env) 0 (CallRead 5 0 0 16) (client_after client_shared' NoFlag []) = Some s
     \<and> 131072 \<le> may_send 1 (pt_conn q) + payload_due chans_queued 1 (pt_conn q) + credit_due chans_queued 1 s"
proof -
  obtain p q where d: "chat test_env test_env 1 (party_new (test_conn [])) (party_new test_server) p q"
    "streams_get 1 (pt_conn q) \<noteq> None" "pt_conn p = client_after client_shared' NoFlag []" "transit p q = []" "pt_sent q = []"
    using short_chat by blast
  have i: "idle_channels chans_queued chans_sound chans_count chans_lane no_channels"
    by (simp add: idle_channels_def no_channels_def chans_defs)
  have o: "own_id Client 1" "\<not> own_id Server 1"
    by (simp_all add: own_id_def is_client_def is_server_def)
  have "waits_reader test_env 1 0 (CallRead 5 0 0 16) (pt_conn p)" "transit q p = []"
    using client_waits by (simp_all add: d(3,5) transit_def)
  then obtain s where "handle_call (e_ch test_env) 0 (CallRead 5 0 0 16) (pt_conn p) = Some s"
    "131072 \<le> may_send 1 (pt_conn q) + payload_due chans_queued 1 (pt_conn q) + credit_due chans_queued 1 s"
    using reader_unblocks_writer [OF exact.exact_chat_axioms built_config.default built_config.default o i i
      d(1) [unfolded test_conn_def test_server_def] d(2), of 0 "CallRead 5 0 0 16"] d(4) by auto
  then show ?thesis
    unfolding d(3) by blast
qed

end
