(* ===== verification/Connection.thy ===== *)
theory Connection
  imports Closing_Run Frame_Handling
begin

text \<open>
  \<open>Connection<T>\<close> (\<^verbatim>\<open>yamux/src/connection.rs\<close>): the state machine around the active connection and
  the two futures that end it. A call takes the state out (\<open>mem::replace\<close> with \<open>Poisoned\<close>) and
  puts the next one back; a panic in between would leave \<open>Poisoned\<close> behind and is \<open>None\<close> here.
  \<open>Closed\<close> carries the world that is left to the stream handles. When a future has finished it is
  dropped, and with it the receivers of the command channels.
\<close>

datatype ('io, 'ch) connection_state =
  CActive "('io, 'ch) active"
| CClosing "('io, 'ch) closing"
| CCleanup "'ch cleanup"
| CClosed "'ch world"
| CPoisoned

record ('io, 'ch) connection =
  inner :: "('io, 'ch) connection_state"

definition connection_new ::
    "'io \<Rightarrow> 'ch \<Rightarrow> instant \<Rightarrow> config \<Rightarrow> mode \<Rightarrow> ('io, 'ch) connection" where
  "connection_new io ch now cfg mode = \<lparr>inner = CActive (active_new io ch now cfg mode)\<rparr>"

text \<open>What is left when a future that owns the receivers is dropped.\<close>

definition drop_receivers :: "('io, 'ch) env \<Rightarrow> ('ch, 'z) world_scheme \<Rightarrow> 'ch world" where
  "drop_receivers env s = (world.truncate s)\<lparr>w_chan := mx_drop_all (e_ch env) (w_chan s)\<rparr>"

subsection \<open>Operations\<close>

definition poll_new_outbound_step ::
    "('io, 'ch) env \<Rightarrow> waker \<Rightarrow> ('io, 'ch) connection \<Rightarrow>
       ((stream, connection_error) result poll, ('io, 'ch) connection) flow run" where
  "poll_new_outbound_step env cx c =
     (case inner c of
        CActive a \<Rightarrow> do {
          (r, a) \<leftarrow> active_poll_new_outbound env cx a;
          (case r of
             Ready (Ok st) \<Rightarrow> Some (Return (Ready (Ok st)) (c\<lparr>inner := CActive a\<rparr>))
           | Pending \<Rightarrow> Some (Return Pending (c\<lparr>inner := CActive a\<rparr>))
           | Ready (Err e) \<Rightarrow> do { cu \<leftarrow> active_cleanup a e; Some (Continue (c\<lparr>inner := CCleanup cu\<rparr>)) }) }
      | CClosing cl \<Rightarrow> do {
          (r, cl) \<leftarrow> closing_poll env cx cl;
          Some (case r of
             Ready (Ok _) \<Rightarrow> Return (Ready (Err Closed_Error)) (c\<lparr>inner := CClosed (drop_receivers env cl)\<rparr>)
           | Ready (Err e) \<Rightarrow> Return (Ready (Err e)) (c\<lparr>inner := CClosed (drop_receivers env cl)\<rparr>)
           | Pending \<Rightarrow> Return Pending (c\<lparr>inner := CClosing cl\<rparr>)) }
      | CCleanup cu \<Rightarrow> do {
          (r, cu) \<leftarrow> cleanup_poll env cx cu;
          Some (case r of
             Ready e \<Rightarrow> Return (Ready (Err e)) (c\<lparr>inner := CClosed (drop_receivers env cu)\<rparr>)
           | Pending \<Rightarrow> Return Pending (c\<lparr>inner := CCleanup cu\<rparr>)) }
      | CClosed w \<Rightarrow> Some (Return (Ready (Err Closed_Error)) (c\<lparr>inner := CClosed w\<rparr>))
      | CPoisoned \<Rightarrow> None)"

definition poll_new_outbound ::
    "('io, 'ch) env \<Rightarrow> waker \<Rightarrow> ('io, 'ch) connection \<Rightarrow>
       ((stream, connection_error) result poll \<times> ('io, 'ch) connection) run" where
  "poll_new_outbound env cx = run_loop (poll_new_outbound_step env cx)"

definition poll_next_inbound_step ::
    "('io, 'ch) env \<Rightarrow> waker \<Rightarrow> ('io, 'ch) connection \<Rightarrow>
       ((stream, connection_error) result option poll, ('io, 'ch) connection) flow run" where
  "poll_next_inbound_step env cx c =
     (case inner c of
        CActive a \<Rightarrow> do {
          (r, a) \<leftarrow> active_poll env cx a;
          (case r of
             Ready (Ok st) \<Rightarrow> Some (Return (Ready (Some (Ok st))) (c\<lparr>inner := CActive a\<rparr>))
           | Ready (Err e) \<Rightarrow> do { cu \<leftarrow> active_cleanup a e; Some (Continue (c\<lparr>inner := CCleanup cu\<rparr>)) }
           | Pending \<Rightarrow> Some (Return Pending (c\<lparr>inner := CActive a\<rparr>))) }
      | CClosing cl \<Rightarrow> do {
          (r, cl) \<leftarrow> closing_poll env cx cl;
          Some (case r of
             Ready (Ok _) \<Rightarrow> Return (Ready None) (c\<lparr>inner := CClosed (drop_receivers env cl)\<rparr>)
           | Ready (Err e) \<Rightarrow> Return (Ready (Some (Err e))) (c\<lparr>inner := CClosed (drop_receivers env cl)\<rparr>)
           | Pending \<Rightarrow> Return Pending (c\<lparr>inner := CClosing cl\<rparr>)) }
      | CCleanup cu \<Rightarrow> do {
          (r, cu) \<leftarrow> cleanup_poll env cx cu;
          Some (case r of
             Ready Closed_Error \<Rightarrow> Return (Ready None) (c\<lparr>inner := CClosed (drop_receivers env cu)\<rparr>)
           | Ready e \<Rightarrow> Return (Ready (Some (Err e))) (c\<lparr>inner := CClosed (drop_receivers env cu)\<rparr>)
           | Pending \<Rightarrow> Return Pending (c\<lparr>inner := CCleanup cu\<rparr>)) }
      | CClosed w \<Rightarrow> Some (Return (Ready None) (c\<lparr>inner := CClosed w\<rparr>))
      | CPoisoned \<Rightarrow> None)"

definition poll_next_inbound ::
    "('io, 'ch) env \<Rightarrow> waker \<Rightarrow> ('io, 'ch) connection \<Rightarrow>
       ((stream, connection_error) result option poll \<times> ('io, 'ch) connection) run" where
  "poll_next_inbound env cx = run_loop (poll_next_inbound_step env cx)"

definition poll_close_step ::
    "('io, 'ch) env \<Rightarrow> waker \<Rightarrow> ('io, 'ch) connection \<Rightarrow>
       ((unit, connection_error) result poll, ('io, 'ch) connection) flow run" where
  "poll_close_step env cx c =
     (case inner c of
        CActive a \<Rightarrow> do { cl \<leftarrow> active_close a; Some (Continue (c\<lparr>inner := CClosing cl\<rparr>)) }
      | CClosing cl \<Rightarrow> do {
          (r, cl) \<leftarrow> closing_poll env cx cl;
          Some (case r of
             Ready (Ok _) \<Rightarrow> Continue (c\<lparr>inner := CClosed (drop_receivers env cl)\<rparr>)
           | Ready (Err e) \<Rightarrow> Return (Ready (Err e)) (c\<lparr>inner := CClosed (drop_receivers env cl)\<rparr>)
           | Pending \<Rightarrow> Return Pending (c\<lparr>inner := CClosing cl\<rparr>)) }
      | CCleanup cu \<Rightarrow> do {
          (r, cu) \<leftarrow> cleanup_poll env cx cu;
          Some (case r of
             Ready e \<Rightarrow> Return (Ready (Ok ())) (c\<lparr>inner := CClosed (drop_receivers env cu)\<rparr>)
           | Pending \<Rightarrow> Return Pending (c\<lparr>inner := CCleanup cu\<rparr>)) }
      | CClosed w \<Rightarrow> Some (Return (Ready (Ok ())) (c\<lparr>inner := CClosed w\<rparr>))
      | CPoisoned \<Rightarrow> None)"

definition poll_close ::
    "('io, 'ch) env \<Rightarrow> waker \<Rightarrow> ('io, 'ch) connection \<Rightarrow>
       ((unit, connection_error) result poll \<times> ('io, 'ch) connection) run" where
  "poll_close env cx = run_loop (poll_close_step env cx)"

text \<open>
  \<open>Drop for Connection\<close>, and the drop of its fields: the world the remaining handles are left in.
  A poisoned connection has none.
\<close>

definition connection_drop :: "('io, 'ch) env \<Rightarrow> ('io, 'ch) connection \<Rightarrow> 'ch world option run" where
  "connection_drop env c =
     (case inner c of
        CActive a \<Rightarrow> do { a \<leftarrow> drop_all_streams a; Some (Some (drop_receivers env a)) }
      | CClosing cl \<Rightarrow> Some (Some (drop_receivers env cl))
      | CCleanup cu \<Rightarrow> Some (Some (drop_receivers env cu))
      | CClosed w \<Rightarrow> Some (Some w)
      | CPoisoned \<Rightarrow> Some None)"

text \<open>A call on the \<open>i\<close>-th stream handle, and its drop, whatever state the connection is in.\<close>

definition conn_handle_call ::
    "('io, 'ch) env \<Rightarrow> nat \<Rightarrow> stream_call \<Rightarrow> ('io, 'ch) connection \<Rightarrow> ('io, 'ch) connection run" where
  "conn_handle_call env i call c =
     (case inner c of
        CActive a \<Rightarrow> do { a \<leftarrow> handle_call (e_ch env) i call a; Some (c\<lparr>inner := CActive a\<rparr>) }
      | CClosing cl \<Rightarrow> do { cl \<leftarrow> handle_call (e_ch env) i call cl; Some (c\<lparr>inner := CClosing cl\<rparr>) }
      | CCleanup cu \<Rightarrow> do { cu \<leftarrow> handle_call (e_ch env) i call cu; Some (c\<lparr>inner := CCleanup cu\<rparr>) }
      | CClosed w \<Rightarrow> do { w \<leftarrow> handle_call (e_ch env) i call w; Some (c\<lparr>inner := CClosed w\<rparr>) }
      | CPoisoned \<Rightarrow> None)"

definition conn_drop_handle ::
    "('io, 'ch) env \<Rightarrow> nat \<Rightarrow> ('io, 'ch) connection \<Rightarrow> ('io, 'ch) connection run" where
  "conn_drop_handle env i c =
     (case inner c of
        CActive a \<Rightarrow> do { a \<leftarrow> drop_handle (e_ch env) (held a) i a; Some (c\<lparr>inner := CActive a\<rparr>) }
      | CClosing cl \<Rightarrow> do { cl \<leftarrow> drop_handle (e_ch env) [] i cl; Some (c\<lparr>inner := CClosing cl\<rparr>) }
      | CCleanup cu \<Rightarrow> do { cu \<leftarrow> drop_handle (e_ch env) [] i cu; Some (c\<lparr>inner := CCleanup cu\<rparr>) }
      | CClosed w \<Rightarrow> do { w \<leftarrow> drop_handle (e_ch env) [] i w; Some (c\<lparr>inner := CClosed w\<rparr>) }
      | CPoisoned \<Rightarrow> None)"

fun conn_handles :: "('io, 'ch) connection_state \<Rightarrow> stream list" where
  "conn_handles (CActive a) = w_handles a"
| "conn_handles (CClosing cl) = w_handles cl"
| "conn_handles (CCleanup cu) = w_handles cu"
| "conn_handles (CClosed w) = w_handles w"
| "conn_handles CPoisoned = []"

subsection \<open>Invariant\<close>

fun conn_ok :: "config \<Rightarrow> ('ch \<Rightarrow> stream_command multiset) \<Rightarrow> ('io, 'ch) connection_state \<Rightarrow> bool" where
  "conn_ok cfg queued (CActive a) \<longleftrightarrow> active_ok queued a \<and> a_config a = cfg"
| "conn_ok cfg queued (CClosing cl) \<longleftrightarrow> closing_ok cfg queued cl"
| "conn_ok cfg queued (CCleanup cu) \<longleftrightarrow> cleanup_ok cfg cu"
| "conn_ok cfg queued (CClosed w) \<longleftrightarrow> world_ok cfg [] w"
| "conn_ok cfg queued CPoisoned \<longleftrightarrow> False"

fun at_rest :: "('io, 'ch) connection_state \<Rightarrow> bool" where
  "at_rest (CCleanup _) \<longleftrightarrow> False"
| "at_rest CPoisoned \<longleftrightarrow> False"
| "at_rest _ \<longleftrightarrow> True"

lemma world_ok_drop_receivers [simp]: "world_ok cfg as (drop_receivers env s) = world_ok cfg as s"
  by (simp add: drop_receivers_def)

lemma drop_receivers_fields [simp]:
  "w_handles (drop_receivers env s) = w_handles s" "w_woken (drop_receivers env s) = w_woken s"
  "cell a (drop_receivers env s) = cell a s"
  by (simp_all add: drop_receivers_def world.defs cell_def)

lemma same_world_handles: "same_world s t \<Longrightarrow> w_handles t = w_handles s"
  by (simp add: same_world_def world.defs)

lemma closing_poll_error:
  assumes "closing_poll env cx s = Some (r, t)"
  shows "\<forall>e. r = Ready (Err e) \<longrightarrow> (\<exists>i. e = ConnIo i)"
  by (rule run_loop_rule [where I = "\<lambda>_. True", OF assms [unfolded closing_poll_def]])
    (auto simp: closing_step_def bind_eq_Some_conv Let_def
      split: closing_state.splits poll.splits result.splits list.splits,
      (metis (full_types) old.unit.exhaust poll.exhaust result.exhaust)+)

lemma run_loop_returns:
  "body s = Some (Return r t) \<Longrightarrow> P r t \<Longrightarrow> \<exists>r t. run_loop body s = Some (r, t) \<and> P r t"
  by (simp add: run_loop_Return)

subsection \<open>The life of a connection, abstractly\<close>

datatype life = LActive | LClosing | LClosed

datatype conn_event =
  Outbound "(stream, connection_error) result poll"
| Inbound "(stream, connection_error) result option poll"
| Closing_Call "(unit, connection_error) result poll"
| Handle_Call

fun phase :: "('io, 'ch) connection_state \<Rightarrow> life" where
  "phase (CActive _) = LActive"
| "phase (CClosing _) = LClosing"
| "phase _ = LClosed"

text \<open>What a call may return in each phase of the life, and the phase after it.\<close>

inductive life_step :: "life \<Rightarrow> conn_event \<Rightarrow> life \<Rightarrow> bool" where
  opened: "life_step LActive (Outbound (Ready (Ok st))) LActive"
| backlog: "life_step LActive (Outbound Pending) LActive"
| refused: "e = TooManyStreams \<or> e = NoMoreStreamIds \<Longrightarrow> life_step LActive (Outbound (Ready (Err e))) LClosed"
| accepted: "life_step LActive (Inbound (Ready (Some (Ok st)))) LActive"
| idle: "life_step LActive (Inbound Pending) LActive"
| failed: "e \<noteq> Closed_Error \<Longrightarrow> life_step LActive (Inbound (Ready (Some (Err e)))) LClosed"
| ended: "life_step LActive (Inbound (Ready None)) LClosed"
| close_waits: "l \<noteq> LClosed \<Longrightarrow> life_step l (Closing_Call Pending) LClosing"
| close_done: "life_step l (Closing_Call (Ready (Ok ()))) LClosed"
| close_failed: "l \<noteq> LClosed \<Longrightarrow> life_step l (Closing_Call (Ready (Err (ConnIo i)))) LClosed"
| closing_waits: "ev = Outbound Pending \<or> ev = Inbound Pending \<Longrightarrow> life_step LClosing ev LClosing"
| closing_done: "ev = Outbound (Ready (Err Closed_Error)) \<or> ev = Inbound (Ready None) \<Longrightarrow> life_step LClosing ev LClosed"
| closing_failed: "ev = Outbound (Ready (Err (ConnIo i))) \<or> ev = Inbound (Ready (Some (Err (ConnIo i)))) \<Longrightarrow>
    life_step LClosing ev LClosed"
| closed: "ev = Outbound (Ready (Err Closed_Error)) \<or> ev = Inbound (Ready None) \<Longrightarrow> life_step LClosed ev LClosed"
| handle: "life_step l Handle_Call l"

inductive_cases closed_step: "life_step LClosed ev l"

context duplex_env
begin

abbreviation ok_conn :: "config \<Rightarrow> ('a, 'b) connection \<Rightarrow> bool" where
  "ok_conn cfg c \<equiv> conn_ok cfg queued (inner c)"

text \<open>The part of a call that the three operations share: what the two futures do.\<close>

lemma closing_call:
  assumes "conn_ok cfg queued (CClosing cl)"
  shows "\<exists>r t. closing_poll env cx cl = Some (r, t) \<and> closing_ok cfg queued t \<and> world_ok cfg [] t
    \<and> (\<forall>e. r = Ready (Err e) \<longrightarrow> (\<exists>i. e = ConnIo i))"
proof -
  obtain r t where t: "closing_poll env cx cl = Some (r, t)" "closing_ok cfg queued t"
    using closing_poll_ok [of cfg cl cx] assms by auto
  with closing_poll_error [OF t(1)] show ?thesis
    by (simp add: closing_ok_def)
qed

lemma cleanup_call:
  assumes "conn_ok cfg queued (CCleanup cu)"
  shows "\<exists>e t. cu_error cu = Some e \<and> cleanup_poll env cx cu = Some (Ready e, t) \<and> world_ok cfg [] t"
  using cleanup_poll_ok [of cfg cu cx] assms by (auto simp: cleanup_ok_def)

lemma cleanup_entered:
  assumes "active_ok queued a" and "a_config a = cfg"
  shows "\<exists>cu. active_cleanup a e = Some cu \<and> cleanup_ok cfg cu \<and> cu_error cu = Some e"
  using active_cleanup_ok [of a e] assms by (auto simp: active_ok_def)

lemma poll_new_outbound_from_cleanup:
  assumes "inner c = CCleanup cu" and "cleanup_ok cfg cu" and "cu_error cu = Some e"
  shows "\<exists>w. poll_new_outbound env cx c = Some (Ready (Err e), c\<lparr>inner := CClosed w\<rparr>) \<and> world_ok cfg [] w"
proof -
  obtain t where t: "cleanup_poll env cx cu = Some (Ready e, t)" "world_ok cfg [] t"
    using cleanup_call [of cfg cu cx] assms by auto
  then have "poll_new_outbound_step env cx c = Some (Return (Ready (Err e)) (c\<lparr>inner := CClosed (drop_receivers env t)\<rparr>))"
    using assms(1) by (simp add: poll_new_outbound_step_def)
  with t(2) show ?thesis
    by (auto simp: poll_new_outbound_def run_loop_Return)
qed

lemma poll_next_inbound_from_cleanup:
  assumes "inner c = CCleanup cu" and "cleanup_ok cfg cu" and "cu_error cu = Some e"
  shows "\<exists>w. poll_next_inbound env cx c
      = Some (Ready (if e = Closed_Error then None else Some (Err e)), c\<lparr>inner := CClosed w\<rparr>) \<and> world_ok cfg [] w"
proof -
  obtain t where t: "cleanup_poll env cx cu = Some (Ready e, t)" "world_ok cfg [] t"
    using cleanup_call [of cfg cu cx] assms by auto
  then have "poll_next_inbound_step env cx c = Some (Return (Ready (if e = Closed_Error then None else Some (Err e)))
      (c\<lparr>inner := CClosed (drop_receivers env t)\<rparr>))"
    using assms(1) by (simp add: poll_next_inbound_step_def split: connection_error.splits)
  with t(2) show ?thesis
    by (auto simp: poll_next_inbound_def run_loop_Return)
qed

lemma poll_new_outbound_total:
  assumes "ok_conn cfg c" and "at_rest (inner c)"
  shows "\<exists>r c'. poll_new_outbound env cx c = Some (r, c') \<and> ok_conn cfg c' \<and> at_rest (inner c')
    \<and> life_step (phase (inner c)) (Outbound r) (phase (inner c'))"
proof (cases "inner c")
  case (CActive a)
  then have a: "active_ok queued a" "a_config a = cfg" "core_ok a"
    using assms(1) by (auto simp: active_ok_def)
  from poll_new_outbound_ok [OF a(3), of cx] obtain r a' where
    a': "active_poll_new_outbound env cx a = Some (r, a')" "handles a a'" "outbound_ok cx a r a'"
    by blast
  have ok': "active_ok queued a'" "a_config a' = cfg"
    using ok_handles [OF a(1) a'(2)] handles_conf [OF a'(2)] a(2) by (auto simp: same_conf_def)
  consider "r = Pending" | st where "r = Ready (Ok st)" | e where "r = Ready (Err e)"
    by (metis poll.exhaust result.exhaust)
  then show ?thesis
  proof cases
    case 1
    then show ?thesis
      unfolding poll_new_outbound_def using a'(1) ok' CActive
      by (intro run_loop_returns [where r = Pending and t = "c\<lparr>inner := CActive a'\<rparr>"])
        (auto simp: poll_new_outbound_step_def intro: life_step.intros)
  next
    case (2 st)
    then show ?thesis
      unfolding poll_new_outbound_def using a'(1) ok' CActive
      by (intro run_loop_returns [where r = "Ready (Ok st)" and t = "c\<lparr>inner := CActive a'\<rparr>"])
        (auto simp: poll_new_outbound_step_def intro: life_step.intros)
  next
    case r: (3 e)
    with a'(3) have e: "e = TooManyStreams \<or> e = NoMoreStreamIds"
      by (auto simp: outbound_ok_def)
    obtain cu where cu: "active_cleanup a' e = Some cu" "cleanup_ok cfg cu" "cu_error cu = Some e"
      using cleanup_entered [OF ok'] by blast
    have step: "poll_new_outbound env cx c = poll_new_outbound env cx (c\<lparr>inner := CCleanup cu\<rparr>)"
      unfolding poll_new_outbound_def
      by (rule run_loop_Continue) (use CActive a'(1) r cu(1) in \<open>simp add: poll_new_outbound_step_def\<close>)
    have "inner (c\<lparr>inner := CCleanup cu\<rparr>) = CCleanup cu"
      by simp
    from poll_new_outbound_from_cleanup [OF this cu(2,3), of cx] step e CActive show ?thesis
      by (auto intro: life_step.intros)
  qed
next
  case (CClosing cl)
  obtain r t where t: "closing_poll env cx cl = Some (r, t)" "closing_ok cfg queued t" "world_ok cfg [] t"
    "\<forall>e. r = Ready (Err e) \<longrightarrow> (\<exists>i. e = ConnIo i)"
    using closing_call [of cfg cl cx] assms(1) CClosing by auto
  then obtain r' c' where "poll_new_outbound_step env cx c = Some (Return r' c')"
    "ok_conn cfg c' \<and> at_rest (inner c') \<and> life_step LClosing (Outbound r') (phase (inner c'))"
    using CClosing
    by (cases r; cases "case r of Ready x \<Rightarrow> x | _ \<Rightarrow> undefined")
      (auto simp: poll_new_outbound_step_def intro: life_step.intros)
  then show ?thesis
    unfolding poll_new_outbound_def CClosing by (simp add: run_loop_returns)
next
  case (CClosed w)
  then show ?thesis
    unfolding poll_new_outbound_def using assms(1)
    by (intro run_loop_returns [where r = "Ready (Err Closed_Error)" and t = c])
      (auto simp: poll_new_outbound_step_def intro: life_step.intros)
qed (use assms in auto)

lemma poll_next_inbound_total:
  assumes "ok_conn cfg c" and "at_rest (inner c)"
  shows "\<exists>r c'. poll_next_inbound env cx c = Some (r, c') \<and> ok_conn cfg c' \<and> at_rest (inner c')
    \<and> life_step (phase (inner c)) (Inbound r) (phase (inner c'))"
proof (cases "inner c")
  case (CActive a)
  then have a: "active_ok queued a" "a_config a = cfg"
    using assms(1) by auto
  from active_poll_ok [OF a(1), of cx] obtain r a' where
    a': "active_poll env cx a = Some (r, a')" "active_ok queued a'" "same_conf a a'"
    by blast
  have cfg: "a_config a' = cfg"
    using a'(3) a(2) by (simp add: same_conf_def)
  consider "r = Pending" | st where "r = Ready (Ok st)" | e where "r = Ready (Err e)"
    by (metis poll.exhaust result.exhaust)
  then show ?thesis
  proof cases
    case 1
    then show ?thesis
      unfolding poll_next_inbound_def using a' cfg CActive
      by (intro run_loop_returns [where r = Pending and t = "c\<lparr>inner := CActive a'\<rparr>"])
        (auto simp: poll_next_inbound_step_def intro: life_step.intros)
  next
    case (2 st)
    then show ?thesis
      unfolding poll_next_inbound_def using a' cfg CActive
      by (intro run_loop_returns [where r = "Ready (Some (Ok st))" and t = "c\<lparr>inner := CActive a'\<rparr>"])
        (auto simp: poll_next_inbound_step_def intro: life_step.intros)
  next
    case r: (3 e)
    obtain cu where cu: "active_cleanup a' e = Some cu" "cleanup_ok cfg cu" "cu_error cu = Some e"
      using cleanup_entered [OF a'(2) cfg] by blast
    have step: "poll_next_inbound env cx c = poll_next_inbound env cx (c\<lparr>inner := CCleanup cu\<rparr>)"
      unfolding poll_next_inbound_def
      by (rule run_loop_Continue) (use CActive a'(1) r cu(1) in \<open>simp add: poll_next_inbound_step_def\<close>)
    have "inner (c\<lparr>inner := CCleanup cu\<rparr>) = CCleanup cu"
      by simp
    from poll_next_inbound_from_cleanup [OF this cu(2,3), of cx] step CActive show ?thesis
      by (auto intro: life_step.intros)
  qed
next
  case (CClosing cl)
  obtain r t where t: "closing_poll env cx cl = Some (r, t)" "closing_ok cfg queued t" "world_ok cfg [] t"
    "\<forall>e. r = Ready (Err e) \<longrightarrow> (\<exists>i. e = ConnIo i)"
    using closing_call [of cfg cl cx] assms(1) CClosing by auto
  then obtain r' c' where "poll_next_inbound_step env cx c = Some (Return r' c')"
    "ok_conn cfg c' \<and> at_rest (inner c') \<and> life_step LClosing (Inbound r') (phase (inner c'))"
    using CClosing
    by (cases r; cases "case r of Ready x \<Rightarrow> x | _ \<Rightarrow> undefined")
      (auto simp: poll_next_inbound_step_def intro: life_step.intros)
  then show ?thesis
    unfolding poll_next_inbound_def CClosing by (simp add: run_loop_returns)
next
  case (CClosed w)
  then show ?thesis
    unfolding poll_next_inbound_def using assms(1)
    by (intro run_loop_returns [where r = "Ready None" and t = c])
      (auto simp: poll_next_inbound_step_def intro: life_step.intros)
qed (use assms in auto)

text \<open>\<open>poll_close\<close> of a closed connection, and of one whose closing future exists.\<close>

lemma poll_close_closed: "inner c = CClosed w \<Longrightarrow> poll_close env cx c = Some (Ready (Ok ()), c)"
  unfolding poll_close_def by (rule run_loop_Return) (simp add: poll_close_step_def)

lemma poll_close_closing:
  assumes "inner c = CClosing cl" and "closing_ok cfg queued cl" and "l \<noteq> LClosed"
  shows "\<exists>r c'. poll_close env cx c = Some (r, c') \<and> ok_conn cfg c' \<and> at_rest (inner c')
    \<and> life_step l (Closing_Call r) (phase (inner c'))"
proof -
  obtain r t where t: "closing_poll env cx cl = Some (r, t)" "closing_ok cfg queued t" "world_ok cfg [] t"
    "\<forall>e. r = Ready (Err e) \<longrightarrow> (\<exists>i. e = ConnIo i)"
    using closing_call [of cfg cl cx] assms by auto
  consider "r = Pending" | "r = Ready (Ok ())" | i where "r = Ready (Err (ConnIo i))"
  proof (cases r)
    case (Ready x)
    with t(4) that show ?thesis by (cases x) auto
  qed (use that in simp)
  then show ?thesis
  proof cases
    case 1
    then show ?thesis
      unfolding poll_close_def using t assms(1,3)
      by (intro run_loop_returns [where r = Pending and t = "c\<lparr>inner := CClosing t\<rparr>"])
        (auto simp: poll_close_step_def intro: life_step.intros)
  next
    case 2
    let ?c = "c\<lparr>inner := CClosed (drop_receivers env t)\<rparr>"
    have "poll_close env cx c = poll_close env cx ?c"
      unfolding poll_close_def
      by (rule run_loop_Continue) (use t(1) 2 assms(1) in \<open>simp add: poll_close_step_def\<close>)
    with poll_close_closed [of ?c] t(3) show ?thesis
      by (auto intro: life_step.intros)
  next
    case (3 i)
    then show ?thesis
      unfolding poll_close_def using t assms(1,3)
      by (intro run_loop_returns [where r = "Ready (Err (ConnIo i))" and t = "c\<lparr>inner := CClosed (drop_receivers env t)\<rparr>"])
        (auto simp: poll_close_step_def intro: life_step.intros)
  qed
qed

lemma conn_poll_close_total:
  assumes "ok_conn cfg c" and "at_rest (inner c)"
  shows "\<exists>r c'. poll_close env cx c = Some (r, c') \<and> ok_conn cfg c' \<and> at_rest (inner c')
    \<and> life_step (phase (inner c)) (Closing_Call r) (phase (inner c'))"
proof (cases "inner c")
  case (CActive a)
  then have "active_ok queued a" "a_config a = cfg"
    using assms(1) by auto
  with active_close_ok [of queued a] obtain cl where cl: "active_close a = Some cl" "closing_ok cfg queued cl"
    by blast
  let ?c = "c\<lparr>inner := CClosing cl\<rparr>"
  have "poll_close env cx c = poll_close env cx ?c"
    unfolding poll_close_def
    by (rule run_loop_Continue) (use CActive cl(1) in \<open>simp add: poll_close_step_def\<close>)
  with poll_close_closing [of ?c cl cfg LActive cx] cl(2) CActive show ?thesis
    by simp
next
  case (CClosing cl)
  with poll_close_closing [of c cl cfg LClosing cx] assms(1) show ?thesis
    by simp
next
  case (CClosed w)
  with poll_close_closed [OF CClosed, of cx] assms(1) show ?thesis
    by (auto intro: life_step.intros)
qed (use assms in auto)

lemma handle_call_closing:
  assumes "closing_ok cfg queued cl" and "i < length (w_handles cl)" and "call_ok call"
  shows "\<exists>t. handle_call (e_ch env) i call cl = Some t \<and> closing_ok cfg queued t"
proof -
  obtain t where t: "handle_call (e_ch env) i call cl = Some t" "world_ok cfg [] t"
    using handle_call_ok [of cfg "[]" cl i call "e_ch env"] assms by (auto simp: closing_ok_def)
  from t(1) obtain sh x where "run_call (e_ch env) (rtt_get (w_rtt cl)) call (handle_ctx (w_handles cl ! i) sh cl) = Some x"
    and f: "w_chan t = cx_chan x" "cl_socket t = cl_socket cl" "cl_pending_frames t = cl_pending_frames cl"
    by (auto simp: handle_call_def put_cell_def Let_def bind_eq_Some_conv)
  with mux.run_call_adds_ok have "mux.adds_ok (w_chan cl) (w_chan t)"
    by (fastforce simp: handle_ctx_def)
  with t f assms(1) show ?thesis
    by (auto simp: closing_ok_def mux.adds_ok_def)
qed

lemma drop_handle_closing:
  assumes "closing_ok cfg queued cl" and "i < length (w_handles cl)"
  shows "\<exists>t. drop_handle (e_ch env) [] i cl = Some t \<and> closing_ok cfg queued t"
proof -
  obtain t where t: "drop_handle (e_ch env) [] i cl = Some t" "world_ok cfg [] t"
    using drop_handle_ok [of cfg "[]" cl i "e_ch env"] assms by (auto simp: closing_ok_def)
  then have "queued (w_chan t) = queued (w_chan cl)" "cl_socket t = cl_socket cl"
    "cl_pending_frames t = cl_pending_frames cl"
    by (auto simp: drop_handle_def arc_drop_def Let_def mux.drop_queued bind_eq_Some_conv split: if_splits)
  with t assms(1) show ?thesis
    by (auto simp: closing_ok_def)
qed

lemma conn_handle_total:
  assumes "ok_conn cfg c" and "at_rest (inner c)" and "i < length (conn_handles (inner c))" and "call_ok call"
  shows "\<exists>c'. conn_handle_call env i call c = Some c' \<and> ok_conn cfg c' \<and> at_rest (inner c')
    \<and> phase (inner c') = phase (inner c)"
proof (cases "inner c")
  case (CActive a)
  with assms handle_call_active_ok [of a i call] handle_call_fields [of "e_ch env" i call a] show ?thesis
    by (fastforce simp: conn_handle_call_def same_io_def)
next
  case (CClosing cl)
  with assms handle_call_closing [of cfg cl i call] show ?thesis
    by (fastforce simp: conn_handle_call_def)
next
  case (CClosed w)
  with assms handle_call_ok [of cfg "[]" w i call "e_ch env"] show ?thesis
    by (fastforce simp: conn_handle_call_def)
qed (use assms in auto)

lemma conn_drop_handle_total:
  assumes "ok_conn cfg c" and "at_rest (inner c)" and "i < length (conn_handles (inner c))"
  shows "\<exists>c'. conn_drop_handle env i c = Some c' \<and> ok_conn cfg c' \<and> at_rest (inner c')
    \<and> phase (inner c') = phase (inner c)"
proof (cases "inner c")
  case (CActive a)
  with assms drop_handle_active_ok [of a i] drop_handle_fields [of "e_ch env" "held a" i a] show ?thesis
    by (fastforce simp: conn_drop_handle_def same_io_def)
next
  case (CClosing cl)
  with assms drop_handle_closing [of cfg cl i] show ?thesis
    by (fastforce simp: conn_drop_handle_def)
next
  case (CClosed w)
  with assms drop_handle_ok [of cfg "[]" w i "e_ch env"] show ?thesis
    by (fastforce simp: conn_drop_handle_def)
qed (use assms in auto)

end

end
