(* ===== verification/Connection_Life.thy ===== *)
theory Connection_Life
  imports Connection
begin

text \<open>
  Whole runs of a connection: every sequence of calls on it and on its stream handles, against the
  abstract life of a connection.
\<close>

inductive conn_run ::
    "('io, 'ch) env \<Rightarrow> ('io, 'ch) connection \<Rightarrow> conn_event list \<Rightarrow> ('io, 'ch) connection \<Rightarrow> bool"
  for env c0 where
  start: "conn_run env c0 [] c0"
| outbound: "conn_run env c0 evs c \<Longrightarrow> poll_new_outbound env cx c = Some (r, c') \<Longrightarrow>
    conn_run env c0 (evs @ [Outbound r]) c'"
| inbound: "conn_run env c0 evs c \<Longrightarrow> poll_next_inbound env cx c = Some (r, c') \<Longrightarrow>
    conn_run env c0 (evs @ [Inbound r]) c'"
| close: "conn_run env c0 evs c \<Longrightarrow> poll_close env cx c = Some (r, c') \<Longrightarrow>
    conn_run env c0 (evs @ [Closing_Call r]) c'"
| call: "conn_run env c0 evs c \<Longrightarrow> i < length (conn_handles (inner c)) \<Longrightarrow> call_ok call \<Longrightarrow>
    conn_handle_call env i call c = Some c' \<Longrightarrow> conn_run env c0 (evs @ [Handle_Call]) c'"
| drop: "conn_run env c0 evs c \<Longrightarrow> i < length (conn_handles (inner c)) \<Longrightarrow>
    conn_drop_handle env i c = Some c' \<Longrightarrow> conn_run env c0 (evs @ [Handle_Call]) c'"

inductive life_run :: "life \<Rightarrow> conn_event list \<Rightarrow> life \<Rightarrow> bool" for l0 where
  start: "life_run l0 [] l0"
| step: "life_run l0 evs l \<Longrightarrow> life_step l ev l' \<Longrightarrow> life_run l0 (evs @ [ev]) l'"

lemma life_run_append:
  "life_run l0 (evs @ evs') l \<Longrightarrow> \<exists>l1. life_run l0 evs l1 \<and> life_run l1 evs' l"
proof (induction evs' arbitrary: l rule: rev_induct)
  case Nil
  then show ?case by (auto intro: life_run.start)
next
  case (snoc ev evs')
  from snoc.prems obtain l1 where "life_run l0 (evs @ evs') l1" "life_step l1 ev l"
    by (cases rule: life_run.cases) (simp_all add: append_assoc [symmetric] del: append_assoc)
  with snoc.IH show ?case
    by (blast intro: life_run.step)
qed

text \<open>What a closed connection answers.\<close>

definition closed_answer :: "conn_event \<Rightarrow> bool" where
  "closed_answer ev \<longleftrightarrow> ev \<in> {Outbound (Ready (Err Closed_Error)), Inbound (Ready None),
     Closing_Call (Ready (Ok ())), Handle_Call}"

text \<open>The answers that end a connection.\<close>

definition final_answer :: "conn_event \<Rightarrow> bool" where
  "final_answer ev \<longleftrightarrow> (case ev of
     Outbound (Ready (Err _)) \<Rightarrow> True
   | Inbound (Ready None) \<Rightarrow> True
   | Inbound (Ready (Some (Err _))) \<Rightarrow> True
   | Closing_Call (Ready _) \<Rightarrow> True
   | _ \<Rightarrow> False)"

lemma life_closed:
  assumes "life_run LClosed evs l"
  shows "l = LClosed \<and> (\<forall>ev \<in> set evs. closed_answer ev)"
  using assms
  by (induction rule: life_run.induct) (auto elim!: closed_step simp: closed_answer_def)

lemma final_closes: "life_step l ev l' \<Longrightarrow> final_answer ev \<Longrightarrow> l' = LClosed"
  by (induction rule: life_step.induct) (auto simp: final_answer_def)

context duplex_env
begin

lemma conn_run_ok:
  assumes "conn_run env c0 evs c" and "ok_conn cfg c0" and "at_rest (inner c0)"
  shows "ok_conn cfg c \<and> at_rest (inner c) \<and> life_run (phase (inner c0)) evs (phase (inner c))"
  using assms
proof (induction rule: conn_run.induct)
  case start
  then show ?case by (simp add: life_run.start)
next
  case (outbound evs c cx r c')
  with poll_new_outbound_total [of cfg c cx] show ?case by (auto intro: life_run.step)
next
  case (inbound evs c cx r c')
  with poll_next_inbound_total [of cfg c cx] show ?case by (auto intro: life_run.step)
next
  case (close evs c cx r c')
  with conn_poll_close_total [of cfg c cx] show ?case by (auto intro: life_run.step)
next
  case (call evs c i call c')
  with conn_handle_total [of cfg c i call] show ?case
    by (auto intro: life_run.step life_step.handle)
next
  case (drop evs c i c')
  with conn_drop_handle_total [of cfg c i] show ?case
    by (auto intro: life_run.step life_step.handle)
qed

end

lemma new_conn_run:
  assumes "duplex_env env out inp queued ends" and "built_config cfg" and "queued ch = {#}"
    and "conn_run env (connection_new io ch now cfg mode) evs c"
  shows "conn_ok cfg queued (inner c) \<and> at_rest (inner c) \<and> life_run LActive evs (phase (inner c))"
proof -
  have "active_ok queued (active_new io ch now cfg mode)"
    using config_ok_built [OF assms(2)] assms(3) by (rule active_new_ok)
  then have "conn_ok cfg queued (inner (connection_new io ch now cfg mode))"
    by (simp add: connection_new_def) (simp add: active_new_def)
  from duplex_env.conn_run_ok [OF assms(1,4) this] show ?thesis
    by (simp add: connection_new_def)
qed

subsection \<open>Properties\<close>

text \<open>
  C6: A connection refines the abstract life: active, then closing or failed, then closed for good.
  Along every sequence of calls on a new connection and its handles, in any order and with any
  transport, every call returns (no panic, no endless loop, the \<open>unreachable!\<close> of the poisoned state
  is not reached), and what it returns and the phase it leaves are those \<open>life_step\<close> allows.
\<close>

theorem connection_lifecycle:
  assumes "duplex_env env out inp queued ends" and "built_config cfg" and "queued ch = {#}"
    and "conn_run env (connection_new io ch now cfg mode) evs c"
  shows "life_run LActive evs (phase (inner c)) \<and> conn_ok cfg queued (inner c)
    \<and> (\<exists>r c'. poll_new_outbound env cx c = Some (r, c') \<and> life_step (phase (inner c)) (Outbound r) (phase (inner c')))
    \<and> (\<exists>r c'. poll_next_inbound env cx c = Some (r, c') \<and> life_step (phase (inner c)) (Inbound r) (phase (inner c')))
    \<and> (\<exists>r c'. poll_close env cx c = Some (r, c') \<and> life_step (phase (inner c)) (Closing_Call r) (phase (inner c')))
    \<and> (\<forall>i call. i < length (conn_handles (inner c)) \<longrightarrow> call_ok call \<longrightarrow>
         conn_handle_call env i call c \<noteq> None \<and> conn_drop_handle env i c \<noteq> None)"
proof -
  note ok = new_conn_run [OF assms]
  then have c: "conn_ok cfg queued (inner c)" "at_rest (inner c)"
    by blast+
  from duplex_env.poll_new_outbound_total [OF assms(1) c, of cx]
    duplex_env.poll_next_inbound_total [OF assms(1) c, of cx]
    duplex_env.conn_poll_close_total [OF assms(1) c, of cx]
    duplex_env.conn_handle_total [OF assms(1) c] duplex_env.conn_drop_handle_total [OF assms(1) c]
  show ?thesis
    using ok by (metis option.distinct(1))
qed

text \<open>
  C23: Closed is final. Once a call has reported the end of the connection (an error, the end of the
  inbound streams, a finished close), every later call reports it as closed: no new stream, no
  further inbound stream and no error, and closing again succeeds.
\<close>

theorem closed_is_final:
  assumes "duplex_env env out inp queued ends" and "built_config cfg" and "queued ch = {#}"
    and "conn_run env (connection_new io ch now cfg mode) (evs @ ev # evs') c" and "final_answer ev"
  shows "(\<exists>w. inner c = CClosed w) \<and> (\<forall>ev' \<in> set evs'. closed_answer ev')"
proof -
  have r: "life_run LActive ((evs @ [ev]) @ evs') (phase (inner c))" "at_rest (inner c)"
    using new_conn_run [OF assms(1-4)] by simp_all
  from life_run_append [OF r(1)] obtain l where l: "life_run LActive (evs @ [ev]) l"
    "life_run l evs' (phase (inner c))"
    by blast
  from l(1) obtain l1 where "life_step l1 ev l"
    by (cases rule: life_run.cases) simp_all
  then have "l = LClosed"
    using assms(5) by (rule final_closes)
  with life_closed l(2) have "phase (inner c) = LClosed" "\<forall>ev' \<in> set evs'. closed_answer ev'"
    by blast+
  with r(2) show ?thesis
    by (cases "inner c") auto
qed

text \<open>
  C32: Dropping an active connection leaves nobody waiting. Every stream a handle still refers to is
  closed, its buffered data kept, and every task registered in the cell of a stream, to wait for bytes or
  for credit, is woken.
\<close>

theorem drop_wakes_everyone:
  assumes "duplex_env env out inp queued ends" and "built_config cfg" and "queued ch = {#}"
    and "conn_run env (connection_new io ch now cfg mode) evs c" and "inner c = CActive a"
  shows "\<exists>w. connection_drop env c = Some (Some w) \<and> world_ok cfg [] w
    \<and> (\<forall>sid b. (sid, b) \<in> set (a_streams a) \<longrightarrow> set (wakers_of b a) \<subseteq> set (w_woken w))
    \<and> (\<forall>b sh. b \<in> set (held a) \<inter> set (addresses a) \<longrightarrow> cell b a = Some sh \<longrightarrow>
         (\<exists>sh'. cell b w = Some sh' \<and> sh_state sh' = Closed \<and> sh_reader sh' = None \<and> sh_writer sh' = None
           \<and> sh_buffer sh' = sh_buffer sh))"
proof -
  have ok: "active_ok queued a" "a_config a = cfg"
    using new_conn_run [OF assms(1-4)] assms(5) by auto
  then have "core_ok a"
    by (simp add: active_ok_def)
  from active_cleanup_ok [OF this, of Closed_Error] obtain t where
    t: "active_cleanup a Closed_Error = Some t" "cleanup_ok cfg t"
      "w_woken t = w_woken a @ concat (map (\<lambda>(_, b). wakers_of b a) (a_streams a))"
    and c: "\<forall>b \<in> set (addresses a). cell b t = (if b \<in> set (held a) then map_option shut (cell b a) else cell b a)"
    using ok(2) by blast
  from t(1) obtain a' where a': "drop_all_streams a = Some a'" "t = cleanup_new a' Closed_Error"
    by (auto simp: active_cleanup_def bind_eq_Some_conv)
  let ?w = "drop_receivers env a'"
  have "connection_drop env c = Some (Some ?w)"
    using assms(5) a'(1) by (simp add: connection_drop_def)
  moreover have "world_ok cfg [] ?w" "w_woken ?w = w_woken t" "cell b ?w = cell b t" for b
    using t(2) a'(2) by (auto simp: cleanup_ok_def)
  moreover have "set (wakers_of b a) \<subseteq> set (w_woken t)" if "(sid, b) \<in> set (a_streams a)" for sid b
    using that t(3) by auto
  moreover have "cell b t = Some (shut sh)"
    if "b \<in> set (held a)" "b \<in> set (addresses a)" "cell b a = Some sh" for b sh
    using bspec [OF c that(2)] that by simp
  ultimately show ?thesis
    by (intro exI [of _ ?w]) simp
qed

subsection \<open>Witnesses\<close>

definition test_connection :: "config \<Rightarrow> (pipe, chans) connection" where
  "test_connection cfg = connection_new \<lparr>pipe_in = [], pipe_out = []\<rparr> no_channels 0 cfg Client"

lemma test_connection_run:
  "\<exists>st c a. conn_run test_env (test_connection default_config) [Outbound (Ready (Ok st))] c
     \<and> inner c = CActive a \<and> w_handles a = [st] \<and> a_streams a = [(1, stm_shared st)]
     \<and> reachable test_env (test_conn []) a"
proof -
  obtain st s where s: "active_poll_new_outbound test_env 7 (test_conn []) = Some (Ready (Ok st), s)"
    "w_handles s = [st]" "a_streams s = [(1, stm_shared st)]" "reachable test_env (test_conn []) s"
    using test_opened by blast
  let ?c0 = "test_connection default_config"
  have "inner ?c0 = CActive (test_conn [])"
    by (simp add: test_connection_def connection_new_def test_conn_def)
  with s(1) have "poll_new_outbound_step test_env 7 ?c0 = Some (Return (Ready (Ok st)) (?c0\<lparr>inner := CActive s\<rparr>))"
    by (simp add: poll_new_outbound_step_def)
  then have "poll_new_outbound test_env 7 ?c0 = Some (Ready (Ok st), ?c0\<lparr>inner := CActive s\<rparr>)"
    unfolding poll_new_outbound_def by (rule run_loop_Return)
  from conn_run.outbound [OF conn_run.start this] s(2-) show ?thesis
    by (intro exI [of _ st] exI [of _ "?c0\<lparr>inner := CActive s\<rparr>"] exI [of _ s]) simp
qed

lemma no_channels_queued: "chans_queued no_channels = {#}"
  by (simp add: no_channels_def)

theorem connection_lifecycle_witness:
  "\<exists>c. conn_handles (inner c) \<noteq> [] \<and> conn_ok default_config chans_queued (inner c)
    \<and> (\<exists>r c'. poll_close test_env 4 c = Some (r, c'))
    \<and> conn_handle_call test_env 0 (CallWrite 5 [1, 2, 3]) c \<noteq> None"
proof -
  obtain st c a where c: "conn_run test_env (test_connection default_config) [Outbound (Ready (Ok st))] c"
    "inner c = CActive a" "w_handles a = [st]"
    using test_connection_run by blast
  from connection_lifecycle [OF test.duplex_env_axioms built_config.default no_channels_queued
      c(1) [unfolded test_connection_def], of 4] c(2,3) show ?thesis
    by (intro exI [of _ c]) auto
qed

theorem drop_wakes_everyone_witness:
  "\<exists>c a w. inner c = CActive a \<and> a_streams a \<noteq> [] \<and> connection_drop test_env c = Some (Some w)"
proof -
  obtain st c a where c: "conn_run test_env (test_connection default_config) [Outbound (Ready (Ok st))] c"
    "inner c = CActive a" "a_streams a = [(1, stm_shared st)]"
    using test_connection_run by blast
  from drop_wakes_everyone [OF test.duplex_env_axioms built_config.default no_channels_queued
      c(1) [unfolded test_connection_def] c(2)] c(2,3) show ?thesis
    by (intro exI [of _ c] exI [of _ a]) auto
qed

text \<open>A connection that allows no stream refuses the first one, and is closed from then on.\<close>

lemma refusing_run:
  "\<exists>cfg c r. built_config cfg \<and> conn_run test_env (test_connection cfg)
     [Outbound (Ready (Err TooManyStreams)), Inbound r] c"
proof -
  obtain cfg where cfg: "set_max_num_streams 0 default_config = Some cfg" "max_num_streams cfg = 0"
    by (auto simp: set_max_num_streams_def default_config_def assert_window_limit_def umul_def size_defs)
  have built: "built_config cfg"
    using built_config.default cfg(1) by (rule built_config.num_streams)
  let ?a = "active_new \<lparr>pipe_in = [], pipe_out = []\<rparr> no_channels 0 cfg Client"
  let ?c0 = "test_connection cfg"
  have ok: "active_ok chans_queued ?a"
    using config_ok_built [OF built] no_channels_queued by (rule active_new_ok)
  have conf: "a_config ?a = cfg"
    by (simp add: active_new_def)
  obtain cu where cu: "active_cleanup ?a TooManyStreams = Some cu" "cleanup_ok cfg cu" "cu_error cu = Some TooManyStreams"
    using test.cleanup_entered [OF ok conf] by blast
  have "active_poll_new_outbound test_env 7 ?a = Some (Ready (Err TooManyStreams), ?a)"
    using cfg(2) by (simp add: active_poll_new_outbound_def active_new_def)
  with cu(1) have "poll_new_outbound test_env 7 ?c0 = poll_new_outbound test_env 7 (?c0\<lparr>inner := CCleanup cu\<rparr>)"
    unfolding poll_new_outbound_def
    by (intro run_loop_Continue) (simp add: poll_new_outbound_step_def test_connection_def connection_new_def)
  with test.poll_new_outbound_from_cleanup [of "?c0\<lparr>inner := CCleanup cu\<rparr>", OF _ cu(2,3), of 7] obtain w where
    w: "poll_new_outbound test_env 7 ?c0 = Some (Ready (Err TooManyStreams), ?c0\<lparr>inner := CClosed w\<rparr>)" "world_ok cfg [] w"
    by auto
  from conn_run.outbound [OF conn_run.start w(1)]
  have "conn_run test_env ?c0 [Outbound (Ready (Err TooManyStreams))] (?c0\<lparr>inner := CClosed w\<rparr>)"
    by simp
  moreover obtain r c' where "poll_next_inbound test_env 8 (?c0\<lparr>inner := CClosed w\<rparr>) = Some (r, c')"
    using test.poll_next_inbound_total [of cfg "?c0\<lparr>inner := CClosed w\<rparr>" 8] w(2) by auto
  ultimately have "conn_run test_env ?c0 ([Outbound (Ready (Err TooManyStreams))] @ [Inbound r]) c'"
    by (rule conn_run.inbound)
  with built show ?thesis
    by auto
qed

theorem closed_is_final_witness:
  "\<exists>cfg r c w. conn_run test_env (test_connection cfg) [Outbound (Ready (Err TooManyStreams)), Inbound r] c
    \<and> inner c = CClosed w \<and> r = Ready None"
proof -
  obtain cfg c r where r: "built_config cfg"
    "conn_run test_env (test_connection cfg) ([] @ Outbound (Ready (Err TooManyStreams)) # [Inbound r]) c"
    using refusing_run by auto
  have "final_answer (Outbound (Ready (Err TooManyStreams)))"
    by (simp add: final_answer_def)
  from closed_is_final [OF test.duplex_env_axioms r(1) no_channels_queued r(2) [unfolded test_connection_def] this] r(2)
  show ?thesis
    by (auto simp: closed_answer_def)
qed

subsection \<open>What a graceful close leaves behind\<close>

fun conn_world :: "('io, 'ch) connection_state \<Rightarrow> 'ch world option" where
  "conn_world (CActive a) = Some (world.truncate a)"
| "conn_world (CClosing cl) = Some (world.truncate cl)"
| "conn_world (CCleanup cu) = Some (world.truncate cu)"
| "conn_world (CClosed w) = Some w"
| "conn_world CPoisoned = None"

lemma truncate_fields [simp]:
  "w_woken (world.truncate s) = w_woken s" "cell a (world.truncate s) = cell a s"
  by (simp_all add: world.defs cell_def)

lemma same_world_fields: "same_world s t \<Longrightarrow> w_woken t = w_woken s \<and> cell a t = cell a s"
  by (simp add: same_world_def world.defs cell_def)

context duplex_env
begin

lemma closing_leaves_world:
  assumes "inner c = CClosing cl" and "closing_ok cfg queued cl"
  shows "\<exists>r c' w. poll_close env cx c = Some (r, c') \<and> conn_world (inner c') = Some w
    \<and> w_woken w = w_woken cl \<and> (\<forall>a. cell a w = cell a cl)"
proof -
  obtain r t where t: "closing_poll env cx cl = Some (r, t)" "same_world cl t"
    using closing_poll_ok [OF assms(2)] by blast
  let ?P = "\<lambda>(r :: (unit, connection_error) result poll) c'.
    \<exists>w. conn_world (inner c') = Some w \<and> w_woken w = w_woken cl \<and> (\<forall>a. cell a w = cell a cl)"
  have P: "?P r (c\<lparr>inner := CClosing t\<rparr>)" "?P r (c\<lparr>inner := CClosed (drop_receivers env t)\<rparr>)" for r
    using same_world_fields [OF t(2)] by simp_all
  consider "r = Pending" | "r = Ready (Ok ())" | e where "r = Ready (Err e)"
    by (metis (full_types) old.unit.exhaust poll.exhaust result.exhaust)
  then have "\<exists>r c'. poll_close env cx c = Some (r, c') \<and> ?P r c'"
  proof cases
    case 2
    let ?c = "c\<lparr>inner := CClosed (drop_receivers env t)\<rparr>"
    have "poll_close env cx c = poll_close env cx ?c"
      unfolding poll_close_def
      by (rule run_loop_Continue) (use t(1) 2 assms(1) in \<open>simp add: poll_close_step_def\<close>)
    with poll_close_closed [of ?c] P(2) show ?thesis by simp
  next
    case 1
    then show ?thesis
      unfolding poll_close_def
      by (intro run_loop_returns [where P = ?P and r = Pending, OF _ P(1)]) (use t(1) assms(1) in \<open>simp add: poll_close_step_def\<close>)
  next
    case (3 e)
    then show ?thesis
      unfolding poll_close_def
      by (intro run_loop_returns [where P = ?P and r = "Ready (Err e)", OF _ P(2)])
        (use t(1) assms(1) in \<open>simp add: poll_close_step_def\<close>)
  qed
  then show ?thesis by blast
qed

end

text \<open>
  C39: A graceful close leaves the cells of the streams alone. A poll of \<open>poll_close\<close> on an active
  connection, however far it gets, changes no cell that a handle still refers to: its state, its
  buffer and the tasks registered in it to wait for bytes or for credit stay as they were, and the connection
  wakes none of them (\<open>w_woken\<close> is the list of what it has woken). A task that waits there is
  therefore not told that the connection is gone. Tasks parked in the channels, which wait for room
  for a command, are the channels' own matter and not meant here.
\<close>

theorem graceful_close_leaves_streams:
  assumes "duplex_env env out inp queued ends" and "inner c = CActive s" and "active_ok queued s"
  shows "\<exists>r c' w. poll_close env cx c = Some (r, c') \<and> conn_world (inner c') = Some w
    \<and> w_woken w = w_woken s \<and> (\<forall>a \<in> set (addresses s). cell a w = cell a s)"
proof -
  from active_close_ok [OF assms(3)] obtain cl where cl: "active_close s = Some cl"
    "closing_ok (a_config s) queued cl" "w_woken cl = w_woken s" "\<forall>a \<in> set (addresses s). cell a cl = cell a s"
    by blast
  let ?c = "c\<lparr>inner := CClosing cl\<rparr>"
  have "poll_close env cx c = poll_close env cx ?c"
    unfolding poll_close_def
    by (rule run_loop_Continue) (use assms(2) cl(1) in \<open>simp add: poll_close_step_def\<close>)
  moreover obtain r c' w where "poll_close env cx ?c = Some (r, c')" "conn_world (inner c') = Some w"
    "w_woken w = w_woken cl" "\<forall>a. cell a w = cell a cl"
    using duplex_env.closing_leaves_world [OF assms(1), of ?c cl "a_config s" cx] cl(2) by auto
  ultimately show ?thesis
    using cl(3,4) by auto
qed

theorem graceful_close_leaves_streams_witness:
  "\<exists>c s c' r. inner c = CActive s \<and> w_handles s \<noteq> [] \<and> poll_close test_env 4 c = Some (r, c')
    \<and> (\<exists>w. conn_world (inner c') = Some w \<and> w_woken w = w_woken s)"
proof -
  obtain st c s where c: "conn_run test_env (test_connection default_config) [Outbound (Ready (Ok st))] c"
    "inner c = CActive s" "w_handles s = [st]"
    using test_connection_run by blast
  have "conn_ok default_config chans_queued (inner c)"
    using new_conn_run [OF test.duplex_env_axioms built_config.default no_channels_queued c(1) [unfolded test_connection_def]] by blast
  then have "active_ok chans_queued s"
    by (simp add: c(2))
  from graceful_close_leaves_streams [OF test.duplex_env_axioms c(2) this, of 4] obtain r c' w where
    "poll_close test_env 4 c = Some (r, c')" "conn_world (inner c') = Some w" "w_woken w = w_woken s"
    by blast
  with c(2,3) show ?thesis
    by (intro exI [of _ c] exI [of _ s] exI [of _ c'] exI [of _ r]) simp
qed

end
