(* ===== verification/Generators.thy ===== *)
theory Generators
  imports Flow_Control Frame_Io "HOL-Library.Multiset"
begin

text \<open>
  The generators of the property tests: \<^verbatim>\<open>quickcheck-ext\<close> and the \<open>Arbitrary\<close> instances of the
  configuration, the round-trip time, the flow controller, headers, frames and the values of the test
  harness. The random source is \<open>Gen\<close> of the \<open>quickcheck\<close> crate, a parameter: the record \<open>'g gen_ops\<close>
  of its draws, \<open>choose\<close> (of a tag) among them. What the tests sample is proved of every draw.
\<close>

record 'g gen_ops =
  g_bool :: "'g \<Rightarrow> bool \<times> 'g"
  g_u8 :: "'g \<Rightarrow> u8 \<times> 'g"
  g_u16 :: "'g \<Rightarrow> u16 \<times> 'g"
  g_u32 :: "'g \<Rightarrow> u32 \<times> 'g"
  g_u64 :: "'g \<Rightarrow> nat \<times> 'g"
  g_usize :: "'g \<Rightarrow> usize \<times> 'g"
  g_duration :: "'g \<Rightarrow> duration \<times> 'g"
  g_bytes :: "'g \<Rightarrow> bytes \<times> 'g"
  g_choose :: "tag list \<Rightarrow> 'g \<Rightarrow> tag option \<times> 'g"

definition draw_u32 :: "('g, 'z) gen_ops_scheme \<Rightarrow> 'g \<Rightarrow> nat \<times> 'g" where
  "draw_u32 ops g = map_prod unat id (g_u32 ops g)"

subsection \<open>Ranges, indices, permutations\<close>

text \<open>\<open>gen_range\<close> of a type of \<open>w\<close> bits: subtraction, remainder and addition are checked.\<close>

definition gen_range :: "nat \<Rightarrow> ('g \<Rightarrow> nat \<times> 'g) \<Rightarrow> nat \<Rightarrow> nat \<Rightarrow> 'g \<Rightarrow> (nat \<times> 'g) run" where
  "gen_range w draw lo hi g =
     (let (x, g) = draw g in do {
        d \<leftarrow> usub hi lo;
        _ \<leftarrow> assert_that (d \<noteq> 0);
        _ \<leftarrow> assert_that (x mod d + lo < 2 ^ w);
        Some (x mod d + lo, g) })"

definition gen_index :: "('g, 'z) gen_ops_scheme \<Rightarrow> usize \<Rightarrow> 'g \<Rightarrow> (usize \<times> 'g) run" where
  "gen_index ops ubound g =
     (if ubound \<le> unat u32_max then gen_range 32 (draw_u32 ops) 0 ubound g
      else gen_range 64 (g_usize ops) 0 ubound g)"

definition swap :: "nat \<Rightarrow> nat \<Rightarrow> 'a list \<Rightarrow> 'a list run" where
  "swap i j xs = do {
     _ \<leftarrow> assert_that (i < length xs \<and> j < length xs);
     Some (xs[i := xs ! j, j := xs ! i]) }"

text \<open>The rounds \<open>i, i - 1, \<dots>, 1\<close> of the loop.\<close>

fun shuffle_rounds :: "('g, 'z) gen_ops_scheme \<Rightarrow> nat \<Rightarrow> 'a list \<Rightarrow> 'g \<Rightarrow> ('a list \<times> 'g) run" where
  "shuffle_rounds ops 0 xs g = Some (xs, g)"
| "shuffle_rounds ops (Suc i) xs g = do {
     (j, g) \<leftarrow> gen_index ops (Suc i + 1) g;
     xs \<leftarrow> swap (Suc i) j xs;
     shuffle_rounds ops i xs g }"

definition shuffle :: "('g, 'z) gen_ops_scheme \<Rightarrow> 'a list \<Rightarrow> 'g \<Rightarrow> ('a list \<times> 'g) run" where
  "shuffle ops xs = shuffle_rounds ops (length xs - 1) xs"

definition choose_multiple ::
    "('g, 'z) gen_ops_scheme \<Rightarrow> 'a list \<Rightarrow> usize \<Rightarrow> 'g \<Rightarrow> ('a list \<times> 'g) run" where
  "choose_multiple ops xs amount g = do { (v, g) \<leftarrow> shuffle ops xs g; Some (take amount v, g) }"

lemma gen_range_in:
  assumes "lo < hi" and "hi \<le> 2 ^ w"
  shows "\<exists>r g'. gen_range w draw lo hi g = Some (r, g') \<and> lo \<le> r \<and> r < hi"
proof -
  obtain x g' where d: "draw g = (x, g')"
    by (rule prod.exhaust)
  have m: "x mod (hi - lo) + lo < hi"
    using mod_less_divisor [of "hi - lo" x] assms(1) by linarith
  then have "x mod (hi - lo) + lo < 2 ^ w"
    using assms(2) by linarith
  with m assms(1) d show ?thesis
    by (simp add: gen_range_def usub_def)
qed

lemma gen_index_in:
  assumes "0 < n" and "n \<le> 2 ^ 64"
  shows "\<exists>j g'. gen_index ops n g = Some (j, g') \<and> j < n"
proof (cases "n \<le> unat u32_max")
  case True
  then have "n \<le> 2 ^ 32"
    using unat_u32_bound [of u32_max] by linarith
  with gen_range_in [OF assms(1), of 32 "draw_u32 ops" g] True show ?thesis
    by (auto simp: gen_index_def)
next
  case False
  with gen_range_in [OF assms, of "g_usize ops" g] show ?thesis
    by (auto simp: gen_index_def)
qed

lemma shuffle_rounds_permutes:
  assumes "i < length xs" and "length xs \<le> 2 ^ 64"
  shows "\<exists>ys g'. shuffle_rounds ops i xs g = Some (ys, g') \<and> mset ys = mset xs"
  using assms
proof (induction i arbitrary: xs g)
  case (Suc i)
  obtain j g1 where j: "gen_index ops (Suc i + 1) g = Some (j, g1)" "j < Suc i + 1"
    using gen_index_in [of "Suc i + 1" ops g] Suc.prems by auto
  let ?xs = "xs[Suc i := xs ! j, j := xs ! Suc i]"
  have "j < length xs"
    using j(2) Suc.prems(1) by simp
  then have xs: "swap (Suc i) j xs = Some ?xs" "mset ?xs = mset xs" "length ?xs = length xs"
    using Suc.prems(1) mset_swap [of j xs "Suc i"] by (simp_all add: swap_def)
  from Suc.IH [of ?xs g1] Suc.prems xs(3) obtain ys g' where
    "shuffle_rounds ops i ?xs g1 = Some (ys, g')" "mset ys = mset ?xs"
    by auto
  with j(1) xs show ?case
    by simp
qed simp

lemma shuffle_permutes:
  assumes "length xs \<le> 2 ^ 64"
  shows "\<exists>ys g'. shuffle ops xs g = Some (ys, g') \<and> mset ys = mset xs"
proof (cases xs)
  case Nil
  then show ?thesis by (simp add: shuffle_def)
next
  case (Cons x zs)
  with shuffle_rounds_permutes [of "length xs - 1" xs ops g] assms show ?thesis
    by (simp add: shuffle_def)
qed

lemma choose_multiple_sub:
  assumes "length xs \<le> 2 ^ 64"
  shows "\<exists>ys g'. choose_multiple ops xs n g = Some (ys, g') \<and> mset ys \<subseteq># mset xs \<and> length ys = min n (length xs)"
proof -
  obtain ys g' where ys: "shuffle ops xs g = Some (ys, g')" "mset ys = mset xs"
    using shuffle_permutes [OF assms, of ops g] by blast
  then have "mset (take n ys) \<subseteq># mset xs" "length ys = length xs"
    using mset_subset_eq_add_left [of "mset (take n ys)" "mset (drop n ys)"] mset_eq_length [OF ys(2)]
    by (simp_all flip: mset_append)
  with ys(1) show ?thesis
    by (simp add: choose_multiple_def min.commute)
qed

subsection \<open>The generated values\<close>

definition u16_max :: nat where
  "u16_max = 2 ^ 16 - 1"

definition config_arbitrary :: "('g, 'z) gen_ops_scheme \<Rightarrow> 'g \<Rightarrow> (config \<times> 'g) run" where
  "config_arbitrary ops g = do {
     (n, g) \<leftarrow> gen_range 64 (g_usize ops) 0 u16_max g;
     let (b, g) = g_bool ops g;
     (window, g) \<leftarrow> (if b then do {
          lo \<leftarrow> umul (unat DEFAULT_CREDIT) n;
          (w, g) \<leftarrow> gen_range 64 (g_usize ops) lo usize_max g;
          Some (Some w, g) }
        else Some (None, g));
     let (r, g) = g_bool ops g;
     (split, g) \<leftarrow> gen_range 64 (g_usize ops) DEFAULT_SPLIT_SEND_SIZE usize_max g;
     Some (\<lparr>max_connection_receive_window = window, max_num_streams = n, read_after_close = r,
            split_send_size = split\<rparr>, g) }"

text \<open>\<open>now\<close> is the reading of the clock.\<close>

definition rtt_state_arbitrary :: "('g, 'z) gen_ops_scheme \<Rightarrow> instant \<Rightarrow> 'g \<Rightarrow> rtt_state \<times> 'g" where
  "rtt_state_arbitrary ops now g =
     (let (b, g) = g_bool ops g in
      if b then (let (i, g) = g_u32 ops g in (AwaitingPong now i, g)) else (Waiting now, g))"

definition rtt_arbitrary :: "('g, 'z) gen_ops_scheme \<Rightarrow> instant \<Rightarrow> 'g \<Rightarrow> rtt \<times> 'g" where
  "rtt_arbitrary ops now g =
     (let (st, g) = rtt_state_arbitrary ops now g; (b, g) = g_bool ops g;
          (d, g) = (if b then (let (d, g) = g_duration ops g in (Some d, g)) else (None, g))
      in (\<lparr>rtt_state = st, rtt_value = d, rtt_next_id = 0\<rparr>, g))"

record input =
  in_controller :: flow_controller
  in_rtt :: rtt
  in_accumulated :: usize
  in_buffer_len :: usize

definition saturating_uadd :: "usize \<Rightarrow> usize \<Rightarrow> usize" where
  "saturating_uadd a b = min (a + b) usize_max"

definition u32_saturating_add :: "u32 \<Rightarrow> u32 \<Rightarrow> u32" where
  "u32_saturating_add a b = (case checked_add a b of Some c \<Rightarrow> c | None \<Rightarrow> u32_max)"

definition day :: duration where
  "day = 60 * 60 * 24"

definition input_arbitrary ::
    "('g, 'z) gen_ops_scheme \<Rightarrow> instant \<Rightarrow> instant \<Rightarrow> 'g \<Rightarrow> (input \<times> 'g) run" where
  "input_arbitrary ops now1 now2 g = do {
     (cfg, g) \<leftarrow> config_arbitrary ops g;
     let (rtt, g) = rtt_arbitrary ops now1 g;
     need \<leftarrow> umul (max_num_streams cfg) (unat DEFAULT_CREDIT);
     spare \<leftarrow> usub (window_limit cfg) need;
     (m, g) \<leftarrow> (if rtt_get rtt = None then Some (unat DEFAULT_CREDIT, g)
        else gen_range 32 (draw_u32 ops) (unat DEFAULT_CREDIT)
          (unat (u32_saturating_add (u32_of_usize_or_max (saturating_uadd (unat DEFAULT_CREDIT) spare)) 1)) g);
     (rw, g) \<leftarrow> gen_range 32 (draw_u32 ops) 0 m g;
     (n, g) \<leftarrow> gen_range 64 (g_usize ops) 0 m g;
     extra \<leftarrow> usub m (unat DEFAULT_CREDIT);
     (acc, g) \<leftarrow> gen_range 64 (g_usize ops) extra (saturating_uadd spare 1) g;
     (secs, g) \<leftarrow> gen_range 64 (g_u64 ops) 0 day g;
     last \<leftarrow> usub now2 (secs * 1000000000);
     (sw, g) \<leftarrow> gen_range 32 (draw_u32 ops) 0 (unat u32_max) g;
     Some (\<lparr>in_controller = \<lparr>fc_config = cfg, fc_last_window_update = last, fc_receive_window = of_nat rw,
              fc_max_receive_window = of_nat m, fc_send_window = of_nat sw\<rparr>,
            in_rtt = rtt, in_accumulated = acc, in_buffer_len = n\<rparr>, g) }"

text \<open>
  The property the test checks: \<open>next_window_update\<close> does not panic, and neither does dropping the
  controller at the end.
\<close>

definition next_window_update_property :: "instant \<Rightarrow> instant \<Rightarrow> input \<Rightarrow> bool" where
  "next_window_update_property t1 t2 i \<longleftrightarrow>
     do { (_, acc, fc) \<leftarrow> fc_next_window_update t1 t2 (rtt_get (in_rtt i)) (in_accumulated i) (in_buffer_len i) (in_controller i);
          fc_drop fc acc } \<noteq> None"

lemma config_arbitrary_ok:
  "\<exists>cfg g'. config_arbitrary ops g = Some (cfg, g') \<and> config_ok cfg \<and> max_num_streams cfg < u16_max"
proof -
  obtain n g1 where n: "gen_range 64 (g_usize ops) 0 u16_max g = Some (n, g1)" "n < u16_max"
    using gen_range_in [of 0 u16_max 64 "g_usize ops" g] by (auto simp: u16_max_def)
  then have lo: "262144 * n < usize_max"
    by (simp add: u16_max_def)
  obtain b g2 where b: "g_bool ops g1 = (b, g2)"
    by (rule prod.exhaust)
  obtain win g3 where win: "(if b then do {
          lo \<leftarrow> umul (unat DEFAULT_CREDIT) n;
          (w, g) \<leftarrow> gen_range 64 (g_usize ops) lo usize_max g2;
          Some (Some w, g) }
        else Some (None, g2)) = Some (win, g3)"
    and limit: "262144 * n \<le> (case win of Some w \<Rightarrow> w | None \<Rightarrow> usize_max)"
      "(case win of Some w \<Rightarrow> w | None \<Rightarrow> usize_max) \<le> usize_max"
  proof (cases b)
    case True
    obtain w g' where "gen_range 64 (g_usize ops) (262144 * n) usize_max g2 = Some (w, g')" "262144 * n \<le> w" "w < usize_max"
      using gen_range_in [OF lo, of 64 "g_usize ops" g2] by auto
    with True lo that [of "Some w" g'] show ?thesis
      by (simp add: umul_def)
  next
    case False
    with lo that [of None g2] show ?thesis
      by simp
  qed
  obtain r g4 where r: "g_bool ops g3 = (r, g4)"
    by (rule prod.exhaust)
  obtain s g5 where s: "gen_range 64 (g_usize ops) DEFAULT_SPLIT_SEND_SIZE usize_max g4 = Some (s, g5)"
    using gen_range_in [of DEFAULT_SPLIT_SEND_SIZE usize_max 64 "g_usize ops" g4] by (auto simp: size_defs)
  let ?c = "\<lparr>max_connection_receive_window = win, max_num_streams = n, read_after_close = r, split_send_size = s\<rparr>"
  have "config_arbitrary ops g = Some (?c, g5)"
    using n(1) b win r s unfolding config_arbitrary_def by (simp del: if_split)
  moreover have "config_ok ?c"
    using limit by (simp add: config_ok_def window_limit_def mult.commute)
  ultimately show ?thesis
    using n(2) by auto
qed

text \<open>What the generator guarantees of an input.\<close>

definition input_ok :: "input \<Rightarrow> bool" where
  "input_ok i \<longleftrightarrow> (let fc = in_controller i; cfg = fc_config fc in
     config_ok cfg \<and> unat DEFAULT_CREDIT \<le> unat (fc_max_receive_window fc)
     \<and> (rtt_get (in_rtt i) = None \<longrightarrow> fc_max_receive_window fc = DEFAULT_CREDIT)
     \<and> fc_receive_window fc < fc_max_receive_window fc \<and> in_buffer_len i < unat (fc_max_receive_window fc)
     \<and> fc_extra fc \<le> in_accumulated i
     \<and> max_num_streams cfg * unat DEFAULT_CREDIT + in_accumulated i \<le> window_limit cfg)"

lemma unat_u32_max: "unat u32_max = 4294967295"
  by (simp add: unsigned_minus_1_eq_mask mask_eq_exp_minus_1)

lemma max_bound:
  "unat DEFAULT_CREDIT < unat (u32_saturating_add (u32_of_usize_or_max (saturating_uadd (unat DEFAULT_CREDIT) spare)) 1)"
  "unat (u32_saturating_add (u32_of_usize_or_max (saturating_uadd (unat DEFAULT_CREDIT) spare)) 1) \<le> 262144 + spare + 1"
proof -
  let ?x = "saturating_uadd (unat DEFAULT_CREDIT) spare"
  have x: "262144 \<le> ?x" "?x \<le> 262144 + spare"
    by (simp_all add: saturating_uadd_def)
  have u: "262144 \<le> unat (u32_of_usize_or_max ?x) \<and> unat (u32_of_usize_or_max ?x) \<le> 262144 + spare"
    using x by (auto simp: u32_of_usize_or_max_def u32_try_from_def unat_of_nat take_bit_nat_eq_self unat_u32_max split: option.splits)
  have "unat (u32_saturating_add y 1) = min (unat y + 1) 4294967295" for y
  proof (cases "checked_add y 1")
    case None
    then have "2 ^ 32 \<le> unat y + 1"
      by (simp add: checked_add_None_iff)
    with None show ?thesis
      by (simp add: u32_saturating_add_def unat_u32_max)
  next
    case (Some c)
    then have "unat c = unat y + 1"
      by (simp add: checked_add_Some_iff)
    with Some unat_u32_bound [of c] show ?thesis
      by (simp add: u32_saturating_add_def)
  qed
  with u show "unat DEFAULT_CREDIT < unat (u32_saturating_add (u32_of_usize_or_max ?x) 1)"
    "unat (u32_saturating_add (u32_of_usize_or_max ?x) 1) \<le> 262144 + spare + 1"
    by (simp_all add: min.coboundedI1)
qed

lemma input_arbitrary_ok:
  assumes "day * 1000000000 \<le> now2"
  shows "\<exists>i g'. input_arbitrary ops now1 now2 g = Some (i, g') \<and> input_ok i"
proof -
  obtain cfg g1 where cfg: "config_arbitrary ops g = Some (cfg, g1)" "config_ok cfg" "max_num_streams cfg < u16_max"
    using config_arbitrary_ok [of ops g] by blast
  obtain rtt g2 where rtt: "rtt_arbitrary ops now1 g1 = (rtt, g2)"
    by (rule prod.exhaust)
  let ?need = "max_num_streams cfg * 262144" and ?spare = "window_limit cfg - max_num_streams cfg * 262144"
  have need: "umul (max_num_streams cfg) (unat DEFAULT_CREDIT) = Some ?need" "usub (window_limit cfg) ?need = Some ?spare"
    "?need \<le> window_limit cfg" "window_limit cfg \<le> usize_max"
    using cfg(2,3) by (auto simp: umul_def usub_def config_ok_def u16_max_def)
  let ?hi = "unat (u32_saturating_add (u32_of_usize_or_max (saturating_uadd (unat DEFAULT_CREDIT) ?spare)) 1)"
  obtain m g3 where m: "(if rtt_get rtt = None then Some (unat DEFAULT_CREDIT, g2)
        else gen_range 32 (draw_u32 ops) (unat DEFAULT_CREDIT) ?hi g2) = Some (m, g3)"
    and mb: "262144 \<le> m" "m \<le> 262144 + ?spare" "m < 2 ^ 32" "rtt_get rtt = None \<longrightarrow> m = 262144"
  proof (cases "rtt_get rtt = None")
    case True
    with that [of 262144 g2] show ?thesis by simp
  next
    case False
    have "?hi \<le> 2 ^ 32"
      using unat_u32_bound by (rule less_imp_le)
    from gen_range_in [OF max_bound(1) this, of "draw_u32 ops" g2] obtain m g3 where
      "gen_range 32 (draw_u32 ops) (unat DEFAULT_CREDIT) ?hi g2 = Some (m, g3)" "262144 \<le> m" "m < ?hi"
      by auto
    moreover from this(3) have "m \<le> 262144 + ?spare" "m < 2 ^ 32"
      using max_bound(2) [of ?spare] \<open>?hi \<le> 2 ^ 32\<close> by linarith+
    ultimately show ?thesis
      using False by (intro that [of m g3]) auto
  qed
  obtain rw g4 where rw: "gen_range 32 (draw_u32 ops) 0 m g3 = Some (rw, g4)" "rw < m"
    using gen_range_in [of 0 m 32 "draw_u32 ops" g3] mb by auto
  obtain n g5 where n: "gen_range 64 (g_usize ops) 0 m g4 = Some (n, g5)" "n < m"
    using gen_range_in [of 0 m 64 "g_usize ops" g4] mb by auto
  have ex: "usub m (unat DEFAULT_CREDIT) = Some (m - 262144)"
    using mb(1) by (simp add: usub_def)
  have "m - 262144 < saturating_uadd ?spare 1" "saturating_uadd ?spare 1 \<le> 2 ^ 64"
    using mb need(4) by (auto simp: saturating_uadd_def)
  from gen_range_in [OF this, of "g_usize ops" g5] obtain acc g6 where
    acc: "gen_range 64 (g_usize ops) (m - 262144) (saturating_uadd ?spare 1) g5 = Some (acc, g6)"
      "m - 262144 \<le> acc" "acc < saturating_uadd ?spare 1"
    by blast
  obtain secs g7 where secs: "gen_range 64 (g_u64 ops) 0 day g6 = Some (secs, g7)" "secs < day"
    using gen_range_in [of 0 day 64 "g_u64 ops" g6] by (auto simp: day_def)
  then have last: "usub now2 (secs * 1000000000) = Some (now2 - secs * 1000000000)"
    using assms by (simp add: usub_def)
  obtain sw g8 where sw: "gen_range 32 (draw_u32 ops) 0 (unat u32_max) g7 = Some (sw, g8)"
    using gen_range_in [of 0 "unat u32_max" 32 "draw_u32 ops" g7] by (auto simp: unat_u32_max)
  let ?fc = "\<lparr>fc_config = cfg, fc_last_window_update = now2 - secs * 1000000000, fc_receive_window = of_nat rw,
    fc_max_receive_window = of_nat m, fc_send_window = of_nat sw\<rparr>"
  let ?i = "\<lparr>in_controller = ?fc, in_rtt = rtt, in_accumulated = acc, in_buffer_len = n\<rparr>"
  have "input_arbitrary ops now1 now2 g = Some (?i, g8)"
    using cfg(1) rtt need(1,2) m rw(1) n(1) ex acc(1) secs(1) last sw
    unfolding input_arbitrary_def by (simp del: if_split)
  moreover have u: "unat (of_nat m :: u32) = m" "unat (of_nat rw :: u32) = rw"
    using mb(3) rw(2) by (simp_all add: unat_of_nat take_bit_nat_eq_self)
  have "acc \<le> ?spare"
    using acc(3) by (simp add: saturating_uadd_def)
  then have "input_ok ?i"
    using cfg(2) mb u rw(2) n(2) acc(2) need(3)
    by (auto simp: input_ok_def Let_def fc_extra_def word_less_nat_alt DEFAULT_CREDIT_eq)
  ultimately show ?thesis by blast
qed

lemma input_ok_runs:
  assumes "input_ok i" and "0 < max_num_streams (fc_config (in_controller i))" and "rtt_ok (rtt_get (in_rtt i))"
  shows "next_window_update_property t1 t2 i"
proof -
  let ?fc = "in_controller i" and ?n = "in_buffer_len i" and ?rtt = "rtt_get (in_rtt i)" and ?acc = "in_accumulated i"
  have acc: "acc_ok (fc_config ?fc) ?acc" "fc_extra ?fc \<le> ?acc"
    using assms by (auto simp: input_ok_def Let_def acc_ok_def)
  show ?thesis
  proof (cases "unat (fc_receive_window ?fc) + ?n \<le> unat (fc_max_receive_window ?fc)")
    case True
    then have "fc_ok ?rtt ?n ?fc"
      using assms(1) by (auto simp: fc_ok_def input_ok_def Let_def)
    from fc_next_window_update_ok [OF acc(1) this acc(2) assms(3), of t1 t2] obtain upd acc' fc' where
      "fc_next_window_update t1 t2 ?rtt ?acc ?n ?fc = Some (upd, acc', fc')" "fc_ok ?rtt ?n fc'" "fc_extra fc' \<le> acc'"
      by blast
    with fc_drop_ok [of fc' acc'] show ?thesis
      by (simp add: next_window_update_property_def fc_ok_def)
  next
    case False
    let ?m = "fc_max_receive_window ?fc"
    have m: "262144 \<le> unat ?m" "unat (fc_receive_window ?fc) < unat ?m" "?n < unat ?m"
      using assms(1) by (auto simp: input_ok_def Let_def word_less_nat_alt)
    obtain room where room: "spare_window (fc_config ?fc) = Some room" "fc_extra ?fc \<le> room"
      using acc spare_window_ok [of "fc_config ?fc"] by (auto simp: acc_ok_def config_ok_def)
    have inv: "assert_invariants ?n ?rtt ?acc ?fc = Some ()"
      using assms(1) m room acc(2)
      by (auto simp: assert_invariants_def input_ok_def Let_def checked_sub_def word_le_nat_alt fc_extra_def unat_sub
          assert_that_def)
    have def: "window_deficit ?m (fc_receive_window ?fc) ?n = Some 0"
      using False m unat_u32_bound [of ?m]
      by (auto simp: window_deficit_def checked_sub_def word_le_nat_alt saturating_sub_def u32_of_usize_or_max_def
          u32_try_from_def unat_of_nat take_bit_nat_eq_self unat_sub)
    have "(0 :: u32) < ?m div 2"
      using m(1) by (simp add: word_less_nat_alt unat_div)
    with inv def fc_drop_ok [of ?fc ?acc] m(1) acc(2) show ?thesis
      by (simp add: next_window_update_property_def fc_next_window_update_def)
  qed
qed

text \<open>
  C40: The property test of \<open>next_window_update\<close> holds for every draw, not only for those a run
  samples: when the clock reads at least a day, the generator of inputs does not panic whatever the
  random source returns. On every input whose configuration allows at least one stream and whose
  round-trip time, if any, can be doubled, \<open>next_window_update\<close> and then the drop of the controller
  run without a failing assertion or an overflow. Inputs in which window and
  buffer together exceed the maximum, which no connection produces, are among them.
\<close>

theorem next_window_update_test:
  assumes "day * 1000000000 \<le> now2"
  shows "\<exists>i g'. input_arbitrary ops now1 now2 g = Some (i, g')
    \<and> (max_num_streams (fc_config (in_controller i)) \<noteq> 0 \<and> rtt_ok (rtt_get (in_rtt i)) \<longrightarrow> next_window_update_property t1 t2 i)"
  using input_arbitrary_ok [OF assms, of ops now1 g] input_ok_runs by blast

text \<open>A duration beyond half of the maximum cannot be doubled: the multiplication panics.\<close>

lemma duration_overflow: "within_two_rtt t1 (Some DURATION_MAX) fc = None"
  by (simp add: within_two_rtt_def dmul_def DURATION_MAX_def)

subsection \<open>A scripted random source\<close>

fun pop :: "nat list \<Rightarrow> nat \<times> nat list" where
  "pop [] = (0, [])"
| "pop (x # g) = (x, g)"

definition script_ops :: "nat list gen_ops" where
  "script_ops = \<lparr>g_bool = (\<lambda>g. map_prod (\<lambda>x. x \<noteq> 0) id (pop g)), g_u8 = (\<lambda>g. map_prod of_nat id (pop g)),
     g_u16 = (\<lambda>g. map_prod of_nat id (pop g)), g_u32 = (\<lambda>g. map_prod of_nat id (pop g)), g_u64 = pop,
     g_usize = pop, g_duration = pop, g_bytes = (\<lambda>g. map_prod (\<lambda>n. [of_nat n]) id (pop g)),
     g_choose = (\<lambda>xs g. map_prod (\<lambda>n. if xs = [] then None else Some (xs ! (n mod length xs))) id (pop g))\<rparr>"

text \<open>
  The script: number of streams, no limit, no reading after close, split size, waiting for the next ping, a
  round-trip time of one second, then the windows, the buffer, the counter, the age and the send window.
\<close>

definition script :: "nat \<Rightarrow> nat list" where
  "script streams = [streams, 0, 0, 0, 0, 1, 1000000000, 262144, 0, 0, 0, 0, 0]"

lemma script_input:
  assumes "n < 65535"
  shows "\<exists>g'. input_arbitrary script_ops 0 (day * 1000000000) (script n) =
    Some (\<lparr>in_controller = \<lparr>fc_config = \<lparr>max_connection_receive_window = None, max_num_streams = n,
        read_after_close = False, split_send_size = DEFAULT_SPLIT_SEND_SIZE\<rparr>,
        fc_last_window_update = day * 1000000000, fc_receive_window = 0, fc_max_receive_window = 524288, fc_send_window = 0\<rparr>,
      in_rtt = \<lparr>rtt_state = Waiting 0, rtt_value = Some 1000000000, rtt_next_id = 0\<rparr>,
      in_accumulated = 262144, in_buffer_len = 0\<rparr>, g')"
proof -
  have hi: "u32_of_usize_or_max (saturating_uadd 262144 (18446744073709551615 - n * 262144)) = u32_max"
    using assms by (simp add: u32_of_usize_or_max_def u32_try_from_def saturating_uadd_def)
  have sat: "u32_saturating_add u32_max 1 = u32_max"
    by (simp add: u32_saturating_add_def checked_add_def unat_u32_max)
  have acc: "262144 < saturating_uadd (18446744073709551615 - n * 262144) 1"
    using assms by (simp add: saturating_uadd_def)
  show ?thesis
    using assms acc
    by (simp add: input_arbitrary_def config_arbitrary_def gen_range_def script_def script_ops_def umul_def usub_def
        rtt_arbitrary_def rtt_state_arbitrary_def rtt_get_def window_limit_def size_defs u16_max_def draw_u32_def
        assert_that_def hi sat unat_u32_max day_def Let_def)
qed

theorem next_window_update_test_witness:
  "\<exists>i g'. input_arbitrary script_ops 0 (day * 1000000000) (script 1) = Some (i, g')
    \<and> unat (fc_max_receive_window (in_controller i)) = 524288 \<and> next_window_update_property (day * 1000000000) 5 i"
proof -
  obtain i g' where i: "input_arbitrary script_ops 0 (day * 1000000000) (script 1) = Some (i, g')"
    "max_num_streams (fc_config (in_controller i)) \<noteq> 0 \<and> rtt_ok (rtt_get (in_rtt i)) \<longrightarrow>
       next_window_update_property (day * 1000000000) 5 i"
    using next_window_update_test [of "day * 1000000000" script_ops 0 "script 1" "day * 1000000000" 5] by auto
  with script_input [of 1] show ?thesis
    by (auto simp: rtt_get_def rtt_ok_def DURATION_MAX_def)
qed

text \<open>
  Without the condition on the number of streams the property is false: a configuration with no stream at all leaves no
  room below \<open>usize::MAX\<close>, and the limit of a stream overflows.
\<close>

lemma zero_streams_overflow:
  "\<exists>i g'. input_arbitrary script_ops 0 (day * 1000000000) (script 0) = Some (i, g')
    \<and> \<not> next_window_update_property (day * 1000000000) 5 i"
proof -
  let ?cfg = "\<lparr>max_connection_receive_window = None, max_num_streams = 0, read_after_close = False,
    split_send_size = DEFAULT_SPLIT_SEND_SIZE\<rparr>"
  let ?fc = "\<lparr>fc_config = ?cfg, fc_last_window_update = day * 1000000000, fc_receive_window = 0,
    fc_max_receive_window = 524288, fc_send_window = 0\<rparr>"
  have spare: "spare_window ?cfg = Some usize_max"
    by (simp add: spare_window_def umul_def usub_def window_limit_def)
  have inv: "assert_invariants 0 (Some 1000000000) 262144 ?fc = Some ()"
    by (simp add: assert_invariants_def spare checked_sub_def DEFAULT_CREDIT_eq)
  have grow: "grow_window 262144 ?fc = None"
    by (simp add: grow_window_def spare usub_def uadd_def Let_def)
  have def: "window_deficit 524288 0 0 = Some 524288"
    by (simp add: window_deficit_def checked_sub_def saturating_sub_def u32_of_usize_or_max_def u32_try_from_def)
  have "fc_next_window_update (day * 1000000000) 5 (Some 1000000000) 262144 0 ?fc = None"
    by (simp add: fc_next_window_update_def inv def grow within_two_rtt_def dmul_def elapsed_def DURATION_MAX_def)
  with script_input [of 0] show ?thesis
    by (auto simp: next_window_update_property_def rtt_get_def)
qed

subsection \<open>The configurations of the integration tests\<close>

definition test_config_arbitrary :: "('g, 'z) gen_ops_scheme \<Rightarrow> 'g \<Rightarrow> (config \<times> 'g) run" where
  "test_config_arbitrary ops g = do {
     let (b, g) = g_bool ops g;
     let c = set_read_after_close b default_config;
     c \<leftarrow> set_max_num_streams 512 c;
     let (b, g) = g_bool ops g;
     if b then do {
       lo \<leftarrow> umul 512 (unat DEFAULT_CREDIT);
       (w, g) \<leftarrow> gen_range 64 (g_usize ops) lo usize_max g;
       c \<leftarrow> set_max_connection_receive_window (Some w) c;
       Some (c, g) }
     else do { c \<leftarrow> set_max_connection_receive_window None c; Some (c, g) } }"

text \<open>No assertion of a setter fails, and the result is a configuration the other theories cover.\<close>

lemma test_config_built: "\<exists>c g'. test_config_arbitrary ops g = Some (c, g') \<and> built_config c"
proof -
  obtain b g1 where b: "g_bool ops g = (b, g1)"
    by (rule prod.exhaust)
  obtain b' g2 where b': "g_bool ops g1 = (b', g2)"
    by (rule prod.exhaust)
  let ?c1 = "set_read_after_close b default_config"
  obtain c2 where c2: "set_max_num_streams 512 ?c1 = Some c2" "max_num_streams c2 = 512"
    by (simp add: set_max_num_streams_def assert_window_limit_Some set_read_after_close_def default_config_def
        window_limit_def size_defs)
  have built: "built_config c2"
    using built_config.num_streams [OF built_config.read_after [OF built_config.default] c2(1)] .
  obtain w g3 where w: "gen_range 64 (g_usize ops) 134217728 usize_max g2 = Some (w, g3)" "134217728 \<le> w" "w < usize_max"
    using gen_range_in [of 134217728 usize_max 64 "g_usize ops" g2] by auto
  define n where "n = (if b' then Some w else None)"
  obtain c3 where c3: "set_max_connection_receive_window n c2 = Some c3"
    using c2(2) w by (simp add: set_max_connection_receive_window_def assert_window_limit_Some window_limit_def n_def)
  have "built_config c3"
    by (rule built_config.conn_window [OF built _ c3]) (use w(3) in \<open>auto simp: n_def split: if_splits\<close>)
  then show ?thesis
    using b b' c2(1) w(1) c3 by (auto simp: test_config_arbitrary_def umul_def n_def)
qed

subsection \<open>Headers, frames and messages\<close>

text \<open>A tag of the slice, and a panic (the \<open>unwrap\<close>) should \<open>choose\<close> return nothing.\<close>

definition header_arbitrary :: "('g, 'z) gen_ops_scheme \<Rightarrow> 'g \<Rightarrow> (header \<times> 'g) run" where
  "header_arbitrary ops g = do {
     let (tag, g) = g_choose ops [Data, WindowUpdate, Ping, GoAway] g;
     tag \<leftarrow> tag;
     let (flags, g) = g_u16 ops g;
     let (sid, g) = g_u32 ops g;
     let (len, g) = g_u32 ops g;
     Some (\<lparr>hdr_version = 0, hdr_tag = tag, hdr_flags = flags, hdr_stream_id = sid, hdr_length = len\<rparr>, g) }"

definition header_property :: "header \<Rightarrow> bool" where
  "header_property hdr = (case decode (encode hdr) of Ok x \<Rightarrow> x = hdr | Err e \<Rightarrow> False)"

text \<open>\<open>rnd n\<close> stands for the \<open>n\<close> bytes \<open>fill_bytes\<close> of the \<open>rand\<close> crate puts in the body.\<close>

definition frame_arbitrary ::
    "('g, 'z) gen_ops_scheme \<Rightarrow> (nat \<Rightarrow> bytes) \<Rightarrow> 'g \<Rightarrow> (frame \<times> 'g) run" where
  "frame_arbitrary ops rnd g = do {
     (header, g) \<leftarrow> header_arbitrary ops g;
     if hdr_tag header = Data then
       (let header = header\<lparr>hdr_length := hdr_length header mod 4096\<rparr> in
        Some (\<lparr>fr_header = header, fr_body = rnd (unat (hdr_length header))\<rparr>, g))
     else Some (\<lparr>fr_header = header, fr_body = []\<rparr>, g) }"

record tcp_buffer_sizes =
  tcp_send :: u32
  tcp_recv :: u32

definition tcp_buffer_sizes_arbitrary :: "('g, 'z) gen_ops_scheme \<Rightarrow> 'g \<Rightarrow> tcp_buffer_sizes \<times> 'g" where
  "tcp_buffer_sizes_arbitrary ops g =
     (let (b, g) = g_bool ops g; send = (if b then 16 * 1024 else 32 * 1024);
          (b, g) = g_bool ops g; recv = (if b then send * 2 else send * 4)
      in (\<lparr>tcp_send = send, tcp_recv = recv\<rparr>, g))"

type_synonym msg = bytes

definition msg_arbitrary :: "('g, 'z) gen_ops_scheme \<Rightarrow> 'g \<Rightarrow> msg \<times> 'g" where
  "msg_arbitrary ops g =
     (let (msg, g) = g_bytes ops g in
      if msg = [] then (let (b, g) = g_u8 ops g in (msg @ [b], g)) else (msg, g))"

text \<open>\<open>shrinks\<close> is what \<open>shrink\<close> of the byte vector yields.\<close>

definition msg_shrink :: "(bytes \<Rightarrow> bytes list) \<Rightarrow> msg \<Rightarrow> msg list" where
  "msg_shrink shrinks msg = filter (\<lambda>v. v \<noteq> []) (shrinks msg)"

text \<open>Messages are never empty, generated or shrunk.\<close>

lemma messages_not_empty: "fst (msg_arbitrary ops g) \<noteq> []" "m \<in> set (msg_shrink shrinks msg) \<Longrightarrow> m \<noteq> []"
  by (auto simp: msg_arbitrary_def msg_shrink_def split: prod.splits)

text \<open>The receive buffer holds at least two send buffers and no product wraps.\<close>

lemma tcp_buffer_sizes_in:
  "let t = fst (tcp_buffer_sizes_arbitrary ops g) in
     unat (tcp_recv t) \<in> {2 * unat (tcp_send t), 4 * unat (tcp_send t)} \<and> unat (tcp_recv t) \<le> 131072"
  by (auto simp: tcp_buffer_sizes_arbitrary_def split: prod.splits)

text \<open>
  What the two codec tests check holds for every header and for every frame they can draw: headers
  survive \<open>encode\<close> and \<open>decode\<close>, and frames satisfy the conditions of the round trip through \<open>Io\<close>.
\<close>

lemma header_arbitrary_ok:
  assumes "\<And>xs g. xs \<noteq> [] \<Longrightarrow> fst (g_choose ops xs g) \<in> Some ` set xs"
  shows "\<exists>h g'. header_arbitrary ops g = Some (h, g') \<and> hdr_version h = 0 \<and> header_property h"
proof -
  obtain t g1 where t: "g_choose ops [Data, WindowUpdate, Ping, GoAway] g = (Some t, g1)"
    using assms [of "[Data, WindowUpdate, Ping, GoAway]" g] by (metis image_iff list.distinct(1) prod.collapse)
  obtain f g2 where f: "g_u16 ops g1 = (f, g2)"
    by (rule prod.exhaust)
  obtain i g3 where i: "g_u32 ops g2 = (i, g3)"
    by (rule prod.exhaust)
  obtain l g4 where l: "g_u32 ops g3 = (l, g4)"
    by (rule prod.exhaust)
  let ?h = "\<lparr>hdr_version = 0, hdr_tag = t, hdr_flags = f, hdr_stream_id = i, hdr_length = l\<rparr>"
  have "header_arbitrary ops g = Some (?h, g4)"
    using t f i l by (simp add: header_arbitrary_def)
  moreover have "header_property ?h"
    by (simp add: header_property_def hdr.dec_enc)
  ultimately show ?thesis by auto
qed

lemma frame_arbitrary_ok:
  assumes "\<And>xs g. xs \<noteq> [] \<Longrightarrow> fst (g_choose ops xs g) \<in> Some ` set xs" and "\<And>n. length (rnd n) = n"
  shows "\<exists>f g'. frame_arbitrary ops rnd g = Some (f, g') \<and> frame_ok f \<and> length (fr_body f) \<le> MAX_FRAME_BODY_LEN"
proof -
  obtain h g' where h: "header_arbitrary ops g = Some (h, g')" "hdr_version h = 0"
    using header_arbitrary_ok [OF assms(1)] by blast
  have "unat (hdr_length h mod 4096) < 4096"
    using unat_mod [of "hdr_length h" 4096] by simp
  with h assms(2) show ?thesis
    by (simp add: frame_arbitrary_def Let_def frame_ok_def MAX_FRAME_BODY_LEN_eq)
qed

end
