(* ===== verification/Harness.thy ===== *)
theory Harness
  imports Connection_Life Generators
begin

text \<open>
  The drivers of the test harness (\<^verbatim>\<open>test-harness/src/lib.rs\<close>): \<open>MessageSender\<close>, \<open>EchoServer\<close> and
  \<open>OpenStreamsClient\<close>, futures that drive a connection and a set of workers on its streams. The set,
  \<open>FuturesUnordered\<close>, and the \<open>async\<close> blocks in it belong to the \<open>futures\<close> and \<open>tokio\<close> crates: they are
  a parameter, the record \<open>pool_ops\<close>, whose operations see the connection because the workers call the
  handles of its streams. The drivers' own \<open>panic!\<close>s are values, so that \<open>None\<close> means that a loop does
  not end or that the model of the connection or of a worker panics.
\<close>

datatype 'a outcome = Answer 'a | Panicked

datatype message_sender_strategy = SendRecv | Send

text \<open>The \<open>async\<close> blocks, as the values they capture.\<close>

datatype task =
  Send_Task (task_stream: stream) (task_message: msg) (task_multiplier: nat)
    (task_strategy: message_sender_strategy) (task_spawned: bool)
| Echo_Task (task_stream: stream)

record ('io, 'ch, 'p, 'o) pool_ops =
  pl_new :: 'p
  pl_push :: "task \<Rightarrow> 'p \<Rightarrow> 'p"
  pl_is_empty :: "'p \<Rightarrow> bool"
  pl_poll_next :: "waker \<Rightarrow> 'p \<Rightarrow> ('io, 'ch) connection \<Rightarrow> ('o option poll \<times> 'p \<times> ('io, 'ch) connection) run"

subsection \<open>MessageSender\<close>

record ('io, 'ch, 'p) message_sender =
  ms_connection :: "('io, 'ch) connection"
  ms_pending_messages :: "msg list"
  ms_worker_streams :: 'p
  ms_streams_processed :: usize
  ms_spawn_tasks :: bool
  ms_message_multiplier :: nat
  ms_strategy :: message_sender_strategy

definition message_sender_new ::
    "('io, 'ch, 'p, unit) pool_ops \<Rightarrow> ('io, 'ch) connection \<Rightarrow> msg list \<Rightarrow> bool \<Rightarrow> ('io, 'ch, 'p) message_sender" where
  "message_sender_new pool c messages spawn =
     \<lparr>ms_connection = c, ms_pending_messages = messages, ms_worker_streams = pl_new pool, ms_streams_processed = 0,
      ms_spawn_tasks = spawn, ms_message_multiplier = 1, ms_strategy = SendRecv\<rparr>"

definition with_message_multiplier :: "nat \<Rightarrow> ('io, 'ch, 'p) message_sender \<Rightarrow> ('io, 'ch, 'p) message_sender" where
  "with_message_multiplier n s = s\<lparr>ms_message_multiplier := n\<rparr>"

definition with_strategy :: "message_sender_strategy \<Rightarrow> ('io, 'ch, 'p) message_sender \<Rightarrow> ('io, 'ch, 'p) message_sender" where
  "with_strategy st s = s\<lparr>ms_strategy := st\<rparr>"

text \<open>The end of a round: the workers, then the connection.\<close>

definition sender_work ::
    "('io, 'ch) env \<Rightarrow> ('io, 'ch, 'p, unit) pool_ops \<Rightarrow> waker \<Rightarrow> ('io, 'ch, 'p) message_sender \<Rightarrow>
       ((usize, connection_error) result poll outcome, ('io, 'ch, 'p) message_sender) flow run" where
  "sender_work env pool cx s = do {
     (r, p, c) \<leftarrow> pl_poll_next pool cx (ms_worker_streams s) (ms_connection s);
     let s = s\<lparr>ms_worker_streams := p, ms_connection := c\<rparr>;
     (case r of
        Ready (Some _) \<Rightarrow> do {
          n \<leftarrow> uadd (ms_streams_processed s) 1;
          Some (Continue (s\<lparr>ms_streams_processed := n\<rparr>)) }
      | _ \<Rightarrow> do {
          (r, c) \<leftarrow> poll_next_inbound env cx (ms_connection s);
          let s = s\<lparr>ms_connection := c\<rparr>;
          Some (case r of
             Ready (Some (Err e)) \<Rightarrow> Return (Answer (Ready (Err e))) s
           | Ready (Some (Ok _)) \<Rightarrow> Return Panicked s
           | Ready None \<Rightarrow> Return Panicked s
           | Pending \<Rightarrow> Return (Answer Pending) s) }) }"

definition message_sender_step ::
    "('io, 'ch) env \<Rightarrow> ('io, 'ch, 'p, unit) pool_ops \<Rightarrow> waker \<Rightarrow> ('io, 'ch, 'p) message_sender \<Rightarrow>
       ((usize, connection_error) result poll outcome, ('io, 'ch, 'p) message_sender) flow run" where
  "message_sender_step env pool cx s =
     (if ms_pending_messages s = [] \<and> pl_is_empty pool (ms_worker_streams s) then do {
        (r, c) \<leftarrow> poll_close env cx (ms_connection s);
        let s = s\<lparr>ms_connection := c\<rparr>;
        Some (case r of
           Ready (Err e) \<Rightarrow> Return (Answer (Ready (Err e))) s
         | Pending \<Rightarrow> Return (Answer Pending) s
         | Ready (Ok _) \<Rightarrow> Return (Answer (Ready (Ok (ms_streams_processed s)))) s) }
      else if ms_pending_messages s = [] then sender_work env pool cx s
      else
        (let message = last (ms_pending_messages s); s = s\<lparr>ms_pending_messages := butlast (ms_pending_messages s)\<rparr> in do {
           (r, c) \<leftarrow> poll_new_outbound env cx (ms_connection s);
           let s = s\<lparr>ms_connection := c\<rparr>;
           (case r of
              Ready (Err e) \<Rightarrow> Some (Return (Answer (Ready (Err e))) s)
            | Ready (Ok st) \<Rightarrow>
                Some (Continue (s\<lparr>ms_worker_streams := pl_push pool
                  (Send_Task st message (ms_message_multiplier s) (ms_strategy s) (ms_spawn_tasks s)) (ms_worker_streams s)\<rparr>))
            | Pending \<Rightarrow> sender_work env pool cx (s\<lparr>ms_pending_messages := ms_pending_messages s @ [message]\<rparr>)) }))"

definition message_sender_poll ::
    "('io, 'ch) env \<Rightarrow> ('io, 'ch, 'p, unit) pool_ops \<Rightarrow> waker \<Rightarrow> ('io, 'ch, 'p) message_sender \<Rightarrow>
       ((usize, connection_error) result poll outcome \<times> ('io, 'ch, 'p) message_sender) run" where
  "message_sender_poll env pool cx = run_loop (message_sender_step env pool cx)"

subsection \<open>EchoServer\<close>

record ('io, 'ch, 'p) echo_server =
  es_connection :: "('io, 'ch) connection"
  es_worker_streams :: 'p
  es_streams_processed :: usize
  es_connection_closed :: bool

definition echo_server_new ::
    "('io, 'ch, 'p, (unit, connection_error) result) pool_ops \<Rightarrow> ('io, 'ch) connection \<Rightarrow> ('io, 'ch, 'p) echo_server" where
  "echo_server_new pool c =
     \<lparr>es_connection = c, es_worker_streams = pl_new pool, es_streams_processed = 0, es_connection_closed = False\<rparr>"

definition echo_accept ::
    "('io, 'ch) env \<Rightarrow> ('io, 'ch, 'p, (unit, connection_error) result) pool_ops \<Rightarrow> waker \<Rightarrow> ('io, 'ch, 'p) echo_server \<Rightarrow>
       ((usize, connection_error) result poll, ('io, 'ch, 'p) echo_server) flow run" where
  "echo_accept env pool cx s = do {
     (r, c) \<leftarrow> poll_next_inbound env cx (es_connection s);
     let s = s\<lparr>es_connection := c\<rparr>;
     Some (case r of
        Ready (Some (Ok st)) \<Rightarrow> Continue (s\<lparr>es_worker_streams := pl_push pool (Echo_Task st) (es_worker_streams s)\<rparr>)
      | Ready None \<Rightarrow> Continue (s\<lparr>es_connection_closed := True\<rparr>)
      | Ready (Some (Err _)) \<Rightarrow> Continue (s\<lparr>es_connection_closed := True\<rparr>)
      | Pending \<Rightarrow> Return Pending s) }"

definition echo_server_step ::
    "('io, 'ch) env \<Rightarrow> ('io, 'ch, 'p, (unit, connection_error) result) pool_ops \<Rightarrow> waker \<Rightarrow> ('io, 'ch, 'p) echo_server \<Rightarrow>
       ((usize, connection_error) result poll, ('io, 'ch, 'p) echo_server) flow run" where
  "echo_server_step env pool cx s = do {
     (r, p, c) \<leftarrow> pl_poll_next pool cx (es_worker_streams s) (es_connection s);
     let s = s\<lparr>es_worker_streams := p, es_connection := c\<rparr>;
     (case r of
        Ready (Some (Ok _)) \<Rightarrow> do {
          n \<leftarrow> uadd (es_streams_processed s) 1;
          Some (Continue (s\<lparr>es_streams_processed := n\<rparr>)) }
      | Ready (Some (Err _)) \<Rightarrow> Some (Continue s)
      | Ready None \<Rightarrow>
          if es_connection_closed s then Some (Return (Ready (Ok (es_streams_processed s))) s)
          else echo_accept env pool cx s
      | Pending \<Rightarrow> echo_accept env pool cx s) }"

definition echo_server_poll ::
    "('io, 'ch) env \<Rightarrow> ('io, 'ch, 'p, (unit, connection_error) result) pool_ops \<Rightarrow> waker \<Rightarrow> ('io, 'ch, 'p) echo_server \<Rightarrow>
       ((usize, connection_error) result poll \<times> ('io, 'ch, 'p) echo_server) run" where
  "echo_server_poll env pool cx = run_loop (echo_server_step env pool cx)"

subsection \<open>OpenStreamsClient\<close>

record ('io, 'ch) open_streams_client =
  oc_connection :: "('io, 'ch) connection option"
  oc_streams :: "stream list"
  oc_to_open :: usize

definition open_streams_client_new :: "('io, 'ch) connection \<Rightarrow> usize \<Rightarrow> ('io, 'ch) open_streams_client" where
  "open_streams_client_new c n = \<lparr>oc_connection = Some c, oc_streams = [], oc_to_open = n\<rparr>"

text \<open>The end of a round: the connection and the streams are handed over once there are enough.\<close>

definition open_streams_check ::
    "('io, 'ch) open_streams_client \<Rightarrow>
       ((('io, 'ch) connection \<times> stream list, connection_error) result poll outcome, ('io, 'ch) open_streams_client) flow run" where
  "open_streams_check s =
     (if length (oc_streams s) = oc_to_open s then do {
        c \<leftarrow> oc_connection s;
        Some (Return (Answer (Ready (Ok (c, oc_streams s)))) (s\<lparr>oc_connection := None, oc_streams := []\<rparr>)) }
      else Some (Return (Answer Pending) s))"

definition open_streams_step ::
    "('io, 'ch) env \<Rightarrow> waker \<Rightarrow> ('io, 'ch) open_streams_client \<Rightarrow>
       ((('io, 'ch) connection \<times> stream list, connection_error) result poll outcome, ('io, 'ch) open_streams_client) flow run" where
  "open_streams_step env cx s = do {
     c \<leftarrow> oc_connection s;
     (r, c) \<leftarrow> poll_next_inbound env cx c;
     let s = s\<lparr>oc_connection := Some c\<rparr>;
     (case r of
        Ready (Some (Err e)) \<Rightarrow> Some (Return (Answer (Ready (Err e))) s)
      | Ready _ \<Rightarrow> Some (Return Panicked s)
      | Pending \<Rightarrow>
          if length (oc_streams s) < oc_to_open s then do {
            (r, c) \<leftarrow> poll_new_outbound env cx c;
            let s = s\<lparr>oc_connection := Some c\<rparr>;
            (case r of
               Ready (Err e) \<Rightarrow> Some (Return (Answer (Ready (Err e))) s)
             | Ready (Ok st) \<Rightarrow> Some (Continue (s\<lparr>oc_streams := oc_streams s @ [st]\<rparr>))
             | Pending \<Rightarrow> open_streams_check s) }
          else open_streams_check s) }"

definition open_streams_poll ::
    "('io, 'ch) env \<Rightarrow> waker \<Rightarrow> ('io, 'ch) open_streams_client \<Rightarrow>
       ((('io, 'ch) connection \<times> stream list, connection_error) result poll outcome \<times> ('io, 'ch) open_streams_client) run" where
  "open_streams_poll env cx = run_loop (open_streams_step env cx)"

subsection \<open>What the drivers rely on, and what they do\<close>

lemma conn_run_trans: "conn_run env c evs' c' \<Longrightarrow> conn_run env c0 evs c \<Longrightarrow> conn_run env c0 (evs @ evs') c'"
proof (induction rule: conn_run.induct)
  case start
  then show ?case by simp
qed (auto simp flip: append_assoc intro: conn_run.intros)

text \<open>The connection after calls on its handles only, and after any calls.\<close>

definition touched :: "('io, 'ch) env \<Rightarrow> ('io, 'ch) connection \<Rightarrow> ('io, 'ch) connection \<Rightarrow> bool" where
  "touched env c c' \<longleftrightarrow> (\<exists>evs. conn_run env c evs c' \<and> set evs \<subseteq> {Handle_Call})"

definition driven :: "('io, 'ch) env \<Rightarrow> ('io, 'ch) connection \<Rightarrow> ('io, 'ch) connection \<Rightarrow> bool" where
  "driven env c c' \<longleftrightarrow> (\<exists>evs. conn_run env c evs c')"

lemma driven_refl: "driven env c c"
  unfolding driven_def by (blast intro: conn_run.start)

lemma driven_call:
  assumes "driven env c0 c"
  shows "poll_new_outbound env cx c = Some (o', c') \<Longrightarrow> driven env c0 c'"
    and "poll_next_inbound env cx c = Some (i, c') \<Longrightarrow> driven env c0 c'"
    and "poll_close env cx c = Some (cl, c') \<Longrightarrow> driven env c0 c'"
    and "touched env c c' \<Longrightarrow> driven env c0 c'"
  using assms unfolding driven_def touched_def
  by (blast intro: conn_run.outbound conn_run.inbound conn_run.close conn_run_trans)+

text \<open>
  The contract of the set of workers: it counts what was pushed and not yet finished, a poll finishes
  at most one worker and is over exactly when there is none, and it acts on the connection through
  the handles of its streams only. A worker that panics breaks the contract.
\<close>

locale worker_pool = duplex_env +
  fixes pool :: "('a, 'b, 'p, 'o) pool_ops"
    and workers :: "'p \<Rightarrow> nat"
  assumes workers_new: "workers (pl_new pool) = 0"
    and workers_push: "workers (pl_push pool t p) = Suc (workers p)"
    and workers_empty: "pl_is_empty pool p \<longleftrightarrow> workers p = 0"
    and workers_poll: "conn_ok cfg queued (inner c) \<Longrightarrow> at_rest (inner c) \<Longrightarrow>
      \<exists>r p' c'. pl_poll_next pool cx p c = Some (r, p', c') \<and> touched env c c'
        \<and> (case r of Ready (Some _) \<Rightarrow> workers p = Suc (workers p')
             | Ready None \<Rightarrow> workers p = 0 \<and> workers p' = 0
             | Pending \<Rightarrow> workers p' = workers p)"

text \<open>Every stream a sender has to process is a message, a worker, or done.\<close>

definition sender_total :: "('p \<Rightarrow> nat) \<Rightarrow> ('io, 'ch, 'p) message_sender \<Rightarrow> nat" where
  "sender_total workers s =
     length (ms_pending_messages s) + workers (ms_worker_streams s) + ms_streams_processed s"

fun sender_answer_ok ::
    "('p \<Rightarrow> nat) \<Rightarrow> nat \<Rightarrow> (usize, connection_error) result poll outcome \<Rightarrow> ('io, 'ch, 'p) message_sender \<Rightarrow> bool" where
  "sender_answer_ok workers tot (Answer (Ready (Ok n))) s \<longleftrightarrow>
     n = tot \<and> ms_pending_messages s = [] \<and> workers (ms_worker_streams s) = 0 \<and> phase (inner (ms_connection s)) = LClosed"
| "sender_answer_ok workers tot (Answer (Ready (Err e))) s \<longleftrightarrow> phase (inner (ms_connection s)) = LClosed"
| "sender_answer_ok workers tot (Answer Pending) s \<longleftrightarrow> sender_total workers s = tot"
| "sender_answer_ok workers tot Panicked s \<longleftrightarrow> sender_total workers s = tot"

context worker_pool
begin

lemma touched_ok:
  assumes "touched env c c'" and "ok_conn cfg c" and "at_rest (inner c)"
  shows "ok_conn cfg c' \<and> at_rest (inner c')"
  using assms conn_run_ok by (auto simp: touched_def)

end

text \<open>The workers of a sender return nothing.\<close>

locale message_pool = worker_pool env out inp queued ends pool workers
  for env :: "('a, 'b) env" and out inp queued ends and pool :: "('a, 'b, 'p, unit) pool_ops" and workers
begin

definition sender_inv :: "config \<Rightarrow> ('a, 'b) connection \<Rightarrow> nat \<Rightarrow> ('a, 'b, 'p) message_sender \<Rightarrow> bool" where
  "sender_inv cfg c0 tot s \<longleftrightarrow> driven env c0 (ms_connection s) \<and> ok_conn cfg (ms_connection s)
     \<and> at_rest (inner (ms_connection s)) \<and> sender_total workers s = tot"

abbreviation sender_flow_ok ::
    "config \<Rightarrow> ('a, 'b) connection \<Rightarrow> nat \<Rightarrow> ('a, 'b, 'p) message_sender \<Rightarrow>
      ((usize, connection_error) result poll outcome, ('a, 'b, 'p) message_sender) flow \<Rightarrow> bool" where
  "sender_flow_ok cfg c0 tot s x \<equiv>
     (case x of
        Return r t \<Rightarrow> driven env c0 (ms_connection t) \<and> ok_conn cfg (ms_connection t)
          \<and> at_rest (inner (ms_connection t)) \<and> sender_answer_ok workers tot r t
      | Continue t \<Rightarrow> sender_inv cfg c0 tot t
          \<and> 2 * length (ms_pending_messages t) + workers (ms_worker_streams t)
            < 2 * length (ms_pending_messages s) + workers (ms_worker_streams s))"

lemma sender_work_ok:
  assumes "sender_inv cfg c0 tot s" and "tot \<le> usize_max"
  shows "\<exists>x. sender_work env pool cx s = Some x \<and> sender_flow_ok cfg c0 tot s x"
proof -
  have s: "driven env c0 (ms_connection s)" "ok_conn cfg (ms_connection s)" "at_rest (inner (ms_connection s))"
    "sender_total workers s = tot"
    using assms(1) by (simp_all add: sender_inv_def)
  obtain r p c where w: "pl_poll_next pool cx (ms_worker_streams s) (ms_connection s) = Some (r, p, c)"
    "touched env (ms_connection s) c"
    "case r of Ready (Some _) \<Rightarrow> workers (ms_worker_streams s) = Suc (workers p)
       | Ready None \<Rightarrow> workers (ms_worker_streams s) = 0 \<and> workers p = 0
       | Pending \<Rightarrow> workers p = workers (ms_worker_streams s)"
    using workers_poll [OF s(2,3)] by blast
  have c: "driven env c0 c" "ok_conn cfg c" "at_rest (inner c)"
    using driven_call(4) [OF s(1) w(2)] touched_ok [OF w(2) s(2,3)] by blast+
  show ?thesis
  proof (cases "\<exists>u. r = Ready (Some u)")
    case True
    then have "workers (ms_worker_streams s) = Suc (workers p)"
      using w(3) by auto
    with True w(1) c s(4) assms(2) show ?thesis
      by (auto simp: sender_work_def uadd_def sender_inv_def sender_total_def)
  next
    case False
    then have r: "r = Pending \<or> r = Ready None"
      by (metis not_None_eq poll.exhaust)
    then have p: "workers p = workers (ms_worker_streams s)"
      using w(3) by auto
    obtain r' c' where i: "poll_next_inbound env cx c = Some (r', c')" "ok_conn cfg c'" "at_rest (inner c')"
      "life_step (phase (inner c)) (Inbound r') (phase (inner c'))"
      using poll_next_inbound_total [OF c(2,3), of cx] by blast
    have closed: "phase (inner c') = LClosed" if "r' = Ready (Some (Err e))" for e
      using final_closes [OF i(4)] that by (simp add: final_answer_def)
    let ?t = "s\<lparr>ms_worker_streams := p, ms_connection := c'\<rparr>"
    have "sender_work env pool cx s = Some (case r' of
        Ready (Some (Err e)) \<Rightarrow> Return (Answer (Ready (Err e))) ?t
      | Ready (Some (Ok _)) \<Rightarrow> Return Panicked ?t
      | Ready None \<Rightarrow> Return Panicked ?t
      | Pending \<Rightarrow> Return (Answer Pending) ?t)"
      using w(1) i(1) r by (elim disjE) (simp_all add: sender_work_def Let_def)
    moreover have "sender_total workers ?t = tot"
      using s(4) p by (simp add: sender_total_def)
    ultimately show ?thesis
      using driven_call(2) [OF c(1) i(1)] i(2,3) closed by (auto split: poll.splits option.splits result.splits)
  qed
qed

lemma message_sender_step_ok:
  assumes "sender_inv cfg c0 tot s" and "tot \<le> usize_max"
  shows "\<exists>x. message_sender_step env pool cx s = Some x \<and> sender_flow_ok cfg c0 tot s x"
proof -
  have s: "driven env c0 (ms_connection s)" "ok_conn cfg (ms_connection s)" "at_rest (inner (ms_connection s))"
    "sender_total workers s = tot"
    using assms(1) by (simp_all add: sender_inv_def)
  consider (finished) "ms_pending_messages s = []" "workers (ms_worker_streams s) = 0"
    | (work) "ms_pending_messages s = []" "workers (ms_worker_streams s) \<noteq> 0"
    | (more) ms m where "ms_pending_messages s = ms @ [m]"
    by (cases "ms_pending_messages s" rule: rev_cases) auto
  then show ?thesis
  proof cases
    case finished
    obtain r c where c: "poll_close env cx (ms_connection s) = Some (r, c)" "ok_conn cfg c" "at_rest (inner c)"
      "life_step (phase (inner (ms_connection s))) (Closing_Call r) (phase (inner c))"
      using conn_poll_close_total [OF s(2,3), of cx] by blast
    have closed: "phase (inner c) = LClosed" if "r = Ready x" for x
      using final_closes [OF c(4)] that by (simp add: final_answer_def)
    show ?thesis
      using finished c(1-3) closed driven_call(3) [OF s(1) c(1)] s(4)
      by (auto simp: message_sender_step_def workers_empty sender_total_def Let_def split: poll.splits result.splits)
  next
    case work
    then have "message_sender_step env pool cx s = sender_work env pool cx s"
      by (simp add: message_sender_step_def workers_empty)
    with sender_work_ok [OF assms, of cx] show ?thesis by simp
  next
    case (more ms m)
    obtain r c where c: "poll_new_outbound env cx (ms_connection s) = Some (r, c)" "ok_conn cfg c" "at_rest (inner c)"
      "life_step (phase (inner (ms_connection s))) (Outbound r) (phase (inner c))"
      using poll_new_outbound_total [OF s(2,3), of cx] by blast
    note d = driven_call(1) [OF s(1) c(1)]
    show ?thesis
    proof (cases r)
      case Pending
      let ?s = "s\<lparr>ms_connection := c, ms_pending_messages := ms @ [m]\<rparr>"
      have "message_sender_step env pool cx s = sender_work env pool cx ?s"
        using more c(1) Pending by (simp add: message_sender_step_def Let_def)
      moreover have "sender_inv cfg c0 tot ?s"
        using more d c(2,3) s(4) by (simp add: sender_inv_def sender_total_def)
      from sender_work_ok [OF this assms(2), of cx] obtain x where
        "sender_work env pool cx ?s = Some x" "sender_flow_ok cfg c0 tot ?s x"
        by blast
      ultimately show ?thesis
        using more by (cases x) simp_all
    next
      case (Ready x)
      have closed: "phase (inner c) = LClosed" if "x = Err e" for e
        using final_closes [OF c(4)] that Ready by (simp add: final_answer_def)
      show ?thesis
        using more c(1-3) Ready closed d s(4)
        by (cases x) (auto simp: message_sender_step_def Let_def sender_inv_def sender_total_def workers_push)
    qed
  qed
qed

lemma message_sender_poll_ok:
  assumes "sender_inv cfg c0 tot s" and "tot \<le> usize_max"
  shows "\<exists>r t. message_sender_poll env pool cx s = Some (r, t) \<and> driven env c0 (ms_connection t)
    \<and> ok_conn cfg (ms_connection t) \<and> at_rest (inner (ms_connection t)) \<and> sender_answer_ok workers tot r t"
  unfolding message_sender_poll_def
proof (rule run_loop_total [where I = "sender_inv cfg c0 tot"
      and m = "\<lambda>s. 2 * length (ms_pending_messages s) + workers (ms_worker_streams s)"])
  show "sender_inv cfg c0 tot s"
    by (rule assms(1))
qed (use message_sender_step_ok [OF _ assms(2), of cfg c0 _ cx] in fastforce)+

end

text \<open>What a client that opens streams may answer.\<close>

fun client_answer_ok ::
    "config \<Rightarrow> ('ch \<Rightarrow> stream_command multiset) \<Rightarrow> nat \<Rightarrow> ('io, 'ch) env \<Rightarrow> ('io, 'ch) connection \<Rightarrow>
      (('io, 'ch) connection \<times> stream list, connection_error) result poll outcome \<Rightarrow> ('io, 'ch) open_streams_client \<Rightarrow> bool" where
  "client_answer_ok cfg queued n env c0 (Answer (Ready (Ok (c, sts)))) s \<longleftrightarrow>
     length sts = n \<and> driven env c0 c \<and> conn_ok cfg queued (inner c) \<and> oc_connection s = None \<and> oc_streams s = []"
| "client_answer_ok cfg queued n env c0 (Answer (Ready (Err e))) s \<longleftrightarrow>
     (\<exists>c. oc_connection s = Some c \<and> driven env c0 c \<and> phase (inner c) = LClosed)"
| "client_answer_ok cfg queued n env c0 (Answer Pending) s \<longleftrightarrow>
     (\<exists>c. oc_connection s = Some c \<and> driven env c0 c \<and> conn_ok cfg queued (inner c) \<and> at_rest (inner c))
     \<and> length (oc_streams s) < n"
| "client_answer_ok cfg queued n env c0 Panicked s \<longleftrightarrow> (\<exists>c. oc_connection s = Some c \<and> driven env c0 c)"

context duplex_env
begin

definition client_inv :: "config \<Rightarrow> ('a, 'b) connection \<Rightarrow> nat \<Rightarrow> ('a, 'b) open_streams_client \<Rightarrow> bool" where
  "client_inv cfg c0 n s \<longleftrightarrow> oc_to_open s = n \<and> length (oc_streams s) \<le> n
     \<and> (\<exists>c. oc_connection s = Some c \<and> driven env c0 c \<and> ok_conn cfg c \<and> at_rest (inner c))"

lemma open_streams_check_ok:
  assumes "client_inv cfg c0 n s"
  shows "\<exists>r t. open_streams_check s = Some (Return r t) \<and> client_answer_ok cfg queued n env c0 r t"
  using assms by (auto simp: client_inv_def open_streams_check_def)

lemma open_streams_step_ok:
  assumes "client_inv cfg c0 n s"
  shows "\<exists>x. open_streams_step env cx s = Some x \<and>
    (case x of Return r t \<Rightarrow> client_answer_ok cfg queued n env c0 r t
     | Continue t \<Rightarrow> client_inv cfg c0 n t \<and> n - length (oc_streams t) < n - length (oc_streams s))"
proof -
  obtain c where c: "oc_connection s = Some c" "driven env c0 c" "ok_conn cfg c" "at_rest (inner c)"
    and n: "oc_to_open s = n" "length (oc_streams s) \<le> n"
    using assms by (auto simp: client_inv_def)
  obtain r c1 where i: "poll_next_inbound env cx c = Some (r, c1)" "ok_conn cfg c1" "at_rest (inner c1)"
    "life_step (phase (inner c)) (Inbound r) (phase (inner c1))"
    using poll_next_inbound_total [OF c(3,4), of cx] by blast
  note d1 = driven_call(2) [OF c(2) i(1)]
  let ?s1 = "s\<lparr>oc_connection := Some c1\<rparr>"
  have inv1: "client_inv cfg c0 n ?s1"
    using n d1 i(2,3) by (simp add: client_inv_def)
  show ?thesis
  proof (cases r)
    case (Ready x)
    have "phase (inner c1) = LClosed" if "x = Some (Err e)" for e
      using final_closes [OF i(4)] that Ready by (simp add: final_answer_def)
    with Ready c(1) i(1) d1 show ?thesis
      by (cases x) (auto simp: open_streams_step_def Let_def split: result.splits)
  next
    case Pending
    show ?thesis
    proof (cases "length (oc_streams s) < n")
      case False
      with Pending c(1) i(1) n open_streams_check_ok [OF inv1] show ?thesis
        by (auto simp: open_streams_step_def)
    next
      case True
      obtain q c2 where o': "poll_new_outbound env cx c1 = Some (q, c2)" "ok_conn cfg c2" "at_rest (inner c2)"
        "life_step (phase (inner c1)) (Outbound q) (phase (inner c2))"
        using poll_new_outbound_total [OF i(2,3), of cx] by blast
      note d2 = driven_call(1) [OF d1 o'(1)]
      have closed: "phase (inner c2) = LClosed" if "q = Ready (Err e)" for e
        using final_closes [OF o'(4)] that by (simp add: final_answer_def)
      have inv2: "client_inv cfg c0 n (?s1\<lparr>oc_connection := Some c2\<rparr>)"
        using n d2 o'(2,3) by (simp add: client_inv_def)
      have step: "open_streams_step env cx s = (let s = ?s1\<lparr>oc_connection := Some c2\<rparr> in
          case q of
            Ready (Err e) \<Rightarrow> Some (Return (Answer (Ready (Err e))) s)
          | Ready (Ok st) \<Rightarrow> Some (Continue (s\<lparr>oc_streams := oc_streams s @ [st]\<rparr>))
          | Pending \<Rightarrow> open_streams_check s)"
        using Pending c(1) i(1) n True o'(1) by (simp add: open_streams_step_def Let_def)
      show ?thesis
      proof (cases q)
        case Pending
        with step open_streams_check_ok [OF inv2] show ?thesis by auto
      next
        case (Ready x)
        with step closed d2 o'(2,3) n True show ?thesis
          by (cases x) (auto simp: Let_def client_inv_def)
      qed
    qed
  qed
qed

lemma open_streams_poll_ok:
  assumes "client_inv cfg c0 n s"
  shows "\<exists>r t. open_streams_poll env cx s = Some (r, t) \<and> client_answer_ok cfg queued n env c0 r t"
  unfolding open_streams_poll_def
proof (rule run_loop_total [where I = "client_inv cfg c0 n" and m = "\<lambda>s. n - length (oc_streams s)"])
  show "client_inv cfg c0 n s"
    by (rule assms)
qed (use open_streams_step_ok [of cfg c0 n _ cx] in fastforce)+

end

text \<open>A new client: the conditions of the invariant in terms of the connection.\<close>

lemma open_streams_client_ok:
  assumes "duplex_env env out inp queued ends" and "conn_ok cfg queued (inner c)" and "at_rest (inner c)"
  shows "\<exists>r t. open_streams_poll env cx (open_streams_client_new c n) = Some (r, t) \<and> client_answer_ok cfg queued n env c r t"
  using duplex_env.open_streams_poll_ok [OF assms(1), of cfg c n "open_streams_client_new c n" cx] assms(2,3) driven_refl
  by (fastforce simp: duplex_env.client_inv_def [OF assms(1)] open_streams_client_new_def)

subsection \<open>The echo server does not yield\<close>

lemma run_loop_diverges:
  assumes "I s" and "\<And>s. I s \<Longrightarrow> \<exists>t. body s = Some (Continue t) \<and> I t"
  shows "run_loop body s = None"
proof (cases "run_loop body s")
  case (Some x)
  obtain r t where "run_loop body s = Some (r, t)"
    using Some by (cases x) simp
  then have False
    using assms(1) by (rule run_loop_rule [where Q = "\<lambda>_ _. False"]) (use assms(2) in fastforce)+
  then show ?thesis ..
qed

text \<open>
  Once its connection is closed, a round of the echo server ends in \<open>continue\<close> whatever it finds: with a worker
  that is pending it goes round for ever instead of returning \<open>Pending\<close> to the executor.
\<close>

lemma echo_server_spins:
  assumes "inner c = CClosed w" and "pl_poll_next pool cx p c = Some (Pending, p, c)"
    and "es_connection s = c" and "es_worker_streams s = p"
  shows "echo_server_poll env pool cx s = None"
  unfolding echo_server_poll_def
proof (rule run_loop_diverges [where I = "\<lambda>s. es_connection s = c \<and> es_worker_streams s = p"])
  fix s :: "('a, 'b, 'c) echo_server"
  assume s: "es_connection s = c \<and> es_worker_streams s = p"
  have "poll_next_inbound env cx c = Some (Ready None, c)"
    unfolding poll_next_inbound_def by (rule run_loop_Return) (simp add: poll_next_inbound_step_def assms(1))
  with s assms(2) show "\<exists>t. echo_server_step env pool cx s = Some (Continue t) \<and> es_connection t = c \<and> es_worker_streams t = p"
    by (simp add: echo_server_step_def echo_accept_def)
qed (simp add: assms)

subsection \<open>A set of workers in order\<close>

text \<open>
  A list of tasks that are polled in turn and finish at once: a sender writes its message to the
  handle of its stream, an echo closes it, if the handle is still there.
\<close>

definition handle_index :: "task \<Rightarrow> ('io, 'ch) connection \<Rightarrow> nat" where
  "handle_index t c = length (takeWhile (\<lambda>st. stm_id st \<noteq> stm_id (task_stream t)) (conn_handles (inner c)))"

fun task_call :: "waker \<Rightarrow> task \<Rightarrow> stream_call" where
  "task_call cx (Send_Task st m n strat sp) = CallWrite cx m"
| "task_call cx (Echo_Task st) = CallClose cx"

definition list_pool :: "('io, 'ch) env \<Rightarrow> 'o \<Rightarrow> ('io, 'ch, task list, 'o) pool_ops" where
  "list_pool env x = \<lparr>pl_new = [], pl_push = (\<lambda>t p. p @ [t]), pl_is_empty = (\<lambda>p. p = []),
     pl_poll_next = (\<lambda>cx p c. case p of
         [] \<Rightarrow> Some (Ready None, [], c)
       | t # p \<Rightarrow> do {
           c \<leftarrow> (if handle_index t c < length (conn_handles (inner c)) then conn_handle_call env (handle_index t c) (task_call cx t) c
                else Some c);
           Some (Ready (Some x), p, c) })\<rparr>"

context duplex_env
begin

lemma list_pool_poll:
  assumes "ok_conn cfg c" and "at_rest (inner c)"
  shows "\<exists>r p' c'. pl_poll_next (list_pool env x) cx p c = Some (r, p', c') \<and> touched env c c'
    \<and> (case r of Ready (Some _) \<Rightarrow> length p = Suc (length p')
         | Ready None \<Rightarrow> length p = 0 \<and> length p' = 0
         | Pending \<Rightarrow> length p' = length p)"
proof (cases p)
  case Nil
  then show ?thesis
    using conn_run.start [of env c] by (fastforce simp: list_pool_def touched_def)
next
  case (Cons t ts)
  have ok: "call_ok (task_call cx t)"
    by (cases t) simp_all
  have idle: "touched env c c"
    using conn_run.start [of env c] by (fastforce simp: touched_def)
  show ?thesis
  proof (cases "handle_index t c < length (conn_handles (inner c))")
    case True
    from conn_handle_total [OF assms True ok] obtain c' where
      c': "conn_handle_call env (handle_index t c) (task_call cx t) c = Some c'"
      by blast
    from conn_run.call [OF conn_run.start True ok this] have "touched env c c'"
      by (fastforce simp: touched_def)
    with True c' Cons show ?thesis by (simp add: list_pool_def)
  next
    case False
    with idle Cons show ?thesis by (simp add: list_pool_def)
  qed
qed

sublocale in_order: message_pool env out inp queued ends "list_pool env ()" length
  by unfold_locales (simp_all add: list_pool_poll, simp_all add: list_pool_def)

end

interpretation test: message_pool test_env pipe_out pipe_in chans_queued chans_ends "list_pool test_env ()" length
  by unfold_locales

subsection \<open>What a sender counts\<close>

text \<open>
  With workers that do not panic, the loop of a \<open>MessageSender\<close> ends, drives the connection only through its
  interface and keeps it well formed. While the answer is pending, the messages waiting, the workers and the
  processed streams add up to the same number; when it is done, that number is reported, no
  worker is left and the connection is closed. An error is reported only with the connection closed. The sender's own
  \<open>panic!\<close> on an inbound stream or at the end of the connection is the answer \<open>Panicked\<close>.
\<close>

lemma message_sender_counts:
  assumes "message_pool env out inp queued ends pool workers" and "conn_ok cfg queued (inner (ms_connection s))"
    and "at_rest (inner (ms_connection s))" and "sender_total workers s \<le> usize_max"
  shows "\<exists>r t. message_sender_poll env pool cx s = Some (r, t) \<and> driven env (ms_connection s) (ms_connection t)
    \<and> conn_ok cfg queued (inner (ms_connection t)) \<and> sender_answer_ok workers (sender_total workers s) r t"
proof -
  have "message_pool.sender_inv env queued workers cfg (ms_connection s) (sender_total workers s) s"
    using assms(2,3) driven_refl by (auto simp: message_pool.sender_inv_def [OF assms(1)])
  from message_pool.message_sender_poll_ok [OF assms(1) this assms(4), of cx] show ?thesis
    by blast
qed

lemma message_sender_counts_example:
  "let s = message_sender_new (list_pool test_env ()) (test_connection default_config) [[1, 2], [3]] False in
   sender_total length s = 2 \<and> (\<exists>r t. message_sender_poll test_env (list_pool test_env ()) 7 s = Some (r, t)
     \<and> driven test_env (test_connection default_config) (ms_connection t) \<and> sender_answer_ok length 2 r t)"
proof -
  let ?s = "message_sender_new (list_pool test_env ()) (test_connection default_config) [[1, 2], [3]] False"
  have "conn_ok default_config chans_queued (inner (test_connection default_config))"
    "at_rest (inner (test_connection default_config))"
    using new_conn_run [OF test.duplex_env_axioms built_config.default no_channels_queued conn_run.start]
    by (simp_all add: test_connection_def)
  then have c: "conn_ok default_config chans_queued (inner (ms_connection ?s))" "at_rest (inner (ms_connection ?s))"
    by (simp_all add: message_sender_new_def)
  have n: "sender_total length ?s = 2"
    by (simp add: sender_total_def message_sender_new_def list_pool_def)
  have "message_pool test_env pipe_out pipe_in chans_queued chans_ends (list_pool test_env ()) length"
    by unfold_locales
  from message_sender_counts [OF this c, of 7] n show ?thesis
    by (auto simp: Let_def message_sender_new_def)
qed

end
