(* ===== verification/Unit_Tests.thy ===== *)
theory Unit_Tests
  imports Closing_Run Wakeups Generators
begin

text \<open>
  Unit tests of the repository as definitions, with the library types they use as parameters: the one
  of \<^verbatim>\<open>connection/closing.rs\<close>, whose socket is in the source, and the round trip of
  \<^verbatim>\<open>frame/io.rs\<close>. A failed assertion is \<open>None\<close>.
\<close>

subsection \<open>Transports that take everything\<close>

locale greedy_sink =
  fixes ops :: "'io io_ops"
    and put :: "bytes \<Rightarrow> 'io \<Rightarrow> 'io"
  assumes write_all: "op_poll_write ops bs io = (Ready (Ok (length bs)), put bs io)"
begin

lemma writes_frame:
  assumes "length (fr_body f) < 2 ^ 64"
  shows "io_poll_ready ops (io_start_send f s) = Some (Ready (Ok ()), s\<lparr>sock_write := WInit,
    io_inner := (if fr_body f = [] then id else put (fr_body f)) (put (encode (fr_header f)) (io_inner s))\<rparr>)"
    (is "_ = Some (_, ?t)")
proof -
  let ?s1 = "s\<lparr>io_inner := put (encode (fr_header f)) (io_inner s),
    sock_write := (if fr_body f \<noteq> [] then WBody (fr_body f) 0 else WInit)\<rparr>"
  have "write_step ops (io_start_send f s) = Some (Continue ?s1)"
    by (simp add: write_step_def io_start_send_def write_all assert_that_def uadd_def)
  moreover have "run_loop (write_step ops) ?s1 = Some (Ready (Ok ()), ?t)"
  proof (cases "fr_body f = []")
    case True
    then show ?thesis
      by (auto intro!: run_loop_Return simp: write_step_def)
  next
    case False
    then have "write_step ops ?s1 = Some (Continue ?t)"
      using assms by (simp add: write_step_def write_all assert_that_def uadd_def)
    then show ?thesis
      by (subst run_loop_Continue) (auto intro!: run_loop_Return simp: write_step_def)
  qed
  ultimately show ?thesis
    by (simp add: io_poll_ready_def run_loop_Continue)
qed

end

subsection \<open>The socket of the closing test\<close>

text \<open>
  The operations of a transport have no \<open>None\<close>: that an assertion of the socket has failed, or an
  \<open>unimplemented!\<close> was reached, is recorded.
\<close>

record socket =
  skt_written :: bytes
  skt_closed :: bool
  skt_panicked :: bool

definition socket_ops :: "socket io_ops" where
  "socket_ops =
     \<lparr>op_poll_read = (\<lambda>n s. (Pending, s\<lparr>skt_panicked := True\<rparr>)),
      op_poll_write = (\<lambda>buf s. (Ready (Ok (length buf)),
        s\<lparr>skt_panicked := skt_panicked s \<or> skt_closed s, skt_written := skt_written s @ buf\<rparr>)),
      op_poll_flush = (\<lambda>s. (Pending, s\<lparr>skt_panicked := True\<rparr>)),
      op_poll_close = (\<lambda>s. (Ready (Ok ()),
        s\<lparr>skt_panicked := skt_panicked s \<or> skt_closed s, skt_closed := True\<rparr>))\<rparr>"

definition socket_put :: "bytes \<Rightarrow> socket \<Rightarrow> socket" where
  "socket_put buf s = s\<lparr>skt_panicked := skt_panicked s \<or> skt_closed s, skt_written := skt_written s @ buf\<rparr>"

interpretation socket: greedy_sink socket_ops socket_put
  by unfold_locales (simp add: socket_ops_def socket_put_def)

text \<open>A socket still open, with what it has been given.\<close>

definition open_socket :: "bytes \<Rightarrow> socket" where
  "open_socket bs = \<lparr>skt_written = bs, skt_closed = False, skt_panicked = False\<rparr>"

lemma socket_writes_frame:
  assumes "length (fr_body f) < 2 ^ 64" and "io_inner s = open_socket bs"
  shows "io_poll_ready socket_ops (io_start_send f s)
    = Some (Ready (Ok ()), s\<lparr>sock_write := WInit, io_inner := open_socket (bs @ frame_bytes f)\<rparr>)"
  using assms socket.writes_frame [of f s] by (simp add: socket_put_def open_socket_def frame_bytes_def)

text \<open>Over it every frame is written at once, and the socket closed at the end.\<close>

lemma socket_flushes:
  assumes "e_io env = socket_ops" and "\<forall>f \<in> set fs. length (fr_body f) < 2 ^ 64"
    and "cl_state s = FlushingPendingFrames" and "cl_pending_frames s = fs"
    and "io_poll_ready socket_ops (cl_socket s) = Some (Ready (Ok ()), k)" and "io_inner k = open_socket bs"
    and "sock_write k = WInit"
  shows "\<exists>t. run_loop (closing_step env cx) s = Some (Ready (Ok ()), t) \<and> cl_pending_frames t = []
    \<and> io_inner (cl_socket t) = (open_socket (bs @ concat (map frame_bytes fs)))\<lparr>skt_closed := True\<rparr>"
  using assms
proof (induction fs arbitrary: s k bs)
  case Nil
  let ?s1 = "s\<lparr>cl_socket := k, cl_state := ClosingSocket\<rparr>"
  have "io_poll_ready socket_ops k = Some (Ready (Ok ()), k)"
    unfolding io_poll_ready_def using Nil.prems by (intro run_loop_Return) (simp add: write_step_def)
  with Nil.prems have "closing_step env cx ?s1
      = Some (Return (Ready (Ok ())) (?s1\<lparr>cl_socket := k\<lparr>io_inner := (open_socket bs)\<lparr>skt_closed := True\<rparr>\<rparr>\<rparr>))"
    by (simp add: closing_step_def io_poll_close_def socket_ops_def open_socket_def)
  moreover from Nil.prems have "closing_step env cx s = Some (Continue ?s1)"
    by (simp add: closing_step_def)
  ultimately show ?case
    using Nil.prems by (simp add: run_loop_Continue run_loop_Return)
next
  case (Cons f fs)
  let ?s1 = "s\<lparr>cl_pending_frames := fs, cl_socket := io_start_send f k\<rparr>"
  have "closing_step env cx s = Some (Continue ?s1)"
    using Cons.prems by (simp add: closing_step_def)
  with Cons.IH [of ?s1 _ "bs @ frame_bytes f"] Cons.prems socket_writes_frame [of f k bs] show ?case
    by (simp add: run_loop_Continue)
qed

text \<open>Before that, one frame is queued for each command the receivers yield, and the final one.\<close>

lemma closing_drains:
  assumes "drains (e_ch env) cx ch items ch'" and "cl_state s = DrainingStreamReceiver" and "w_chan s = ch"
  shows "run_loop (closing_step env cx) s = run_loop (closing_step env cx)
    (s\<lparr>w_chan := ch', cl_pending_frames := cl_pending_frames s @ command_frames items @ [frame_term],
       cl_state := FlushingPendingFrames\<rparr>)"
  using assms
proof (induction arbitrary: s rule: drains.induct)
  case (item ch x ch1 xs ch')
  let ?s1 = "s\<lparr>w_chan := ch1, cl_pending_frames := cl_pending_frames s @ command_frames [x]\<rparr>"
  have "closing_step env cx s = Some (Continue ?s1)"
    using item.hyps item.prems
    by (cases "[x]" rule: command_frames.cases) (simp_all add: closing_step_def)
  moreover have "command_frames (x # xs) = command_frames [x] @ command_frames xs"
    by (cases "[x]" rule: command_frames.cases) simp_all
  ultimately show ?case
    using item.IH [of ?s1] item.prems by (simp add: run_loop_Continue)
qed (auto intro!: run_loop_Continue simp: closing_step_def)

lemma socket_closes:
  assumes "drains (e_ch env) cx (mx_close_all (e_ch env) (w_chan w)) items ch'" and "e_io env = socket_ops"
    and "\<forall>f \<in> set (fs @ command_frames items). length (fr_body f) < 2 ^ 64"
  shows "\<exists>t. closing_poll env cx (closing_new w fs (io_new (open_socket []))) = Some (Ready (Ok ()), t)
    \<and> cl_pending_frames t = [] \<and> io_inner (cl_socket t)
      = (open_socket (frames_bytes (fs @ command_frames items @ [frame_term])))\<lparr>skt_closed := True\<rparr>"
proof -
  let ?s = "closing_new w fs (io_new (open_socket []))"
  let ?s1 = "?s\<lparr>w_chan := mx_close_all (e_ch env) (w_chan w), cl_state := DrainingStreamReceiver\<rparr>"
  let ?s2 = "?s1\<lparr>w_chan := ch', cl_pending_frames := fs @ command_frames items @ [frame_term],
    cl_state := FlushingPendingFrames\<rparr>"
  have "closing_step env cx ?s = Some (Continue ?s1)"
    by (simp add: closing_step_def closing_new_def world.defs)
  then have "closing_poll env cx ?s = run_loop (closing_step env cx) ?s2"
    using closing_drains [OF assms(1), of ?s1]
    by (simp add: closing_poll_def run_loop_Continue closing_new_def world.defs)
  moreover have "io_poll_ready socket_ops (cl_socket ?s2) = Some (Ready (Ok ()), io_new (open_socket []))"
    unfolding io_poll_ready_def by (intro run_loop_Return)
      (simp add: write_step_def closing_new_def io_new_def world.defs)
  ultimately show ?thesis
    using socket_flushes [OF assms(2), of "fs @ command_frames items @ [frame_term]" ?s2 "io_new (open_socket [])" "[]" cx]
      assms(3) by (simp add: io_new_def frame_term_def frame_new_def frames_bytes_def)
qed

subsection \<open>The closing test\<close>

text \<open>\<open>encode\<close> of the test: header and, of a data frame, body.\<close>

definition test_encode :: "frame \<Rightarrow> bytes \<Rightarrow> bytes run" where
  "test_encode f buf = do {
     let buf = buf @ encode (fr_header f);
     if hdr_tag (fr_header f) = Data then do {
       f \<leftarrow> frame_into_data f;
       Some (buf @ fr_body f) }
     else Some buf }"

text \<open>A channel with one command, whose only sender is dropped.\<close>

definition test_receiver ::
    "('ch, 'z) mux_ops_scheme \<Rightarrow> frame \<Rightarrow> stream_command \<Rightarrow> 'ch \<Rightarrow> 'ch run" where
  "test_receiver ops f command ch = do {
     let (tx, ch) = mx_channel ops (hdr_stream_id (fr_header f)) ch;
     let (r, ch) = ch_start_send ops tx command ch;
     _ \<leftarrow> assert_that (r = Ok ());
     Some (mx_drop ops tx ch) }"

text \<open>The socket is always ready, so that the executor polls the future once.\<close>

definition pending_frames :: "'ch mux_ops \<Rightarrow> 'ch \<Rightarrow> unit run" where
  "pending_frames ops ch = do {
     frame_pending \<leftarrow> frame_data 1 [2];
     frame_data \<leftarrow> frame_data 3 [4];
     let frame_close = frame_close_stream 5 False;
     let frame_close_ack = frame_close_stream 6 True;
     expected_written \<leftarrow> test_encode frame_pending [];
     expected_written \<leftarrow> test_encode frame_data expected_written;
     expected_written \<leftarrow> test_encode frame_close expected_written;
     expected_written \<leftarrow> test_encode frame_close_ack expected_written;
     expected_written \<leftarrow> test_encode frame_term expected_written;
     data \<leftarrow> frame_into_data frame_data;
     ch \<leftarrow> test_receiver ops frame_data (SendFrame data) ch;
     ch \<leftarrow> test_receiver ops frame_close (CloseStream False) ch;
     ch \<leftarrow> test_receiver ops frame_close_ack (CloseStream True) ch;
     let w = \<lparr>w_heap = [], w_acc = 0, w_chan = ch, w_rtt = rtt_new 0, w_handles = [], w_woken = [], w_ticks = 0\<rparr>;
     let socket = \<lparr>skt_written = [], skt_closed = False, skt_panicked = False\<rparr>;
     (r, closing) \<leftarrow> closing_poll \<lparr>e_io = socket_ops, e_ch = ops, e_clock = id\<rparr> 0
       (closing_new w [frame_pending] (io_new socket));
     _ \<leftarrow> assert_that (r = Ready (Ok ()));
     let socket = io_inner (cl_socket closing);
     _ \<leftarrow> assert_that (\<not> skt_panicked socket);
     _ \<leftarrow> assert_that (cl_pending_frames closing = []);
     _ \<leftarrow> assert_that (skt_closed socket);
     assert_that (skt_written socket = expected_written) }"

lemma test_encode_frame:
  assumes "hdr_tag (fr_header f) = Data \<or> fr_body f = []"
  shows "test_encode f buf = Some (buf @ frame_bytes f)"
  using assms by (auto simp: test_encode_def frame_bytes_def Let_def)

text \<open>The three channels of the test, and what their receivers yield.\<close>

definition test_rx :: "u32 \<Rightarrow> stream_command list \<Rightarrow> bool \<Rightarrow> bool \<Rightarrow> (u32, receiver) tagged" where
  "test_rx sid cs closed reported = (tagged_new sid \<lparr>rc_queue = cs, rc_senders = [], rc_closed = closed\<rparr>)
     \<lparr>ts_reported_none := reported\<rparr>"

lemma test_receiver_list_mux:
  assumes "\<forall>t \<in> set (cs_rx ch). rc_senders (ts_inner t) = []"
  shows "test_receiver list_mux f c ch =
    Some \<lparr>cs_rx = cs_rx ch @ [test_rx (hdr_stream_id (fr_header f)) [c] False False], cs_next = Suc (cs_next ch)\<rparr>"
proof -
  have "send_to tx c (ts @ [t]) = (Ok (), ts @ [tagged_inner_mut (\<lambda>r. r\<lparr>rc_queue := rc_queue r @ [c]\<rparr>) t])"
    if "\<forall>t \<in> set ts. rc_senders (ts_inner t) = []" "owns tx t" for ts tx t
    using that by (induction ts) (auto simp: owns_def)
  moreover have "map (tagged_inner_mut (\<lambda>r. r\<lparr>rc_senders := removeAll tx (rc_senders r)\<rparr>)) (cs_rx ch) = cs_rx ch" for tx
    using assms by (intro map_idI) (simp add: tagged_inner_mut_def)
  ultimately show ?thesis
    using assms by (simp add: test_receiver_def list_mux_def tagged_new_def owns_def tagged_inner_mut_def test_rx_def
        assert_that_def)
qed

lemma select_next_reported:
  "\<forall>t \<in> set rs. ts_reported_none t \<Longrightarrow> select_next cx (rs @ ts) = select_next cx ts"
  by (induction rs) (auto simp: tagged_poll_next_def)

lemma test_rx_drains:
  assumes "\<forall>t \<in> set rs. ts_reported_none t"
  shows "drains list_mux cx \<lparr>cs_rx = rs @ map (\<lambda>(sid, c). test_rx sid [c] True False) xs, cs_next = n\<rparr>
     (concat (map (\<lambda>(sid, c). [(sid, Some c), (sid, None)]) xs)) \<lparr>cs_rx = [], cs_next = n\<rparr>"
  using assms
proof (induction xs arbitrary: rs)
  case Nil
  then show ?case
    using select_next_reported [of rs cx "[]"] by (simp add: drains.drained list_mux_def)
next
  case (Cons x xs)
  obtain sid c where x: "x = (sid, c)"
    by (rule prod.exhaust)
  let ?ts = "map (\<lambda>(sid, c). test_rx sid [c] True False) xs"
  have "mx_poll_next list_mux cx \<lparr>cs_rx = rs @ test_rx sid [c] True False # ?ts, cs_next = n\<rparr>
      = (Ready (Some (sid, Some c)), \<lparr>cs_rx = test_rx sid [] True False # ?ts, cs_next = n\<rparr>)"
    "mx_poll_next list_mux cx \<lparr>cs_rx = test_rx sid [] True False # ?ts, cs_next = n\<rparr>
      = (Ready (Some (sid, None)), \<lparr>cs_rx = [test_rx sid [] True True] @ ?ts, cs_next = n\<rparr>)"
    using Cons.prems by (simp_all add: list_mux_def select_next_reported test_rx_def tagged_poll_next_def
        receiver_poll_next_def tagged_new_def)
  with Cons.IH [of "[test_rx sid [] True True]"] x show ?case
    by (auto intro: drains.item simp: test_rx_def)
qed

theorem pending_frames_passes: "pending_frames list_mux no_channels = Some ()"
proof -
  let ?p = "\<lparr>fr_header = header_data 1 1, fr_body = [2]\<rparr>" and ?d = "\<lparr>fr_header = header_data 3 1, fr_body = [4]\<rparr>"
  let ?xs = "[(3, SendFrame ?d), (5, CloseStream False), (6, CloseStream True)]"
  let ?ch = "\<lparr>cs_rx = map (\<lambda>(sid, c). test_rx sid [c] False False) ?xs, cs_next = 3\<rparr>"
  let ?w = "\<lparr>w_heap = [], w_acc = 0, w_chan = ?ch, w_rtt = rtt_new 0, w_handles = [], w_woken = [], w_ticks = 0\<rparr>"
  let ?env = "\<lparr>e_io = socket_ops, e_ch = list_mux, e_clock = id\<rparr>"
  have "mx_close_all list_mux ?ch = \<lparr>cs_rx = [] @ map (\<lambda>(sid, c). test_rx sid [c] True False) ?xs, cs_next = 3\<rparr>"
    by (simp add: list_mux_def test_rx_def tagged_inner_mut_def tagged_new_def)
  with test_rx_drains [of "[]" 0 ?xs 3] have "drains (e_ch ?env) 0 (mx_close_all (e_ch ?env) (w_chan ?w))
      (concat (map (\<lambda>(sid, c). [(sid, Some c), (sid, None)]) ?xs)) \<lparr>cs_rx = [], cs_next = 3\<rparr>"
    by simp
  from socket_closes [OF this, of "[?p]"] obtain t where
    "closing_poll ?env 0 (closing_new ?w [?p] (io_new (open_socket []))) = Some (Ready (Ok ()), t)"
    "cl_pending_frames t = []" "io_inner (cl_socket t) = (open_socket (frames_bytes
       [?p, ?d, frame_close_stream 5 False, frame_close_stream 6 True, frame_term]))\<lparr>skt_closed := True\<rparr>"
    by (auto simp: frame_close_stream_def frame_new_def)
  moreover have "hdr_tag (header_data a b) = Data" "hdr_stream_id (header_data a b) = a"
    "fr_header (frame_new h) = h" "fr_body (frame_new h) = []" "rc_senders (ts_inner (test_rx sid cs c r)) = []"
    for a b h sid cs c r
    by (simp_all add: header_data_def frame_new_def test_rx_def tagged_new_def)
  ultimately show ?thesis
    by (simp add: pending_frames_def frame_data_Some test_encode_frame test_receiver_list_mux assert_that_def
        open_socket_def no_channels_def frames_bytes_def frame_close_stream_def frame_term_def Let_def numeral_3_eq_3)
qed

subsection \<open>The round trip of the framed transport\<close>

text \<open>
  The test sends a frame into a \<open>Cursor\<close>, flushes, goes back to the start and reads. The cursor is a
  parameter: its operations, the empty one, and \<open>set_position\<close> to the start. \<open>SinkExt::send\<close> polls for
  readiness, starts the send and flushes; a cursor is always ready, so that every future is ready at
  its first poll.
\<close>

definition io_send :: "'io io_ops \<Rightarrow> frame \<Rightarrow> 'io sock \<Rightarrow> ((unit, io_error) result poll \<times> 'io sock) run" where
  "io_send ops f s = do {
     (r, s) \<leftarrow> io_poll_ready ops s;
     if r = Ready (Ok ()) then io_poll_flush ops (io_start_send f s) else Some (r, s) }"

definition io_property :: "'io io_ops \<Rightarrow> 'io \<Rightarrow> ('io \<Rightarrow> 'io) \<Rightarrow> frame \<Rightarrow> bool run" where
  "io_property ops inner rewind f = do {
     let io = io_new inner;
     (r, io) \<leftarrow> io_send ops f io;
     if r \<noteq> Ready (Ok ()) then Some False
     else do {
       (r, io) \<leftarrow> io_poll_flush ops io;
       if r \<noteq> Ready (Ok ()) then Some False
       else do {
         (r, io) \<leftarrow> io_poll_next ops (io\<lparr>io_inner := rewind (io_inner io)\<rparr>);
         Some (case r of Ready (Some (Ok x)) \<Rightarrow> x = f | _ \<Rightarrow> False) } } }"

text \<open>
  The cursor over a vector: it reads and writes at a position, and a write past the end fills the gap
  with zeros.
\<close>

record cursor =
  cur_data :: bytes
  cur_pos :: nat

definition cursor_put :: "bytes \<Rightarrow> cursor \<Rightarrow> cursor" where
  "cursor_put bs c = (let n = cur_pos c; d = cur_data c in
     c\<lparr>cur_data := take n (d @ replicate (n - length d) 0) @ bs @ drop (n + length bs) d, cur_pos := n + length bs\<rparr>)"

definition cursor_ops :: "cursor io_ops" where
  "cursor_ops =
     \<lparr>op_poll_read = (\<lambda>n c. let bs = take n (drop (cur_pos c) (cur_data c)) in
        (Ready (Ok bs), c\<lparr>cur_pos := cur_pos c + length bs\<rparr>)),
      op_poll_write = (\<lambda>bs c. (Ready (Ok (length bs)), cursor_put bs c)),
      op_poll_flush = (\<lambda>c. (Ready (Ok ()), c)),
      op_poll_close = (\<lambda>c. (Ready (Ok ()), c))\<rparr>"

interpretation cursor: greedy_sink cursor_ops cursor_put
  by unfold_locales (simp add: cursor_ops_def)

lemma cursor_read:
  "take n (drop (cur_pos c) (cur_data c)) = bs \<Longrightarrow>
     op_poll_read cursor_ops n c = (Ready (Ok bs), c\<lparr>cur_pos := cur_pos c + length bs\<rparr>)"
  by (auto simp: cursor_ops_def Let_def)

lemma cursor_reads_header:
  assumes "sock_read s = RInit" and "drop (cur_pos (io_inner s)) (cur_data (io_inner s)) = encode h @ bs"
  shows "run_loop (read_step cursor_ops) s = run_loop (read_step cursor_ops)
    (s\<lparr>io_inner := (io_inner s)\<lparr>cur_pos := cur_pos (io_inner s) + 12\<rparr>, sock_read := RHeader 12 (encode h)\<rparr>)"
proof -
  let ?s1 = "s\<lparr>sock_read := RHeader 0 (replicate 12 0)\<rparr>"
  have "read_step cursor_ops s = Some (Continue ?s1)"
    using assms(1) by (simp add: read_step_def HEADER_SIZE_def)
  moreover have "encode h \<noteq> []" "length (encode h) = 12"
    by (simp_all add: encode_def u16_to_be_bytes_def u32_to_be_bytes_def)
  then have "read_step cursor_ops ?s1 = Some (Continue
      (s\<lparr>io_inner := (io_inner s)\<lparr>cur_pos := cur_pos (io_inner s) + 12\<rparr>, sock_read := RHeader 12 (encode h)\<rparr>))"
    using cursor_read [of 12 "io_inner s" "encode h"] assms(2)
    by (simp add: read_step_def HEADER_SIZE_def fill_def uadd_def assert_that_def)
  ultimately show ?thesis
    by (simp add: run_loop_Continue)
qed

lemma cursor_reads_frame:
  assumes "frame_ok f" and "length (fr_body f) \<le> MAX_FRAME_BODY_LEN" and "sock_read s = RInit"
    and "drop (cur_pos (io_inner s)) (cur_data (io_inner s)) = frame_bytes f"
  shows "\<exists>t. io_poll_next cursor_ops s = Some (Ready (Some (Ok f)), t)"
proof -
  let ?h = "fr_header f"
  let ?s1 = "s\<lparr>io_inner := (io_inner s)\<lparr>cur_pos := cur_pos (io_inner s) + 12\<rparr>, sock_read := RHeader 12 (encode ?h)\<rparr>"
  have dec: "decode (encode ?h) = Ok ?h"
    using assms(1) by (simp add: frame_ok_def hdr.dec_enc)
  have start: "io_poll_next cursor_ops s = run_loop (read_step cursor_ops) ?s1"
    using cursor_reads_header [of s ?h "fr_body f"] assms(3,4) by (simp add: io_poll_next_def frame_bytes_def)
  show ?thesis
  proof (cases "hdr_tag ?h = Data")
    case False
    with assms(1) dec have "read_step cursor_ops ?s1 = Some (Return (Ready (Some (Ok f))) (?s1\<lparr>sock_read := RInit\<rparr>))"
      by (simp add: read_step_def HEADER_SIZE_def frame_new_def frame_ok_def)
    with start show ?thesis
      by (simp add: run_loop_Return)
  next
    case True
    let ?n = "length (fr_body f)"
    let ?s2 = "?s1\<lparr>sock_read := RBody ?h 0 (replicate ?n 0)\<rparr>"
    let ?s3 = "?s1\<lparr>io_inner := (io_inner ?s1)\<lparr>cur_pos := cur_pos (io_inner ?s1) + ?n\<rparr>, sock_read := RBody ?h ?n (fr_body f)\<rparr>"
    have n: "unat (hdr_length ?h) = ?n" "?n < 2 ^ 64"
      using True assms(1,2) by (simp_all add: frame_ok_def MAX_FRAME_BODY_LEN_eq)
    have body: "drop (cur_pos (io_inner ?s1)) (cur_data (io_inner s)) = fr_body f"
      using arg_cong [OF assms(4), of "drop 12"] by (simp add: frame_bytes_def add.commute)
    have "read_step cursor_ops ?s1 = Some (Continue ?s2)"
      using True dec n assms(2) by (simp add: read_step_def HEADER_SIZE_def Let_def)
    moreover have "run_loop (read_step cursor_ops) ?s2 = run_loop (read_step cursor_ops) ?s3"
    proof (cases "fr_body f = []")
      case False
      then have "read_step cursor_ops ?s2 = Some (Continue ?s3)"
        using n body cursor_read [of ?n "io_inner ?s1" "fr_body f"]
        by (simp add: read_step_def fill_def uadd_def assert_that_def Let_def)
      then show ?thesis
        by (rule run_loop_Continue)
    qed simp
    moreover have "read_step cursor_ops ?s3 = Some (Return (Ready (Some (Ok f))) (?s3\<lparr>sock_read := RInit\<rparr>))"
      using n by (simp add: read_step_def Let_def)
    ultimately show ?thesis
      using start by (simp add: run_loop_Continue run_loop_Return)
  qed
qed

lemma io_property_ok:
  assumes "frame_ok f" and "length (fr_body f) \<le> MAX_FRAME_BODY_LEN"
  shows "io_property cursor_ops \<lparr>cur_data = [], cur_pos = 0\<rparr> (cur_pos_update (\<lambda>_. 0)) f = Some True"
proof -
  let ?io = "\<lambda>bs. io_new \<lparr>cur_data = bs, cur_pos = length bs\<rparr>"
  have idle: "io_poll_ready cursor_ops (?io bs) = Some (Ready (Ok ()), ?io bs)" for bs
    unfolding io_poll_ready_def by (intro run_loop_Return) (simp add: write_step_def io_new_def)
  have "io_poll_ready cursor_ops (io_start_send f (?io [])) = Some (Ready (Ok ()), ?io (frame_bytes f))"
    using cursor.writes_frame [of f "?io []"] assms(2)
    by (simp add: MAX_FRAME_BODY_LEN_eq io_new_def cursor_put_def frame_bytes_def Let_def)
  with idle have "io_send cursor_ops f (io_new \<lparr>cur_data = [], cur_pos = 0\<rparr>) = Some (Ready (Ok ()), ?io (frame_bytes f))"
    "io_poll_flush cursor_ops (?io bs) = Some (Ready (Ok ()), ?io bs)" for bs
    using idle [of "[]"] by (simp_all add: io_send_def io_poll_flush_def cursor_ops_def io_new_def)
  with cursor_reads_frame [OF assms, of "io_new \<lparr>cur_data = frame_bytes f, cur_pos = 0\<rparr>"] show ?thesis
    by (auto simp: io_property_def io_new_def)
qed

text \<open>So the test passes for every frame its generator draws.\<close>

lemma io_test_passes:
  assumes "\<And>xs g. xs \<noteq> [] \<Longrightarrow> fst (g_choose ops xs g) \<in> Some ` set xs" and "\<And>n. length (rnd n) = n"
    and "frame_arbitrary ops rnd g = Some (f, g')"
  shows "io_property cursor_ops \<lparr>cur_data = [], cur_pos = 0\<rparr> (cur_pos_update (\<lambda>_. 0)) f = Some True"
  using frame_arbitrary_ok [of ops rnd g, OF assms(1,2)] assms(3) by (auto intro: io_property_ok)

end
