(* ===== verification/Surface.thy ===== *)
theory Surface
  imports Connection "HOL-Library.Sublist"
begin

text \<open>
  What the crate shows of itself: the \<open>Display\<close> and \<open>Debug\<close> implementations, the sources of errors and
  the conversions between error types, the connection ids of the log lines, and the casts between the
  types of headers and frames. The texts of \<open>std::io::Error\<close>s are a parameter. \<open>Debug\<close> is the plain
  form \<open>{:?}\<close>.
\<close>

subsection \<open>Numbers\<close>

definition digit :: "nat \<Rightarrow> char" where
  "digit n = (if n < 10 then char_of (48 + n) else char_of (87 + n))"

definition digit_value :: "char \<Rightarrow> nat" where
  "digit_value c = (let n = of_char c in if n < 58 then n - 48 else n - 87)"

fun show_radix :: "nat \<Rightarrow> nat \<Rightarrow> string" where
  "show_radix r n = (if n < r \<or> r < 2 then [digit n] else show_radix r (n div r) @ [digit (n mod r)])"

declare show_radix.simps [simp del]

definition read_radix :: "nat \<Rightarrow> string \<Rightarrow> nat" where
  "read_radix r s = foldl (\<lambda>v c. v * r + digit_value c) 0 s"

definition show_nat :: "nat \<Rightarrow> string" where
  "show_nat = show_radix 10"

text \<open>\<open>{:08x}\<close>\<close>

definition show_hex8 :: "u32 \<Rightarrow> string" where
  "show_hex8 x = (let s = show_radix 16 (unat x) in replicate (8 - length s) (CHR ''0'') @ s)"

lemma digit_value: "n < 16 \<Longrightarrow> digit_value (digit n) = n"
  by (auto simp: digit_value_def digit_def of_char_of)

lemma read_show_radix: "2 \<le> r \<Longrightarrow> r \<le> 16 \<Longrightarrow> read_radix r (show_radix r n) = n"
proof (induction r n rule: show_radix.induct)
  case (1 r n)
  show ?case
  proof (cases "n < r")
    case True
    with 1(3) show ?thesis
      by (simp add: show_radix.simps read_radix_def digit_value)
  next
    case False
    with 1 have "read_radix r (show_radix r (n div r)) = n div r"
      by simp
    moreover have "n mod r < 16"
      using 1(2,3) mod_less_divisor [of r n] by linarith
    ultimately show ?thesis
      using False 1(2) by (subst show_radix.simps) (simp add: read_radix_def digit_value)
  qed
qed

lemma length_show_radix: "2 \<le> r \<Longrightarrow> n < r ^ Suc k \<Longrightarrow> length (show_radix r n) \<le> Suc k"
proof (induction k arbitrary: n)
  case 0
  then show ?case by (simp add: show_radix.simps)
next
  case (Suc k)
  from Suc.prems have "n div r < r ^ Suc k"
    by (intro less_mult_imp_div_less) (simp add: mult.commute)
  with Suc.IH Suc.prems(1) have "length (show_radix r (n div r)) \<le> Suc k"
    by blast
  then show ?case
    by (subst show_radix.simps) simp
qed

lemma read_show_nat: "read_radix 10 (show_nat n) = n"
  by (simp add: show_nat_def read_show_radix)

lemma show_nat_inject: "show_nat m = show_nat n \<longleftrightarrow> m = n"
  by (metis read_show_nat)

text \<open>Eight digits, from which the number can be read back.\<close>

lemma length_show_hex8: "length (show_hex8 x) = 8"
proof -
  have "unat x < 16 ^ Suc 7"
    using unat_u32_bound [of x] by simp
  from length_show_radix [OF _ this] show ?thesis
    by (simp add: show_hex8_def Let_def)
qed

lemma read_show_hex8: "read_radix 16 (show_hex8 x) = unat x"
proof -
  have "read_radix 16 (replicate k (CHR ''0'') @ s) = read_radix 16 s" for k s
    by (induction k) (simp_all add: read_radix_def digit_value_def)
  then show ?thesis
    using read_show_radix [of 16 "unat x"] by (simp add: show_hex8_def Let_def)
qed

subsection \<open>Connection ids\<close>

text \<open>\<open>fetch_add\<close> on the counter, which starts at 1 and wraps around.\<close>

definition NEXT_ID :: u32 where
  "NEXT_ID = 1"

definition id_next :: "u32 \<Rightarrow> u32 \<times> u32" where
  "id_next counter = (counter, counter + 1)"

definition display_id :: "u32 \<Rightarrow> string" where
  "display_id i = show_hex8 i"

fun take_ids :: "nat \<Rightarrow> u32 \<Rightarrow> u32 list" where
  "take_ids 0 counter = []"
| "take_ids (Suc k) counter = (let (i, counter) = id_next counter in i # take_ids k counter)"

lemma take_ids_eq: "take_ids k counter = map (\<lambda>j. counter + of_nat j) [0..<k]"
proof (induction k arbitrary: counter)
  case (Suc k)
  have "map (\<lambda>j. counter + of_nat j) [0..<Suc k] = counter # map (\<lambda>j. counter + of_nat (Suc j)) [0..<k]"
    by (simp add: upt_conv_Cons map_Suc_upt [symmetric] del: upt_Suc)
  with Suc show ?case
    by (simp add: id_next_def Let_def algebra_simps)
qed simp

text \<open>No two of the first \<open>2 ^ 32\<close> connections have the same id in the log.\<close>

lemma ids_distinct: "k \<le> 2 ^ 32 \<Longrightarrow> distinct (map display_id (take_ids k NEXT_ID))"
proof -
  assume k: "k \<le> 2 ^ 32"
  have "inj_on (\<lambda>j. NEXT_ID + of_nat j) {0..<k}"
  proof (rule inj_onI)
    fix i j
    assume "i \<in> {0..<k}" "j \<in> {0..<k}" "NEXT_ID + of_nat i = NEXT_ID + of_nat j"
    then have "unat (of_nat i :: u32) = unat (of_nat j :: u32)"
      by simp
    with \<open>i \<in> {0..<k}\<close> \<open>j \<in> {0..<k}\<close> k show "i = j"
      by (simp add: unat_of_nat)
  qed
  moreover have "inj display_id"
    using read_show_hex8 by (intro injI) (metis display_id_def unsigned_word_eqI)
  ultimately show ?thesis
    by (auto simp: take_ids_eq distinct_map intro: comp_inj_on inj_on_subset)
qed

subsection \<open>Headers and frames\<close>

text \<open>The casts change the type of a header, which the model does not have: they keep every field.\<close>

definition hdr_cast :: "header \<Rightarrow> header" where
  "hdr_cast h = \<lparr>hdr_version = hdr_version h, hdr_tag = hdr_tag h, hdr_flags = hdr_flags h,
     hdr_stream_id = hdr_stream_id h, hdr_length = hdr_length h\<rparr>"

definition hdr_right :: "header \<Rightarrow> header" where
  "hdr_right h = hdr_cast h"

definition hdr_left :: "header \<Rightarrow> header" where
  "hdr_left h = hdr_cast h"

definition hdr_from :: "header \<Rightarrow> header" where
  "hdr_from h = hdr_cast h"

definition frame_right :: "frame \<Rightarrow> frame" where
  "frame_right f = \<lparr>fr_header = hdr_right (fr_header f), fr_body = fr_body f\<rparr>"

definition frame_left :: "frame \<Rightarrow> frame" where
  "frame_left f = \<lparr>fr_header = hdr_left (fr_header f), fr_body = fr_body f\<rparr>"

definition frame_from :: "frame \<Rightarrow> frame" where
  "frame_from f = \<lparr>fr_header = hdr_from (fr_header f), fr_body = fr_body f\<rparr>"

lemma casts_keep: "frame_right = id" "frame_left = id" "frame_from = id"
  by (simp_all add: fun_eq_iff frame_right_def frame_left_def frame_from_def hdr_right_def hdr_left_def hdr_from_def
      hdr_cast_def)

definition display_stream_id :: "u32 \<Rightarrow> string" where
  "display_stream_id sid = show_nat (unat sid)"

fun debug_tag :: "tag \<Rightarrow> string" where
  "debug_tag Data = ''Data''"
| "debug_tag WindowUpdate = ''WindowUpdate''"
| "debug_tag Ping = ''Ping''"
| "debug_tag GoAway = ''GoAway''"

definition display_header :: "header \<Rightarrow> string" where
  "display_header h = ''(Header '' @ debug_tag (hdr_tag h) @ '' '' @ display_stream_id (hdr_stream_id h)
     @ '' (len '' @ show_nat (unat (hdr_length h)) @ '') (flags '' @ show_nat (unat (hdr_flags h)) @ ''))''"

lemma show_nat_digits: "c \<in> set (show_nat n) \<Longrightarrow> 48 \<le> (of_char c :: nat) \<and> (of_char c :: nat) \<le> 57"
  unfolding show_nat_def
proof (induction "10 :: nat" n rule: show_radix.induct)
  case (1 n)
  from 1(2) show ?case
    by (subst (asm) show_radix.simps) (use 1(1) in \<open>auto simp: digit_def of_char_of split: if_splits\<close>)
qed

lemma not_in_show_nat [simp]: "CHR '' '' \<notin> set (show_nat n)" "CHR '')'' \<notin> set (show_nat n)"
  using show_nat_digits [of "CHR '' ''" n] show_nat_digits [of "CHR '')''" n] by auto

lemma split_at:
  assumes "c \<notin> set xs" and "c \<notin> set ys"
  shows "xs @ c # us = ys @ c # vs \<longleftrightarrow> xs = ys \<and> us = vs"
  using assms by (induction xs ys rule: list_induct2') auto

text \<open>The log line of a header shows all of it but the version.\<close>

lemma display_header_inject:
  "display_header h = display_header k \<longleftrightarrow> hdr_tag h = hdr_tag k \<and> hdr_stream_id h = hdr_stream_id k
     \<and> hdr_length h = hdr_length k \<and> hdr_flags h = hdr_flags k"
proof -
  have tags: "CHR '' '' \<notin> set (debug_tag t)" "debug_tag t = debug_tag u \<longleftrightarrow> t = u" for t u
    by (cases t; cases u; simp)+
  show ?thesis
    by (simp add: display_header_def display_stream_id_def split_at [where c = "CHR '' ''"] split_at [where c = "CHR '')''"]
        tags show_nat_inject word_unat_eq_iff)
qed

subsection \<open>Errors\<close>

fun display_header_decode_error :: "header_decode_error \<Rightarrow> string" where
  "display_header_decode_error (Version v) = ''unknown version: '' @ show_nat (unat v)"
| "display_header_decode_error (Type t) = ''unknown frame type: '' @ show_nat (unat t)"

fun display_frame_decode_error :: "(io_error \<Rightarrow> string) \<Rightarrow> frame_decode_error \<Rightarrow> string" where
  "display_frame_decode_error io (Io e) = ''i/o error: '' @ io e"
| "display_frame_decode_error io (Header e) = ''decode error: '' @ display_header_decode_error e"
| "display_frame_decode_error io (FrameTooLarge n) = ''frame body is too large ('' @ show_nat n @ '')''"

fun display_connection_error :: "(io_error \<Rightarrow> string) \<Rightarrow> connection_error \<Rightarrow> string" where
  "display_connection_error io (ConnIo e) = ''i/o error: '' @ io e"
| "display_connection_error io (Decode e) = ''decode error: '' @ display_frame_decode_error io e"
| "display_connection_error io NoMoreStreamIds = ''number of stream ids has been exhausted''"
| "display_connection_error io Closed_Error = ''connection is closed''"
| "display_connection_error io TooManyStreams = ''maximum number of streams reached''"
| "display_connection_error io InvalidWindowUpdate = ''invalid window update for the current flow control window''"

text \<open>The errors an error may have as its source.\<close>

datatype any_error = Io_Error io_error | Header_Error header_decode_error | Frame_Error frame_decode_error

fun frame_decode_error_source :: "frame_decode_error \<Rightarrow> any_error option" where
  "frame_decode_error_source (Io e) = Some (Io_Error e)"
| "frame_decode_error_source (Header e) = Some (Header_Error e)"
| "frame_decode_error_source (FrameTooLarge _) = None"

fun connection_error_source :: "connection_error \<Rightarrow> any_error option" where
  "connection_error_source (ConnIo e) = Some (Io_Error e)"
| "connection_error_source (Decode e) = Some (Frame_Error e)"
| "connection_error_source NoMoreStreamIds = None"
| "connection_error_source Closed_Error = None"
| "connection_error_source TooManyStreams = None"
| "connection_error_source InvalidWindowUpdate = None"

definition frame_decode_error_from_io :: "io_error \<Rightarrow> frame_decode_error" where
  "frame_decode_error_from_io e = Io e"

definition frame_decode_error_from_header :: "header_decode_error \<Rightarrow> frame_decode_error" where
  "frame_decode_error_from_header e = Header e"

definition connection_error_from_io :: "io_error \<Rightarrow> connection_error" where
  "connection_error_from_io e = ConnIo e"

definition connection_error_from_decode :: "frame_decode_error \<Rightarrow> connection_error" where
  "connection_error_from_decode e = Decode e"

text \<open>A \<open>SendError\<close> of the channel and a \<open>Canceled\<close> carry nothing the conversion uses.\<close>

definition connection_error_from_send :: "unit \<Rightarrow> connection_error" where
  "connection_error_from_send _ = Closed_Error"

definition connection_error_from_canceled :: "unit \<Rightarrow> connection_error" where
  "connection_error_from_canceled _ = Closed_Error"

fun display_any :: "(io_error \<Rightarrow> string) \<Rightarrow> any_error \<Rightarrow> string" where
  "display_any io (Io_Error e) = io e"
| "display_any io (Header_Error e) = display_header_decode_error e"
| "display_any io (Frame_Error e) = display_frame_decode_error io e"

fun any_source :: "any_error \<Rightarrow> any_error option" where
  "any_source (Frame_Error e) = frame_decode_error_source e"
| "any_source _ = None"

text \<open>Following the sources of an error to the first cause.\<close>

inductive caused_by :: "connection_error \<Rightarrow> any_error \<Rightarrow> bool" for e where
  source: "connection_error_source e = Some x \<Longrightarrow> caused_by e x"
| deeper: "caused_by e x \<Longrightarrow> any_source x = Some y \<Longrightarrow> caused_by e y"

text \<open>The text of an error ends with the text of everything it was caused by.\<close>

lemma source_is_suffix: "any_source x = Some y \<Longrightarrow> suffix (display_any io y) (display_any io x)"
  by (cases x rule: any_source.cases; simp; erule frame_decode_error_source.elims) (auto simp: suffix_def)

lemma cause_is_suffix: "caused_by e x \<Longrightarrow> suffix (display_any io x) (display_connection_error io e)"
proof (induction rule: caused_by.induct)
  case (source x)
  then show ?case
    by (cases e) (auto simp: suffix_def)
next
  case (deeper x y)
  with source_is_suffix [of x y io] show ?case
    by (meson suffix_order.trans)
qed

text \<open>And \<open>?\<close> in a function that returns a \<open>ConnectionError\<close> keeps the cause.\<close>

lemma conversions_keep_cause:
  "caused_by (connection_error_from_io e) (Io_Error e)"
  "caused_by (connection_error_from_decode (frame_decode_error_from_io e)) (Io_Error e)"
  "caused_by (connection_error_from_decode (frame_decode_error_from_header h)) (Header_Error h)"
  unfolding connection_error_from_io_def connection_error_from_decode_def frame_decode_error_from_io_def
    frame_decode_error_from_header_def
  by (auto intro: caused_by.source caused_by.deeper [OF caused_by.source])

subsection \<open>States\<close>

fun debug_write_state :: "write_state \<Rightarrow> string" where
  "debug_write_state WInit = ''(WriteState::Init)''"
| "debug_write_state (WHeader _ _ offset) = ''(WriteState::Header (offset '' @ show_nat offset @ ''))''"
| "debug_write_state (WBody buffer offset) =
     ''(WriteState::Body (offset '' @ show_nat offset @ '') (buffer-len '' @ show_nat (length buffer) @ ''))''"
| "debug_write_state WPoisoned = ''(WriteState::Poisoned)''"

fun debug_read_state :: "read_state \<Rightarrow> string" where
  "debug_read_state RInit = ''(ReadState::Init)''"
| "debug_read_state (RHeader offset _) = ''(ReadState::Header (offset '' @ show_nat offset @ ''))''"
| "debug_read_state (RBody header offset buffer) =
     ''(ReadState::Body (header '' @ display_header header @ '') (offset '' @ show_nat offset
       @ '') (buffer-len '' @ show_nat (length buffer) @ ''))''"

fun debug_connection_state :: "('io, 'ch) connection_state \<Rightarrow> string" where
  "debug_connection_state (CActive _) = ''Active''"
| "debug_connection_state (CClosing _) = ''Closing''"
| "debug_connection_state (CCleanup _) = ''Cleanup''"
| "debug_connection_state (CClosed _) = ''Closed''"
| "debug_connection_state CPoisoned = ''Poisoned''"

fun debug_mode :: "mode \<Rightarrow> string" where
  "debug_mode Client = ''Client''"
| "debug_mode Server = ''Server''"

text \<open>The connection id, which the state of the model leaves out, is an argument.\<close>

definition display_active :: "u32 \<Rightarrow> ('io, 'ch) active \<Rightarrow> string" where
  "display_active i s = ''(Connection '' @ display_id i @ '' '' @ debug_mode (a_mode s)
     @ '' (streams '' @ show_nat (length (a_streams s)) @ ''))''"

definition debug_active :: "u32 \<Rightarrow> ('io, 'ch) active \<Rightarrow> string" where
  "debug_active i s = ''Connection { id: '' @ display_id i @ '', mode: '' @ debug_mode (a_mode s)
     @ '', streams: '' @ show_nat (length (a_streams s)) @ '', next_id: '' @ show_nat (unat (a_next_id s)) @ '' }''"

definition display_stream :: "u32 \<Rightarrow> stream \<Rightarrow> string" where
  "display_stream i st = ''(Stream '' @ display_id i @ ''/'' @ show_nat (unat (stm_id st)) @ '')''"

definition debug_stream :: "u32 \<Rightarrow> stream \<Rightarrow> string" where
  "debug_stream i st = ''Stream { id: '' @ show_nat (unat (stm_id st)) @ '', connection: '' @ display_id i @ '' }''"

text \<open>Two streams look the same in the log only if they are the same stream of the same connection.\<close>

lemma display_stream_inject:
  "display_stream i st = display_stream j tt \<longleftrightarrow> i = j \<and> stm_id st = stm_id tt"
proof -
  have "i = j" if "display_id i = display_id j"
    using that by (metis display_id_def read_show_hex8 unsigned_word_eqI)
  then show ?thesis
    using length_show_hex8 by (auto simp: display_stream_def display_id_def show_nat_inject intro: unsigned_word_eqI)
qed

end
