(* ===== verification/Spec2Isabelle.thy ===== *)
theory Spec2Isabelle
  imports Credit_Exact Harness Unit_Tests Surface
begin

text \<open>
  A verification development for the yamux stream multiplexer.

  \<^bold>\<open>The program.\<close> yamux (\<^verbatim>\<open>src/yamux\<close>) carries many byte streams over one connection. A
  \<open>Connection\<close> owns the socket and is driven by the three polls its user calls; while it is active it
  is an \<open>Active\<close>, which reads frames, hands them to the stream they belong to, answers pings, and sends
  what its streams queue. A \<open>Stream\<close> is the user's handle: it shares a cell (\<open>Shared\<close>: state, windows,
  receive buffer, wakers) with the connection and sends it commands over an \<open>mpsc\<close> channel. The
  windows of a stream are managed by its \<open>FlowController\<close> from the round-trip time that \<open>Rtt\<close>
  measures with pings. A connection ends through \<open>Closing\<close> (graceful) or \<open>Cleanup\<close> (after an error).
  \<^verbatim>\<open>src/test-harness\<close> and \<^verbatim>\<open>src/quickcheck-ext\<close> hold the drivers and generators of the tests.

  \<^bold>\<open>Theories and sources.\<close>
  \<^item> \<open>Rust_Prelude\<close>: machine integers, results, polls, the loop combinator, fixed-width codecs.
  \<^item> \<open>Conf\<close>: \<^verbatim>\<open>lib.rs\<close>, the constants, \<open>Config\<close> and its setters with their assertions.
  \<^item> \<open>Frame_Header\<close>, \<open>Frames\<close>, \<open>Frame_Io\<close>: \<^verbatim>\<open>frame/header.rs\<close>, \<^verbatim>\<open>frame.rs\<close> with the errors of
    \<^verbatim>\<open>error.rs\<close>, and \<^verbatim>\<open>frame/io.rs\<close>: the codec, the constructors, and the write and read state
    machines over a transport.
  \<^item> \<open>Chunk_Buffer\<close>: \<^verbatim>\<open>chunks.rs\<close>, the receive buffer as a queue of bytes.
  \<^item> \<open>Rtt_Meter\<close>, \<open>Flow_Control\<close>: \<^verbatim>\<open>connection/rtt.rs\<close> and \<^verbatim>\<open>connection/stream/flow_control.rs\<close>.
  \<^item> \<open>Stream_State\<close>, \<open>Stream_Handle\<close>, \<open>Stream_Trace\<close>: \<^verbatim>\<open>connection/stream.rs\<close>, the shared cell, every
    operation of the handle, and runs of a handle; \<open>Wakeups\<close>: its two halves polled from two tasks,
    with the unit test of that file.
  \<^item> \<open>Tagged_Stream\<close>, \<open>Command_Channel\<close>, \<open>Ordered_Channel\<close>: \<^verbatim>\<open>tagged_stream.rs\<close>, and the contracts of the
    channels: what they yield, and in which order.
  \<^item> \<open>Conn_World\<close>, \<open>Active_Conn\<close>: the cells a connection shares with its handles, and every operation of
    \<open>Active\<close> in \<^verbatim>\<open>connection.rs\<close>; \<open>Active_Inv\<close>, \<open>Active_Poll\<close>, \<open>Active_System\<close>, \<open>Active_Props\<close>: its
    invariant, its loop, the states it reaches together with its handles, and what holds there;
    \<open>Frame_Handling\<close>, \<open>Stream_Control\<close>: what each frame and each request does, in full.
  \<^item> \<open>Shutdown\<close>, \<open>Closing_Run\<close>: \<^verbatim>\<open>connection/closing.rs\<close> and \<^verbatim>\<open>connection/cleanup.rs\<close>.
  \<^item> \<open>Connection\<close>, \<open>Connection_Life\<close>: the state machine of \<^verbatim>\<open>connection.rs\<close> around all of these.
  \<^item> \<open>Peer\<close>, \<open>Window_Credit\<close>, \<open>Exchange\<close>: the connection as a machine over whole frames, the account of
    its windows, and two connections that talk to each other. \<open>Stream_Bytes\<close>, \<open>Stream_Order\<close>,
    \<open>Delivery\<close>: the bytes of one stream from the write at one end to the read at the other;
    \<open>Credit_Exact\<close>: its credit, to the byte.
  \<^item> \<open>Surface\<close>: the texts of headers, errors, states and ids, the sources of errors and the conversions
    between them, the casts of headers and frames.
  \<^item> \<open>Unit_Tests\<close>: the unit tests of \<^verbatim>\<open>connection/closing.rs\<close> and \<^verbatim>\<open>frame/io.rs\<close>.
  \<^item> \<open>Generators\<close>, \<open>Harness\<close>: \<^verbatim>\<open>quickcheck-ext/src/lib.rs\<close> with the \<open>Arbitrary\<close> instances of the
    tests, and the futures of \<^verbatim>\<open>test-harness/src/lib.rs\<close> that drive a connection.

  \<^bold>\<open>How the model is built.\<close> A struct is a record with the source's fields, an enum a datatype. An
  operation is a function that returns its result and the new state; its value is \<open>None\<close> exactly when
  the code panics (an \<open>assert!\<close>, an overflow, a slice out of range, an \<open>unreachable!\<close>) or a loop does
  not end. Every \<open>loop\<close> is \<open>run_loop\<close> of its body, a \<open>partial_function\<close>: no fuel is used, and that
  an operation returns is proved with a measure (\<open>run_loop_total\<close>). \<open>u8\<close>, \<open>u16\<close>, \<open>u32\<close> are words;
  \<open>usize\<close> is a natural number whose arithmetic is checked against 64 bits. \<open>Arc<Mutex<Shared>>\<close> is an
  address in a list of cells, freed when neither a handle nor the connection holds it. Wakers are
  numbers, and waking one out of a cell is recorded; the wakers a channel keeps are the channel's. A call on a
  handle is one step: interleavings inside of it, between two times it takes the mutex of its cell, are
  not covered. Times are numbers of nanoseconds: the doubling of a \<open>Duration\<close> is checked against its
  range, two instants are at most the range of an \<open>Instant\<close> apart, and adding the ping interval to an
  instant is not checked.

  \<^bold>\<open>Parameters.\<close> Code outside the repository is an argument: the transport (\<open>io_ops\<close>, contracts
  \<open>byte_sink\<close>, \<open>byte_source\<close>, \<open>duplex_env\<close>, \<open>reliable_env\<close>, \<open>fair_sink\<close>, \<open>greedy_sink\<close>), the channels and \<open>SelectAll\<close>
  (\<open>mux_ops\<close>, contracts \<open>command_sender\<close>, \<open>prompt_sender\<close>, \<open>command_mux\<close>, \<open>closing_mux\<close>,
  \<open>ordered_mux\<close>, \<open>parking_channel\<close>), the clock, \<open>Gen\<close> and
  \<open>FuturesUnordered\<close> (\<open>gen_ops\<close>, \<open>pool_ops\<close> with \<open>worker_pool\<close>, which
  stands for workers that do not panic). Every contract is interpreted on a
  concrete instance, on which the witnesses run.

  \<^bold>\<open>What is shown.\<close> The codec is exact and the wire loses, repeats and reorders nothing. A connection
  never panics, whatever the remote sends and in whatever order it and its handles are called, and
  stays within its limits; every frame has exactly the effect the protocol gives it; reading and
  writing through a handle is exact, the opening flag is sent at most once and only a close frame
  can come before it, and the halves of a split handle do not steal each other's wake-ups. Every call on a
  connection returns and refines the life active, closing, closed; closing delivers what was queued
  and finishes on a fair transport; errors and drops close the streams and wake every task
  registered in their cells, a graceful close leaves the cells as they are. On a transport that reports
  no write error a poll is a sequence of atomic steps on frames. Between two connections that talk
  to each other what one may still send plus what is on the way never exceeds what the other will accept (over
  channels that take what they were ready for, it is exactly that), a reader who waits leaves the writer
  at least half of the default window, in his hands or under way, and the bytes read at one
  end of a stream, buffered, on the wire and queued are, in this order, exactly the bytes written at
  the other. The unit tests pass, those with random inputs for every input their
  generators draw (but the cases named in \<open>Generators\<close>); the text of an error ends with the text of its cause.

  \<^bold>\<open>Not modelled.\<close> Log lines; the marker traits of \<^verbatim>\<open>frame/header.rs\<close> (types only); the \<open>async\<close>
  functions of the test harness, which only compose combinators of \<open>futures\<close>
  (\<open>try_for_each_concurrent\<close>, \<open>copy\<close>, \<open>write_all\<close>, \<open>read_exact\<close>, \<open>join\<close>) and sockets of \<open>tokio\<close>; its
  benchmark and the integration tests, which are scenarios over such sockets and an executor.
\<close>

end
